(* ===== verification/Prelude.thy ===== *)
theory Prelude
  imports Main "HOL-Library.Word" "HOL-Library.Multiset"
begin

text \<open>
  Shared material of the development: the C integer conversions the code performs, the
  error numbers it returns, 4096-byte blocks of a buffer, little-endian byte encodings and
  a few generic facts about lists, maps and sums.

  \<^item> \<open>u64\<close>, \<open>s64\<close>, \<open>s32\<close> are the conversions of a mathematical integer to
    \<^verbatim>\<open>uint64_t\<close>/\<^verbatim>\<open>size_t\<close>, \<^verbatim>\<open>int64_t\<close>/\<^verbatim>\<open>off_t\<close> and \<^verbatim>\<open>int\<close>
    (two's complement, as gcc defines them);
  \<^item> \<open>tdiv\<close> is C's division, which truncates towards zero;
  \<^item> \<open>block_at buf i\<close> is the 4096 bytes at \<^verbatim>\<open>buf + i * 4096\<close>.

  The collection \<open>c_arith\<close> holds the facts that a conversion is the identity on values in
  range; a proof about values in range adds it to the simplifier.
\<close>

named_theorems c_arith "conversions between C integer types on values in range"

type_synonym byte = "8 word"

section \<open>C integer conversions\<close>

definition u64 :: "int \<Rightarrow> int" where
  "u64 x = x mod 2 ^ 64"

definition s64 :: "int \<Rightarrow> int" where
  "s64 x = (x + 2 ^ 63) mod 2 ^ 64 - 2 ^ 63"

definition s32 :: "int \<Rightarrow> int" where
  "s32 x = (x + 2 ^ 31) mod 2 ^ 32 - 2 ^ 31"

definition tdiv :: "int \<Rightarrow> int \<Rightarrow> int" where
  "tdiv a b = sgn a * sgn b * (\<bar>a\<bar> div \<bar>b\<bar>)"

lemma u64_id [c_arith]: "0 \<le> x \<Longrightarrow> x < 2 ^ 64 \<Longrightarrow> u64 x = x"
  by (simp add: u64_def)

lemma s64_id [c_arith]: "- (2 ^ 63) \<le> x \<Longrightarrow> x < 2 ^ 63 \<Longrightarrow> s64 x = x"
  by (simp add: s64_def)

lemma s32_id [c_arith]: "- (2 ^ 31) \<le> x \<Longrightarrow> x < 2 ^ 31 \<Longrightarrow> s32 x = x"
  by (simp add: s32_def)

lemma tdiv_nonneg [c_arith]: "0 \<le> a \<Longrightarrow> 0 < b \<Longrightarrow> tdiv a b = a div b"
  by (cases "a = 0") (simp_all add: tdiv_def)

lemma u64_range: "0 \<le> u64 x" "u64 x < 2 ^ 64"
  by (simp_all add: u64_def)

lemma s64_range: "- (2 ^ 63) \<le> s64 x" "s64 x < 2 ^ 63"
proof -
  have "0 \<le> (x + 2 ^ 63) mod 2 ^ 64" "(x + 2 ^ 63) mod 2 ^ 64 < 2 ^ 64" by simp_all
  then show "- (2 ^ 63) \<le> s64 x" "s64 x < 2 ^ 63" by (simp_all add: s64_def)
qed

lemma s64_u64 [simp]: "s64 (u64 x) = s64 x"
  by (simp add: s64_def u64_def mod_simps)

lemma s32_u64 [simp]: "s32 (u64 x) = s32 x"
proof -
  have "(x mod 2 ^ 64 + 2 ^ 31) mod 2 ^ 32 = (x mod 2 ^ 64 mod 2 ^ 32 + 2 ^ 31) mod (2 ^ 32 :: int)"
    by (simp add: mod_simps)
  also have "x mod 2 ^ 64 mod 2 ^ 32 = x mod (2 ^ 32 :: int)"
    by (rule mod_mod_cancel) simp
  also have "(x mod 2 ^ 32 + 2 ^ 31) mod 2 ^ 32 = (x + 2 ^ 31) mod (2 ^ 32 :: int)"
    by (simp add: mod_simps)
  finally show ?thesis by (simp add: s32_def u64_def)
qed

lemma div_block:
  fixes x :: int
  shows "4096 * (x div 4096) \<le> x" "x < 4096 * (x div 4096) + 4096"
  using mult_div_mod_eq [of 4096 x] pos_mod_bound [of 4096 x] pos_mod_sign [of 4096 x] by linarith+

section \<open>Error numbers\<close>

abbreviation (input) EPERM :: int where "EPERM \<equiv> 1"
abbreviation (input) ENOENT :: int where "ENOENT \<equiv> 2"
abbreviation (input) EBADF :: int where "EBADF \<equiv> 9"
abbreviation (input) ENOMEM :: int where "ENOMEM \<equiv> 12"
abbreviation (input) EACCES :: int where "EACCES \<equiv> 13"
abbreviation (input) EINVAL :: int where "EINVAL \<equiv> 22"
abbreviation (input) ENOTSUP :: int where "ENOTSUP \<equiv> 95"

section \<open>Blocks of a buffer\<close>

definition block_at :: "byte list \<Rightarrow> nat \<Rightarrow> byte list" where
  "block_at buf i = take 4096 (drop (i * 4096) buf)"

definition blocks_of :: "byte list \<Rightarrow> byte list list" where
  "blocks_of buf = map (block_at buf) [0..<length buf div 4096]"

lemma block_at_0 [simp]: "block_at buf 0 = take 4096 buf"
  by (simp add: block_at_def)

lemma block_at_Suc: "block_at buf (Suc i) = block_at (drop 4096 buf) i"
  by (simp add: block_at_def add.commute)

lemma blocks_of_short [simp]: "length buf < 4096 \<Longrightarrow> blocks_of buf = []"
  by (simp add: blocks_of_def)

lemma length_blocks_of [simp]: "length (blocks_of buf) = length buf div 4096"
  by (simp add: blocks_of_def)

lemma blocks_of_step:
  assumes "4096 \<le> length buf"
  shows "blocks_of buf = take 4096 buf # blocks_of (drop 4096 buf)"
proof -
  have n: "length buf div 4096 = Suc ((length buf - 4096) div 4096)"
    using assms by (simp add: le_div_geq)
  have "blocks_of buf = map (block_at buf) (0 # map Suc [0..<(length buf - 4096) div 4096])"
    unfolding blocks_of_def n by (simp only: upt_conv_Cons map_Suc_upt zero_less_Suc)
  also have "\<dots> = take 4096 buf # blocks_of (drop 4096 buf)"
    by (simp add: blocks_of_def block_at_Suc comp_def)
  finally show ?thesis .
qed

lemma length_in_blocks_of: "b \<in> set (blocks_of buf) \<Longrightarrow> length b = 4096"
proof -
  assume "b \<in> set (blocks_of buf)"
  then obtain i where "i < length buf div 4096" "b = block_at buf i"
    by (auto simp: blocks_of_def)
  moreover from this have "i * 4096 + 4096 \<le> length buf" by linarith
  ultimately show ?thesis by (simp add: block_at_def)
qed

lemma concat_blocks_of: "4096 dvd length buf \<Longrightarrow> concat (blocks_of buf) = buf"
proof (induction "length buf" arbitrary: buf rule: less_induct)
  case less
  show ?case
  proof (cases "4096 \<le> length buf")
    case True
    then have "concat (blocks_of (drop 4096 buf)) = drop 4096 buf"
      using less by (auto intro!: less.hyps simp: dvd_diff_nat)
    with True show ?thesis by (simp add: blocks_of_step)
  next
    case False
    then have "length buf = 0" by (metis dvd_imp_le less.prems neq0_conv)
    then show ?thesis by simp
  qed
qed

lemma blocks_of_concat:
  "(\<And>b. b \<in> set bs \<Longrightarrow> length b = 4096) \<Longrightarrow> blocks_of (concat bs) = bs"
  by (induction bs) (simp_all add: blocks_of_step)

lemma length_concat_blocks:
  "(\<And>b. b \<in> set bs \<Longrightarrow> length b = n) \<Longrightarrow> length (concat bs) = n * length bs"
  by (induction bs) auto

lemma block_at_concat:
  assumes "\<And>b. b \<in> set bs \<Longrightarrow> length b = 4096" and "i < length bs"
  shows "block_at (concat bs) i = bs ! i"
  using assms
proof (induction bs arbitrary: i)
  case Nil
  then show ?case by simp
next
  case (Cons b bs)
  then show ?case by (cases i) (simp_all add: block_at_Suc)
qed

section \<open>Little-endian byte encodings\<close>

fun le_bytes :: "nat \<Rightarrow> nat \<Rightarrow> byte list" where
  "le_bytes 0 v = []"
| "le_bytes (Suc n) v = of_nat (v mod 256) # le_bytes n (v div 256)"

fun le_val :: "byte list \<Rightarrow> nat" where
  "le_val [] = 0"
| "le_val (b # bs) = unat b + 256 * le_val bs"

lemma length_le_bytes [simp]: "length (le_bytes n v) = n"
  by (induction n arbitrary: v) auto

lemma unat_of_nat_byte [simp]: "unat (of_nat (v mod 256) :: byte) = v mod 256"
  by (simp add: unat_of_nat)

lemma le_val_le_bytes: "le_val (le_bytes n v) = v mod 256 ^ n"
proof (induction n arbitrary: v)
  case (Suc n)
  have "v mod 256 ^ Suc n = v mod (256 * 256 ^ n)" by simp
  also have "\<dots> = 256 * (v div 256 mod 256 ^ n) + v mod 256" by (rule mod_mult2_eq)
  finally show ?case by (simp add: Suc)
qed simp

lemma le_val_bound: "le_val bs < 256 ^ length bs"
proof (induction bs)
  case (Cons b bs)
  have "unat b < 256" using unsigned_less [of b, where ?'a = nat] by simp
  with Cons show ?case by simp
qed simp

section \<open>Lists\<close>

lemma count_list_append_single [simp]:
  "count_list (xs @ [x]) a = count_list xs a + (if x = a then 1 else 0)"
  by simp

lemma count_list_pos_iff: "0 < count_list xs a \<longleftrightarrow> a \<in> set xs"
  by (metis count_list_0_iff gr_zeroI less_numeral_extra(3))

lemma count_list_take_le: "count_list (take n xs) a \<le> count_list xs a"
proof -
  have "count_list xs a = count_list (take n xs) a + count_list (drop n xs) a"
    by (metis append_take_drop_id count_list_append)
  then show ?thesis by simp
qed

lemma butlast_last_split: "xs \<noteq> [] \<Longrightarrow> set xs = insert (last xs) (set (butlast xs))"
  by (metis append_butlast_last_id list.simps(15) rotate1.simps(2) set_rotate1)

lemma distinct_butlast_last: "distinct xs \<Longrightarrow> xs \<noteq> [] \<Longrightarrow> last xs \<notin> set (butlast xs)"
  by (metis append_butlast_last_id distinct.simps(2) distinct1_rotate rotate1.simps(2))

end
