(* ===== verification/MetaInfo.thy ===== *)
theory MetaInfo
  imports Prelude "HOL-Library.List_Lexorder"
begin

text \<open>
  The metadata of \<^verbatim>\<open>codededup/metaInfo.h\<close> and \<^verbatim>\<open>metaInfo.c\<close>: the two structs, the hash
  function and the key comparison that the block index is built with, and the block order
  of \<^verbatim>\<open>compare_blocks\<close> in \<^verbatim>\<open>passthrough.c\<close>.

  Blocks are shared: the block index and the block lists of many files point at the same
  \<^verbatim>\<open>blockmeta\<close>. The model keeps the pointers: a \<open>blockmeta\<close> lives in a heap (a map from
  addresses), and the index and the lists hold addresses. The two locks embedded in the
  structs are the subject of \<open>Ticket_RWLock\<close>, and \<open>Handler_Threads\<close> says when the handlers take them.

  GLib asks of a hash table's key functions that equal keys have equal hash codes. The locale
  \<open>ghash_key\<close> states that contract and derives from it that a lookup which compares only
  the entries with the probe's hash code finds what a scan of all entries finds: a table
  built on such functions is a map, which is how the later theories model \<^verbatim>\<open>GHashTable\<close>.
\<close>

type_synonym hash = "byte list"
type_synonym addr = nat

section \<open>The structs\<close>

record filemeta =
  file_id :: string
  realSize :: int
  logicalSize :: int
  blockList :: "addr list"

record blockmeta =
  block_offset :: int
  block_id :: hash
  block_size :: int
  counter :: int

section \<open>Key functions of the block index\<close>

definition guint32_at :: "byte list \<Rightarrow> nat \<Rightarrow> 32 word" where
  "guint32_at key i = of_nat (le_val (take 4 (drop (4 * i) key)))"

definition blockHashFunc :: "hash \<Rightarrow> 32 word" where
  "blockHashFunc key = fold (\<lambda>i h. xor h (guint32_at key i)) [0..<4] 0"

definition compareSHAHashes :: "hash \<Rightarrow> hash \<Rightarrow> bool" where
  "compareSHAHashes hash1 hash2 = (if take 64 hash1 = take 64 hash2 then True else False)"

text \<open>\<^verbatim>\<open>memcmp\<close> on two digests of the same length is the lexicographic order on bytes.\<close>

definition compare_blocks :: "blockmeta \<Rightarrow> blockmeta \<Rightarrow> int" where
  "compare_blocks block_a block_b =
     (let a = take 64 (block_id block_a); b = take 64 (block_id block_b)
      in if a < b then -1 else if a = b then 0 else 1)"

locale ghash_key =
  fixes hashf :: "'k \<Rightarrow> 'h" and eqf :: "'k \<Rightarrow> 'k \<Rightarrow> bool"
  assumes eqf_refl: "eqf x x"
    and eqf_sym: "eqf x y \<Longrightarrow> eqf y x"
    and eqf_trans: "eqf x y \<Longrightarrow> eqf y z \<Longrightarrow> eqf x z"
    and hashf_compat: "eqf x y \<Longrightarrow> hashf x = hashf y"
begin

lemma bucket_lookup:
  "List.find (\<lambda>(k', v). hashf k' = hashf k \<and> eqf k' k) es = List.find (\<lambda>(k', v). eqf k' k) es"
  by (induction es) (auto dest: hashf_compat)

lemma find_eqf_cong:
  "eqf k k2 \<Longrightarrow> List.find (\<lambda>(k', v). eqf k' k) es = List.find (\<lambda>(k', v). eqf k' k2) es"
  by (induction es) (auto dest: eqf_trans eqf_sym)

end

lemma guint32_at_take:
  "take 64 x = take 64 y \<Longrightarrow> i < 4 \<Longrightarrow> guint32_at x i = guint32_at y i"
proof -
  assume eq: "take 64 x = take 64 y" and i: "i < 4"
  have "take 4 (drop (4 * i) z) = take 4 (drop (4 * i) (take 64 z))" for z :: hash
    using i by (simp add: drop_take min_def)
  then show ?thesis by (metis eq guint32_at_def)
qed

interpretation block_key: ghash_key blockHashFunc compareSHAHashes
proof unfold_locales
  fix x y :: hash
  assume "compareSHAHashes x y"
  then have "take 64 x = take 64 y" by (simp add: compareSHAHashes_def split: if_splits)
  then have "guint32_at x i = guint32_at y i" if "i < 4" for i
    using that by (rule guint32_at_take)
  then show "blockHashFunc x = blockHashFunc y"
    by (simp add: blockHashFunc_def upt_conv_Cons)
qed (auto simp: compareSHAHashes_def split: if_splits)

text \<open>The key functions of the block index meet GLib's contract: digests that
  \<^verbatim>\<open>compareSHAHashes\<close> takes for equal have equal \<^verbatim>\<open>blockHashFunc\<close> codes, so a lookup
  that compares only the entries whose code agrees with the probe's finds exactly the entry
  that comparing with every entry would find.\<close>

theorem block_index_lookup_complete:
  "List.find (\<lambda>(k', v). blockHashFunc k' = blockHashFunc k \<and> compareSHAHashes k' k) es
     = List.find (\<lambda>(k', v). compareSHAHashes k' k) es"
  by (rule block_key.bucket_lookup)

text \<open>On full digests the comparison is equality, and the block order compares digests.\<close>

lemma compareSHAHashes_digest:
  "length x = 64 \<Longrightarrow> length y = 64 \<Longrightarrow> compareSHAHashes x y \<longleftrightarrow> x = y"
  by (simp add: compareSHAHashes_def)

lemma compare_blocks_le:
  assumes "length (block_id a) = 64" "length (block_id b) = 64"
  shows "compare_blocks a b \<le> 0 \<longleftrightarrow> block_id a \<le> block_id b"
  using assms by (auto simp: compare_blocks_def Let_def)

end
