(* ===== verification/Store_State.thy ===== *)
theory Store_State
  imports MetaInfo
begin

text \<open>
  The state of the deduplicating file system (\<^verbatim>\<open>Context\<close> in \<^verbatim>\<open>codededup/passthrough.c\<close>),
  the functions outside \<^verbatim>\<open>src/\<close> its handlers call, and the invariants of the state.

  \<^item> \<open>'k os\<close> bundles the external functions: OpenSSL's SHA-512, the order in which a GLib
    hash table iterates, and the system calls the block store makes. \<open>'k\<close> is the state of
    the kernel, which every call may change. A call that returns \<open>-1\<close> is \<open>SysErr errno\<close>.
  \<^item> \<open>'k Context\<close> is \<^verbatim>\<open>Context\<close>: \<open>blockIndex\<close> maps a digest to the address of a
    \<open>blockmeta\<close>, \<open>heap\<close> holds the live \<open>blockmeta\<close>s, \<open>next_addr\<close> is the next
    address the allocator hands out (addresses are not reused, so that an access through a
    freed pointer is always seen), \<open>kern\<close> is the kernel's state.
  \<^item> \<open>uninit k\<close> is what a buffer that \<^verbatim>\<open>posix_memalign\<close> has just handed out holds.
  \<^item> \<open>os_ok E fd view\<close> states what is relied on of the external functions, with
    \<open>view k off\<close> the 4096 bytes that were last written at offset \<open>off\<close> of the data file
    \<^verbatim>\<open>/backend/.sysdata\<close>, opened as \<open>fd\<close>.

  A handler returns an \<open>option\<close>: \<open>None\<close> is undefined behaviour of the C program (an
  access to a freed block, an index outside an array). The invariant \<open>mem_safe\<close> is what
  excludes it; it survives every I/O error. \<open>exact_store\<close> and \<open>content_ok\<close> add what
  holds as long as no I/O error has occurred.
\<close>

section \<open>External functions\<close>

datatype 'a sysres = SysErr (sys_errno: int) | SysOk (sys_val: 'a)

record 'k os =
  sha512 :: "byte list \<Rightarrow> hash"
  iter_order :: "addr list \<Rightarrow> addr list"
  memalign :: "'k \<Rightarrow> bool \<times> 'k"
  uninit :: "'k \<Rightarrow> byte list"
  sys_pread :: "int \<Rightarrow> nat \<Rightarrow> int \<Rightarrow> 'k \<Rightarrow> byte list sysres \<times> 'k"
  sys_pwrite :: "int \<Rightarrow> byte list \<Rightarrow> int \<Rightarrow> 'k \<Rightarrow> nat sysres \<times> 'k"
  sys_unlink :: "string \<Rightarrow> 'k \<Rightarrow> unit sysres \<times> 'k"

definition same_view :: "('k \<Rightarrow> int \<Rightarrow> byte list option) \<Rightarrow> 'k \<Rightarrow> 'k \<Rightarrow> bool" where
  "same_view view k k' \<longleftrightarrow> view k' = view k"

definition os_ok :: "'k os \<Rightarrow> int \<Rightarrow> ('k \<Rightarrow> int \<Rightarrow> byte list option) \<Rightarrow> bool" where
  "os_ok E fd view \<longleftrightarrow>
     (\<forall>b. length (sha512 E b) = 64) \<and>
     (\<forall>xs. mset (iter_order E xs) = mset xs) \<and>
     (\<forall>k. same_view view k (snd (memalign E k))) \<and>
     (\<forall>k. length (uninit E k) = 4096) \<and>
     (\<forall>p k. same_view view k (snd (sys_unlink E p k))) \<and>
     (\<forall>n off k. same_view view k (snd (sys_pread E fd n off k))) \<and>
     (\<forall>n off k b. fst (sys_pread E fd n off k) = SysOk b \<longrightarrow> length b \<le> n) \<and>
     (\<forall>off k d b. view k off = Some d \<longrightarrow> fst (sys_pread E fd 4096 off k) = SysOk b \<longrightarrow>
        b = take (length b) d) \<and>
     (\<forall>b off k. length b = 4096 \<longrightarrow> fst (sys_pwrite E fd b off k) = SysOk 4096 \<longrightarrow>
        view (snd (sys_pwrite E fd b off k)) off = Some b) \<and>
     (\<forall>b off k off'. length b = 4096 \<longrightarrow> 4096 \<le> \<bar>off' - off\<bar> \<longrightarrow>
        view (snd (sys_pwrite E fd b off k)) off' = view k off') \<and>
     (\<forall>b off k e. fst (sys_pwrite E fd b off k) = SysErr e \<longrightarrow> 0 < e) \<and>
     (\<forall>n off k e. fst (sys_pread E fd n off k) = SysErr e \<longrightarrow> 0 < e) \<and>
     (\<forall>p k e. fst (sys_unlink E p k) = SysErr e \<longrightarrow> 0 < e)"

text \<open>POSIX lets both calls transfer fewer bytes than asked for and still succeed; the code does not look
  at the count. \<open>io_ok\<close> adds that no transfer of a whole block is cut short.\<close>

definition io_ok :: "'k os \<Rightarrow> int \<Rightarrow> ('k \<Rightarrow> int \<Rightarrow> byte list option) \<Rightarrow> bool" where
  "io_ok E fd view \<longleftrightarrow> os_ok E fd view \<and>
     (\<forall>b off k n. length b = 4096 \<longrightarrow> fst (sys_pwrite E fd b off k) = SysOk n \<longrightarrow> n = 4096) \<and>
     (\<forall>off k d b. view k off = Some d \<longrightarrow> length d = 4096 \<longrightarrow>
        fst (sys_pread E fd 4096 off k) = SysOk b \<longrightarrow> length b = 4096)"

lemma io_ok_os: "io_ok E fd view \<Longrightarrow> os_ok E fd view"
  by (simp add: io_ok_def)

lemma os_ok_sha [simp]: "os_ok E fd view \<Longrightarrow> length (sha512 E b) = 64"
  by (simp add: os_ok_def)

lemma os_ok_iter:
  "os_ok E fd view \<Longrightarrow> mset (iter_order E xs) = mset xs"
  by (simp add: os_ok_def)

lemma os_ok_frame:
  assumes "os_ok E fd view"
  shows "view (snd (memalign E k)) = view k"
    and "view (snd (sys_unlink E p k)) = view k"
    and "view (snd (sys_pread E fd n off k)) = view k"
  using assms by (simp_all add: os_ok_def same_view_def)

lemma os_ok_uninit [simp]: "os_ok E fd view \<Longrightarrow> length (uninit E k) = 4096"
  by (simp add: os_ok_def)

lemma os_ok_pread_length:
  "os_ok E fd view \<Longrightarrow> sys_pread E fd n off k = (SysOk b, k') \<Longrightarrow> length b \<le> n"
  unfolding os_ok_def by (metis fst_conv)

lemma io_ok_pread:
  assumes "io_ok E fd view" and "view k off = Some d" and "length d = 4096"
    and "sys_pread E fd 4096 off k = (SysOk b, k')"
  shows "b = d"
proof -
  have "length b = 4096" using assms unfolding io_ok_def by (metis fst_conv)
  moreover have "b = take (length b) d" using assms unfolding io_ok_def os_ok_def by (metis fst_conv)
  ultimately show ?thesis using assms(3) by simp
qed

lemma io_ok_pwrite:
  assumes "io_ok E fd view" and "length b = 4096" and "sys_pwrite E fd b off k = (SysOk n, k')"
  shows "view k' off = Some b"
proof -
  have "n = 4096" using assms unfolding io_ok_def by (metis fst_conv)
  then show ?thesis using assms unfolding io_ok_def os_ok_def by (metis fst_conv snd_conv)
qed

lemma os_ok_pwrite_other:
  "os_ok E fd view \<Longrightarrow> length b = 4096 \<Longrightarrow> 4096 \<le> \<bar>off' - off\<bar> \<Longrightarrow>
     view (snd (sys_pwrite E fd b off k)) off' = view k off'"
  unfolding os_ok_def by metis

lemma os_ok_errno:
  assumes "os_ok E fd view"
  shows "sys_pwrite E fd b off k = (SysErr e, k') \<Longrightarrow> 0 < e"
    and "sys_pread E fd n off k = (SysErr e, k') \<Longrightarrow> 0 < e"
    and "sys_unlink E p k = (SysErr e, k') \<Longrightarrow> 0 < e"
proof -
  have "\<forall>b off k e. fst (sys_pwrite E fd b off k) = SysErr e \<longrightarrow> 0 < e"
    "\<forall>n off k e. fst (sys_pread E fd n off k) = SysErr e \<longrightarrow> 0 < e"
    "\<forall>p k e. fst (sys_unlink E p k) = SysErr e \<longrightarrow> 0 < e"
    using assms unfolding os_ok_def by blast+
  then show "sys_pwrite E fd b off k = (SysErr e, k') \<Longrightarrow> 0 < e"
    "sys_pread E fd n off k = (SysErr e, k') \<Longrightarrow> 0 < e"
    "sys_unlink E p k = (SysErr e, k') \<Longrightarrow> 0 < e"
    by (metis fst_conv)+
qed

section \<open>The context\<close>

record 'k Context =
  fileIndex :: "string \<Rightarrow> filemeta option"
  blockIndex :: "hash \<Rightarrow> addr option"
  freeList :: "int list"
  backend_fd :: int
  next_free_offset :: int
  heap :: "addr \<Rightarrow> blockmeta option"
  next_addr :: addr
  kern :: 'k

text \<open>The context that \<^verbatim>\<open>xmp_init\<close> sets up before it loads the metadata: empty tables,
  no free slots, and the size of the data file as the next free offset.\<close>

definition fresh_context :: "int \<Rightarrow> int \<Rightarrow> 'k \<Rightarrow> 'k Context" where
  "fresh_context fd st_size k =
     \<lparr>fileIndex = Map.empty, blockIndex = Map.empty, freeList = [], backend_fd = fd,
      next_free_offset = st_size, heap = Map.empty, next_addr = 0, kern = k\<rparr>"

section \<open>Counting references\<close>

definition refs :: "(string \<Rightarrow> filemeta option) \<Rightarrow> addr \<Rightarrow> nat" where
  "refs fi a = (\<Sum>p\<in>dom fi. count_list (blockList (the (fi p))) a)"

definition ctr :: "(addr \<Rightarrow> blockmeta option) \<Rightarrow> addr \<Rightarrow> int" where
  "ctr hp a = (case hp a of None \<Rightarrow> 0 | Some b \<Rightarrow> counter b)"

lemma ctr_upd [simp]:
  "ctr (hp(a := x)) a' = (if a' = a then (case x of None \<Rightarrow> 0 | Some b \<Rightarrow> counter b) else ctr hp a')"
  by (simp add: ctr_def)

lemma ctr_Some [simp]: "hp a = Some b \<Longrightarrow> ctr hp a = counter b"
  by (simp add: ctr_def)

lemma refs_update:
  assumes "finite (dom fi)"
  shows "refs (fi(p \<mapsto> f)) a + (case fi p of None \<Rightarrow> 0 | Some g \<Rightarrow> count_list (blockList g) a)
       = refs fi a + count_list (blockList f) a"
proof -
  let ?g = "\<lambda>fi q. count_list (blockList (the (fi q))) a"
  have same: "(\<Sum>q\<in>dom fi - {p}. ?g (fi(p \<mapsto> f)) q) = (\<Sum>q\<in>dom fi - {p}. ?g fi q)"
    by (rule sum.cong) auto
  have new: "refs (fi(p \<mapsto> f)) a = count_list (blockList f) a + (\<Sum>q\<in>dom fi - {p}. ?g fi q)"
    using assms by (simp add: refs_def sum.insert_remove same)
  show ?thesis
  proof (cases "fi p")
    case None
    then have "dom fi - {p} = dom fi" by auto
    with None new show ?thesis by (simp add: refs_def)
  next
    case (Some g)
    then have "p \<in> dom fi" by auto
    then have "refs fi a = ?g fi p + (\<Sum>q\<in>dom fi - {p}. ?g fi q)"
      using assms unfolding refs_def by (rule sum.remove [rotated])
    with Some new show ?thesis by simp
  qed
qed

lemma refs_insert:
  "finite (dom fi) \<Longrightarrow> fi p = None \<Longrightarrow> refs (fi(p \<mapsto> f)) a = refs fi a + count_list (blockList f) a"
  using refs_update [of fi p f a] by simp

lemma refs_replace:
  "finite (dom fi) \<Longrightarrow> fi p = Some g \<Longrightarrow>
     refs (fi(p \<mapsto> f)) a + count_list (blockList g) a = refs fi a + count_list (blockList f) a"
  using refs_update [of fi p f a] by simp

lemma refs_delete:
  assumes "finite (dom fi)" and "fi p = Some g"
  shows "refs (fi(p := None)) a + count_list (blockList g) a = refs fi a"
proof -
  have "refs ((fi(p := None))(p \<mapsto> g)) a = refs (fi(p := None)) a + count_list (blockList g) a"
    by (rule refs_insert) (use assms(1) in simp_all)
  moreover have "(fi(p := None))(p \<mapsto> g) = fi" using assms(2) by auto
  ultimately show ?thesis by simp
qed

lemma refs_ge:
  "finite (dom fi) \<Longrightarrow> fi p = Some f \<Longrightarrow> count_list (blockList f) a \<le> refs fi a"
  using refs_delete [of fi p f a] by simp

section \<open>Invariants\<close>

text \<open>Index and heap are inverse to each other.\<close>

definition index_ok :: "'k Context \<Rightarrow> bool" where
  "index_ok c \<longleftrightarrow>
     (\<forall>h a. blockIndex c h = Some a \<longrightarrow> (\<exists>b. heap c a = Some b \<and> block_id b = h)) \<and>
     (\<forall>a b. heap c a = Some b \<longrightarrow>
        blockIndex c (block_id b) = Some a \<and> a < next_addr c \<and> block_size b = 4096 \<and> 0 < counter b)"

text \<open>A counter is at least the number of references, those of a pending list included.\<close>

definition refs_ok :: "'k Context \<Rightarrow> addr list \<Rightarrow> bool" where
  "refs_ok c pend \<longleftrightarrow>
     (\<forall>a. int (refs (fileIndex c) a + count_list pend a) \<le> ctr (heap c) a)"

definition refs_exact :: "'k Context \<Rightarrow> addr list \<Rightarrow> bool" where
  "refs_exact c pend \<longleftrightarrow>
     (\<forall>a. ctr (heap c) a = int (refs (fileIndex c) a + count_list pend a))"

definition files_ok :: "'k Context \<Rightarrow> bool" where
  "files_ok c \<longleftrightarrow> finite (dom (fileIndex c)) \<and>
     (\<forall>p f. fileIndex c p = Some f \<longrightarrow>
        file_id f = p \<and> 0 \<le> logicalSize f \<and> logicalSize f \<le> 4096 * int (length (blockList f)))"

text \<open>Offsets: the blocks of \<open>S\<close> and the free list occupy distinct block slots below
  \<open>next_free_offset\<close>.\<close>

definition boff :: "'k Context \<Rightarrow> addr \<Rightarrow> int" where
  "boff c a = (case heap c a of None \<Rightarrow> 0 | Some b \<Rightarrow> block_offset b)"

definition slot_ok :: "'k Context \<Rightarrow> int \<Rightarrow> bool" where
  "slot_ok c off \<longleftrightarrow> 4096 dvd off \<and> 0 \<le> off \<and> off + 4096 \<le> next_free_offset c"

definition layout_ok :: "'k Context \<Rightarrow> addr set \<Rightarrow> bool" where
  "layout_ok c S \<longleftrightarrow> 4096 dvd next_free_offset c \<and> 0 \<le> next_free_offset c \<and>
     distinct (freeList c) \<and> inj_on (boff c) S \<and> boff c ` S \<inter> set (freeList c) = {} \<and>
     (\<forall>off \<in> boff c ` S \<union> set (freeList c). slot_ok c off)"

definition mem_safe :: "'k Context \<Rightarrow> bool" where
  "mem_safe c \<longleftrightarrow> index_ok c \<and> refs_ok c [] \<and> files_ok c \<and> layout_ok c (dom (heap c))"

text \<open>No I/O error so far: counters are the numbers of references, and a file's size is the
  size of its blocks.\<close>

definition sizes_ok :: "'k Context \<Rightarrow> bool" where
  "sizes_ok c \<longleftrightarrow> (\<forall>p f. fileIndex c p = Some f \<longrightarrow>
     logicalSize f = 4096 * int (length (blockList f)))"

definition exact_store :: "'k Context \<Rightarrow> bool" where
  "exact_store c \<longleftrightarrow> refs_exact c [] \<and> sizes_ok c"

text \<open>The data file holds, at the offset of a block, 4096 bytes whose digest is the block's id.\<close>

definition block_data :: "('k \<Rightarrow> int \<Rightarrow> byte list option) \<Rightarrow> 'k Context \<Rightarrow> addr \<Rightarrow> byte list" where
  "block_data view c a = (case view (kern c) (boff c a) of None \<Rightarrow> [] | Some d \<Rightarrow> d)"

definition content_ok :: "'k os \<Rightarrow> ('k \<Rightarrow> int \<Rightarrow> byte list option) \<Rightarrow> 'k Context \<Rightarrow> addr set \<Rightarrow> bool" where
  "content_ok E view c S \<longleftrightarrow> (\<forall>a\<in>S. \<exists>b d. heap c a = Some b \<and>
     view (kern c) (block_offset b) = Some d \<and> length d = 4096 \<and> sha512 E d = block_id b)"

definition store_ok :: "'k os \<Rightarrow> ('k \<Rightarrow> int \<Rightarrow> byte list option) \<Rightarrow> 'k Context \<Rightarrow> bool" where
  "store_ok E view c \<longleftrightarrow>
     mem_safe c \<and> exact_store c \<and> content_ok E view c (dom (heap c)) \<and> backend_fd c \<noteq> -1"

text \<open>What a user of the mount sees: the bytes of each file in the index.\<close>

definition file_data :: "('k \<Rightarrow> int \<Rightarrow> byte list option) \<Rightarrow> 'k Context \<Rightarrow> filemeta \<Rightarrow> byte list" where
  "file_data view c f = concat (map (block_data view c) (blockList f))"

definition abs_fs :: "('k \<Rightarrow> int \<Rightarrow> byte list option) \<Rightarrow> 'k Context \<Rightarrow> string \<Rightarrow> byte list option" where
  "abs_fs view c p = map_option (file_data view c) (fileIndex c p)"

definition stored :: "('k \<Rightarrow> int \<Rightarrow> byte list option) \<Rightarrow> 'k Context \<Rightarrow> byte list set" where
  "stored view c = block_data view c ` dom (heap c)"

section \<open>Consequences of the invariants\<close>

lemma index_okD1: "index_ok c \<Longrightarrow> blockIndex c h = Some a \<Longrightarrow> \<exists>b. heap c a = Some b \<and> block_id b = h"
  by (simp add: index_ok_def)

lemma index_okD2:
  assumes "index_ok c" and "heap c a = Some b"
  shows "blockIndex c (block_id b) = Some a" and "a < next_addr c" and "block_size b = 4096"
    and "0 < counter b"
  using assms by (simp_all add: index_ok_def)

lemma index_ok_fresh: "index_ok c \<Longrightarrow> heap c (next_addr c) = None"
  by (metis index_okD2(2) less_irrefl option.exhaust)

lemma index_ok_inj:
  "index_ok c \<Longrightarrow> heap c a = Some b \<Longrightarrow> heap c a' = Some b' \<Longrightarrow> block_id b = block_id b' \<Longrightarrow> a = a'"
  by (metis index_okD2(1) option.inject)

lemma refs_ok_live:
  assumes "refs_ok c pend" and "a \<in> set pend \<or> 0 < refs (fileIndex c) a"
  shows "\<exists>b. heap c a = Some b"
proof -
  have "0 < count_list pend a + refs (fileIndex c) a"
    using assms(2) count_list_pos_iff [of pend a] by auto
  moreover have "int (refs (fileIndex c) a + count_list pend a) \<le> ctr (heap c) a"
    using assms(1) by (simp add: refs_ok_def)
  ultimately have "0 < ctr (heap c) a" by linarith
  then show ?thesis by (cases "heap c a") (simp_all add: ctr_def)
qed

lemma mem_safe_block_live:
  assumes "mem_safe c" and "fileIndex c p = Some f" and "a \<in> set (blockList f)"
  shows "\<exists>b. heap c a = Some b"
proof (rule refs_ok_live)
  show "refs_ok c []" using assms(1) by (simp add: mem_safe_def)
  have "count_list (blockList f) a \<le> refs (fileIndex c) a"
    using assms(1,2) by (intro refs_ge) (simp_all add: mem_safe_def files_ok_def)
  then show "a \<in> set [] \<or> 0 < refs (fileIndex c) a"
    using assms(3) by (metis count_list_pos_iff gr_zeroI le_zero_eq)
qed

lemma refs_exact_ok: "refs_exact c pend \<Longrightarrow> refs_ok c pend"
  by (simp add: refs_exact_def refs_ok_def)

lemma boff_Some [simp]: "heap c a = Some b \<Longrightarrow> boff c a = block_offset b"
  by (simp add: boff_def)

text \<open>The kernel's state and the file index do not matter to index and layout.\<close>

lemma boff_upd [simp]:
  "boff (c\<lparr>kern := k\<rparr>) = boff c" "boff (c\<lparr>fileIndex := fi\<rparr>) = boff c"
  by (simp_all add: boff_def fun_eq_iff)

lemma layout_ok_upd [simp]:
  "layout_ok (c\<lparr>kern := k\<rparr>) S = layout_ok c S" "layout_ok (c\<lparr>fileIndex := fi\<rparr>) S = layout_ok c S"
  by (simp_all add: layout_ok_def slot_ok_def)

lemma index_ok_upd [simp]:
  "index_ok (c\<lparr>kern := k\<rparr>) = index_ok c" "index_ok (c\<lparr>fileIndex := fi\<rparr>) = index_ok c"
  by (simp_all add: index_ok_def)

lemma block_data_upd [simp]:
  "block_data view (c\<lparr>fileIndex := fi\<rparr>) = block_data view c"
  by (simp add: block_data_def fun_eq_iff)

lemma content_ok_upd [simp]:
  "content_ok E view (c\<lparr>fileIndex := fi\<rparr>) S = content_ok E view c S"
  by (simp add: content_ok_def)

lemma block_data_same_view:
  "view (kern c') = view (kern c) \<Longrightarrow> heap c' = heap c \<Longrightarrow> block_data view c' = block_data view c"
  by (simp add: block_data_def boff_def fun_eq_iff)

lemma content_ok_same_view:
  "view (kern c') = view (kern c) \<Longrightarrow> heap c' = heap c \<Longrightarrow>
     content_ok E view c' S = content_ok E view c S"
  by (simp add: content_ok_def)

lemma slots_apart:
  "4096 dvd x \<Longrightarrow> 4096 dvd y \<Longrightarrow> x \<noteq> y \<Longrightarrow> 4096 \<le> \<bar>x - (y :: int)\<bar>"
  by (metis dvd_diff dvd_imp_le_int diff_eq_eq add_0 abs_numeral)

lemma layout_ok_apart:
  assumes "layout_ok c S" and "a \<in> S" and "a' \<in> S" and "a \<noteq> a'"
  shows "4096 \<le> \<bar>boff c a - boff c a'\<bar>"
  using assms by (intro slots_apart) (auto simp: layout_ok_def slot_ok_def inj_on_def)

lemma content_okD:
  assumes "content_ok E view c S" and "a \<in> S" and "heap c a = Some b"
  shows "view (kern c) (block_offset b) = Some (block_data view c a)"
    and "length (block_data view c a) = 4096" and "sha512 E (block_data view c a) = block_id b"
  using assms by (force simp: content_ok_def block_data_def)+

text \<open>A fresh context over an empty data file, or one of whole blocks, is consistent.\<close>

lemma fresh_context_ok:
  assumes "4096 dvd st_size" and "0 \<le> st_size" and "fd \<noteq> -1"
  shows "store_ok E view (fresh_context fd st_size k)"
  using assms
  by (simp add: store_ok_def mem_safe_def index_ok_def refs_ok_def files_ok_def layout_ok_def
      exact_store_def refs_exact_def sizes_ok_def content_ok_def fresh_context_def refs_def ctr_def)

section \<open>Calls that change nothing but the kernel\<close>

definition kern_only :: "('k \<Rightarrow> int \<Rightarrow> byte list option) \<Rightarrow> 'k Context \<Rightarrow> 'k Context \<Rightarrow> bool" where
  "kern_only view c c' \<longleftrightarrow> (\<exists>k. c' = c\<lparr>kern := k\<rparr> \<and> view k = view (kern c))"

lemma kern_onlyI: "view k = view (kern c) \<Longrightarrow> kern_only view c (c\<lparr>kern := k\<rparr>)"
  by (auto simp: kern_only_def)

lemma kern_only_refl [simp]: "kern_only view c c"
  unfolding kern_only_def by (rule exI [of _ "kern c"]) simp

lemma kern_only_trans: "kern_only view a b \<Longrightarrow> kern_only view b c \<Longrightarrow> kern_only view a c"
  by (auto simp: kern_only_def)

lemma kern_only_fields:
  assumes "kern_only view c c'"
  shows "heap c' = heap c" "backend_fd c' = backend_fd c" "fileIndex c' = fileIndex c"
    "view (kern c') = view (kern c)" "mem_safe c' = mem_safe c"
  using assms by (auto simp: kern_only_def mem_safe_def refs_ok_def files_ok_def)

lemma kern_only_store:
  assumes "kern_only view c c'"
  shows "store_ok E view c' = store_ok E view c" "abs_fs view c' = abs_fs view c"
proof -
  obtain k where k: "c' = c\<lparr>kern := k\<rparr>" "view k = view (kern c)" using assms by (auto simp: kern_only_def)
  have "content_ok E view c' = content_ok E view c"
    using k by (simp add: content_ok_def fun_eq_iff)
  then show "store_ok E view c' = store_ok E view c"
    using kern_only_fields [OF assms]
    by (simp add: store_ok_def exact_store_def refs_exact_def sizes_ok_def)
  have "block_data view (c\<lparr>kern := k\<rparr>) = block_data view c"
    using k by (intro block_data_same_view) simp_all
  then have "file_data view (c\<lparr>kern := k\<rparr>) = file_data view c"
    by (intro ext) (simp add: file_data_def)
  then show "abs_fs view c' = abs_fs view c"
    using k by (intro ext) (simp add: abs_fs_def)
qed

end
