(* ===== verification/Dedup_Write.thy ===== *)
theory Dedup_Write
  imports Store_State "HOL-Library.Monad_Syntax"
begin

text \<open>
  \<^verbatim>\<open>xmp_write\<close> of \<^verbatim>\<open>codededup/passthrough.c\<close>: the inline deduplicating append. The
  definitions follow the handler's phases, one definition each:
  find or create the file (\<open>get_or_create_file\<close>), find or create a \<open>blockmeta\<close> per
  4096-byte chunk and count the reference (\<open>acquire_block\<close>, \<open>acquire_blocks\<close>), order the
  distinct blocks by digest (\<open>blocks_to_lock\<close>), give the new blocks an offset
  (\<open>assign_offset\<close>, \<open>assign_offsets\<close>), write the new blocks and extend the block list
  (\<open>write_one\<close>, \<open>write_blocks\<close>), set the size and compute the result (\<open>xmp_write\<close>).

  \<open>Dedup_Write_Phases\<close> says what each phase preserves and establishes, failing system calls
  included; \<open>Dedup_Write_Spec\<close> puts the phases together.
\<close>

section \<open>The handler\<close>

definition new_file :: "string \<Rightarrow> filemeta" where
  "new_file path = \<lparr>file_id = path, realSize = 0, logicalSize = 0, blockList = []\<rparr>"

definition get_or_create_file :: "string \<Rightarrow> 'k Context \<Rightarrow> filemeta \<times> 'k Context" where
  "get_or_create_file path c =
     (case fileIndex c path of
        Some file \<Rightarrow> (file, c)
      | None \<Rightarrow> (new_file path, c\<lparr>fileIndex := (fileIndex c)(path \<mapsto> new_file path)\<rparr>))"

text \<open>The locals of the lookup loop: \<^verbatim>\<open>lockedBlocks\<close> (a hash table, here with its
  entries in order of insertion), \<^verbatim>\<open>newBlocksInfo\<close> and the set \<^verbatim>\<open>my_created_blocks\<close>.\<close>

record write_locals =
  lockedBlocks :: "(hash \<times> addr) list"
  newBlocksInfo :: "addr list"
  my_created_blocks :: "addr list"

definition no_locals :: write_locals where
  "no_locals = \<lparr>lockedBlocks = [], newBlocksInfo = [], my_created_blocks = []\<rparr>"

definition new_block :: "hash \<Rightarrow> blockmeta" where
  "new_block h = \<lparr>block_offset = 0, block_id = h, block_size = 4096, counter = 1\<rparr>"

definition note_block :: "addr \<Rightarrow> hash \<Rightarrow> write_locals \<Rightarrow> write_locals" where
  "note_block a h l =
     l\<lparr>lockedBlocks := (if map_of (lockedBlocks l) h = None then lockedBlocks l @ [(h, a)]
                        else lockedBlocks l),
       newBlocksInfo := newBlocksInfo l @ [a]\<rparr>"

definition acquire_block :: "hash \<Rightarrow> 'k Context \<Rightarrow> write_locals \<Rightarrow> ('k Context \<times> write_locals) option" where
  "acquire_block h c l =
     (case blockIndex c h of
        None \<Rightarrow>
          (let a = next_addr c
           in Some (c\<lparr>heap := (heap c)(a \<mapsto> new_block h), next_addr := Suc a,
                      blockIndex := (blockIndex c)(h \<mapsto> a)\<rparr>,
                    note_block a h (l\<lparr>my_created_blocks := my_created_blocks l @ [a]\<rparr>)))
      | Some a \<Rightarrow>
          (case heap c a of
             None \<Rightarrow> None
           | Some block \<Rightarrow>
               Some (c\<lparr>heap := (heap c)(a \<mapsto> block\<lparr>counter := s32 (counter block + 1)\<rparr>)\<rparr>,
                     note_block a (block_id block) l)))"

fun acquire_blocks :: "hash list \<Rightarrow> 'k Context \<Rightarrow> write_locals \<Rightarrow> ('k Context \<times> write_locals) option" where
  "acquire_blocks [] c l = Some (c, l)"
| "acquire_blocks (h # hs) c l =
     (case acquire_block h c l of None \<Rightarrow> None | Some (c', l') \<Rightarrow> acquire_blocks hs c' l')"

text \<open>\<^verbatim>\<open>g_hash_table_get_values\<close> lists the table in its own order; the sort by digest makes
  the result independent of it.\<close>

definition blocks_to_lock :: "'k os \<Rightarrow> 'k Context \<Rightarrow> (hash \<times> addr) list \<Rightarrow> addr list option" where
  "blocks_to_lock E c tab =
     (let vals = iter_order E (map snd tab)
      in if list_all (\<lambda>a. heap c a \<noteq> None) vals
         then Some (sort_key (\<lambda>a. take 64 (block_id (the (heap c a)))) vals) else None)"

definition assign_offset :: "addr list \<Rightarrow> addr \<Rightarrow> 'k Context \<Rightarrow> 'k Context option" where
  "assign_offset created a c =
     (if a \<in> set created then
        case heap c a of
          None \<Rightarrow> None
        | Some block \<Rightarrow>
            if freeList c \<noteq> [] then
              Some (c\<lparr>heap := (heap c)(a \<mapsto> block\<lparr>block_offset := last (freeList c)\<rparr>),
                      freeList := butlast (freeList c)\<rparr>)
            else
              Some (c\<lparr>heap := (heap c)(a \<mapsto> block\<lparr>block_offset := next_free_offset c\<rparr>),
                      next_free_offset := s64 (next_free_offset c + block_size block)\<rparr>)
      else Some c)"

fun assign_offsets :: "addr list \<Rightarrow> addr list \<Rightarrow> 'k Context \<Rightarrow> 'k Context option" where
  "assign_offsets created [] c = Some c"
| "assign_offsets created (a # as) c =
     (case assign_offset created a c of None \<Rightarrow> None | Some c' \<Rightarrow> assign_offsets created as c')"

text \<open>One turn of the I/O loop for a block that this call created: the \<^verbatim>\<open>pwrite\<close>.\<close>

definition write_one :: "'k os \<Rightarrow> blockmeta \<Rightarrow> byte list \<Rightarrow> 'k Context \<Rightarrow> int \<times> 'k Context" where
  "write_one E block buf_ptr c =
     (if backend_fd c \<noteq> -1 then
        case sys_pwrite E (backend_fd c) (take (nat (block_size block)) buf_ptr) (block_offset block) (kern c) of
          (SysErr e, k') \<Rightarrow> (- e, c\<lparr>kern := k'\<rparr>)
        | (SysOk _, k') \<Rightarrow> (0, c\<lparr>kern := k'\<rparr>)
      else (0, c))"

fun write_blocks :: "'k os \<Rightarrow> addr list \<Rightarrow> byte list \<Rightarrow> addr list \<Rightarrow> filemeta \<Rightarrow> 'k Context
     \<Rightarrow> (int \<times> filemeta \<times> 'k Context) option" where
  "write_blocks E [] buf_ptr created file c = Some (0, file, c)"
| "write_blocks E (a # as) buf_ptr created file c =
     (case heap c a of
        None \<Rightarrow> None
      | Some block \<Rightarrow>
          (let (err, c') = (if a \<in> set created then write_one E block buf_ptr c else (0, c));
               realSize' = (if a \<in> set created then s64 (realSize file + block_size block) else realSize file);
               created' = removeAll a created;
               file' = file\<lparr>realSize := realSize', blockList := blockList file @ [a]\<rparr>
           in if err \<noteq> 0 then Some (err, file', c')
              else write_blocks E as (drop 4096 buf_ptr) created' file' c'))"

definition xmp_write :: "'k os \<Rightarrow> string \<Rightarrow> byte list \<Rightarrow> int \<Rightarrow> 'k Context \<Rightarrow> (int \<times> 'k Context) option" where
  "xmp_write E path buf offset c =
     (let size = int (length buf) in
      if size mod 4096 \<noteq> 0 then Some (- EINVAL, c)
      else
        let num_blocks = s32 (size div 4096);
            blockHashes = map (\<lambda>i. sha512 E (block_at buf i)) [0..<nat num_blocks];
            (file, c1) = get_or_create_file path c
        in if offset \<noteq> logicalSize file then Some (- ENOTSUP, c1)
           else do {
             (c2, l) \<leftarrow> acquire_blocks blockHashes c1 no_locals;
             order \<leftarrow> blocks_to_lock E c2 (lockedBlocks l);
             c3 \<leftarrow> assign_offsets (my_created_blocks l) order c2;
             let (aligned, k4) = memalign E (kern c3);
             let c4 = c3\<lparr>kern := k4\<rparr>;
             (err, file', c5) \<leftarrow>
               (if \<not> aligned then Some (- ENOMEM, file, c4)
                else write_blocks E (newBlocksInfo l) buf (my_created_blocks l) file c4);
             let file'' =
               (if err = 0 \<and> u64 (offset + size) > u64 (logicalSize file')
                then file'\<lparr>logicalSize := s64 (offset + size)\<rparr> else file');
             Some (if err \<noteq> 0 then err else s32 size,
                   c5\<lparr>fileIndex := (fileIndex c5)(path \<mapsto> file'')\<rparr>)
           })"

lemmas xmp_write_exec = xmp_write_def Let_def get_or_create_file_def new_file_def no_locals_def
  acquire_block_def note_block_def new_block_def blocks_to_lock_def assign_offset_def write_one_def
  block_at_def s32_def s64_def u64_def

end
