(* ===== verification/Dedup_Write_Phases.thy ===== *)
theory Dedup_Write_Phases
  imports Dedup_Write
begin

text \<open>
  What each phase of \<^verbatim>\<open>xmp_write\<close> preserves and establishes.

  \<^item> \<open>acq_inv c0 c l hs\<close> relates the context before the lookup loop to the one after it has
    processed the digests \<open>hs\<close>: index and heap stay inverse to each other, every reference
    taken is counted, the new blocks are those the call created, the lock table holds every
    block of the call once.
  \<^item> \<open>assign_offsets_placed\<close>: the offset loop gives each new block a slot of its own.
  \<^item> \<open>write_blocks_total\<close>, \<open>write_blocks_content\<close>, \<open>write_blocks_ok\<close>: the I/O loop never
    touches freed memory whatever the system calls return, and if none fails every block of
    the call holds the bytes its digest names.
\<close>

section \<open>The lookup phase\<close>

text \<open>What has happened to context and locals after the digests \<open>hs\<close>, from \<open>c0\<close> on.\<close>

definition acq_frame :: "'k Context \<Rightarrow> 'k Context \<Rightarrow> bool" where
  "acq_frame c0 c \<longleftrightarrow> fileIndex c = fileIndex c0 \<and> freeList c = freeList c0 \<and>
     backend_fd c = backend_fd c0 \<and> next_free_offset c = next_free_offset c0 \<and> kern c = kern c0"

definition strip_ctr :: "blockmeta \<Rightarrow> blockmeta" where
  "strip_ctr b = b\<lparr>counter := 0\<rparr>"

definition acq_heap :: "'k Context \<Rightarrow> 'k Context \<Rightarrow> write_locals \<Rightarrow> bool" where
  "acq_heap c0 c l \<longleftrightarrow>
     (\<forall>a. heap c0 a \<noteq> None \<longrightarrow>
        map_option strip_ctr (heap c a) = map_option strip_ctr (heap c0 a)) \<and>
     set (my_created_blocks l) = dom (heap c) - dom (heap c0) \<and>
     set (my_created_blocks l) \<subseteq> set (newBlocksInfo l) \<and> distinct (my_created_blocks l)"

definition acq_refs :: "'k Context \<Rightarrow> 'k Context \<Rightarrow> write_locals \<Rightarrow> bool" where
  "acq_refs c0 c l \<longleftrightarrow>
     (\<forall>a. ctr (heap c) a = ctr (heap c0) a + int (count_list (newBlocksInfo l) a))"

definition has_id :: "'k Context \<Rightarrow> addr \<Rightarrow> hash \<Rightarrow> bool" where
  "has_id c a h \<longleftrightarrow> (\<exists>b. heap c a = Some b \<and> block_id b = h)"

lemma has_id_upd [simp]:
  "has_id (c\<lparr>kern := k\<rparr>) = has_id c" "has_id (c\<lparr>fileIndex := fi\<rparr>) = has_id c"
  by (simp_all add: has_id_def fun_eq_iff)

definition acq_ids :: "'k Context \<Rightarrow> write_locals \<Rightarrow> hash list \<Rightarrow> bool" where
  "acq_ids c l hs \<longleftrightarrow> list_all2 (has_id c) (newBlocksInfo l) hs"

definition acq_lock :: "'k Context \<Rightarrow> write_locals \<Rightarrow> bool" where
  "acq_lock c l \<longleftrightarrow> snd ` set (lockedBlocks l) = set (newBlocksInfo l) \<and>
     distinct (map snd (lockedBlocks l)) \<and> (\<forall>(h, a) \<in> set (lockedBlocks l). has_id c a h)"

definition acq_inv :: "'k Context \<Rightarrow> 'k Context \<Rightarrow> write_locals \<Rightarrow> hash list \<Rightarrow> bool" where
  "acq_inv c0 c l hs \<longleftrightarrow> index_ok c \<and> acq_frame c0 c \<and> acq_heap c0 c l \<and> acq_refs c0 c l \<and>
     acq_ids c l hs \<and> acq_lock c l"

lemmas acq_defs = acq_inv_def acq_frame_def acq_heap_def acq_refs_def acq_ids_def acq_lock_def

lemma acq_inv_start: "index_ok c \<Longrightarrow> acq_inv c c no_locals []"
  by (auto simp: acq_defs no_locals_def)

text \<open>Recording a live block keeps the facts about digests and locks, as long as the
  digests of all blocks stay.\<close>

lemma note_block_ids:
  assumes "acq_ids c l hs" and keep: "\<And>x h. has_id c x h \<Longrightarrow> has_id c' x h" and "has_id c' a h"
  shows "acq_ids c' (note_block a h l) (hs @ [h])"
proof -
  have "list_all2 (has_id c') (newBlocksInfo l) hs"
    using assms(1) keep unfolding acq_ids_def by (rule list_all2_mono)
  with assms(3) show ?thesis by (simp add: acq_ids_def note_block_def list_all2_appendI)
qed

lemma note_block_lock:
  assumes lk: "acq_lock c l" and ok: "index_ok c'"
    and keep: "\<And>x h. has_id c x h \<Longrightarrow> has_id c' x h" and a: "has_id c' a h"
  shows "acq_lock c' (note_block a h l)"
proof (cases "map_of (lockedBlocks l) h")
  case None
  have "a \<notin> snd ` set (lockedBlocks l)"
  proof
    assume "a \<in> snd ` set (lockedBlocks l)"
    then obtain h' where h': "(h', a) \<in> set (lockedBlocks l)" by auto
    with lk keep have "has_id c' a h'" by (auto simp: acq_lock_def)
    with a have "h' = h" by (auto simp: has_id_def)
    with None h' show False by (metis map_of_eq_None_iff image_eqI fst_conv)
  qed
  with None lk keep a show ?thesis by (auto simp: acq_lock_def note_block_def)
next
  case (Some a')
  then have "(h, a') \<in> set (lockedBlocks l)" by (rule map_of_SomeD)
  moreover from this lk keep have "has_id c' a' h" by (auto simp: acq_lock_def)
  with a ok have "a' = a" by (auto simp: has_id_def dest: index_ok_inj)
  ultimately have "a \<in> snd ` set (lockedBlocks l)" by force
  with Some lk keep show ?thesis by (auto simp: acq_lock_def note_block_def)
qed

lemma note_block_simps [simp]:
  "newBlocksInfo (note_block a h l) = newBlocksInfo l @ [a]"
  "my_created_blocks (note_block a h l) = my_created_blocks l"
  by (simp_all add: note_block_def)

lemma acq_ids_live: "acq_ids c l hs \<Longrightarrow> a \<in> set (newBlocksInfo l) \<Longrightarrow> a \<in> dom (heap c)"
  by (auto simp: acq_ids_def list_all2_conv_all_nth has_id_def in_set_conv_nth)

lemma acquire_new:
  assumes inv: "acq_inv c0 c l hs" and h: "blockIndex c h = None"
  shows "\<exists>c' l'. acquire_block h c l = Some (c', l') \<and> acq_inv c0 c' l' (hs @ [h])"
proof -
  let ?a = "next_addr c"
  let ?c = "c\<lparr>heap := (heap c)(?a \<mapsto> new_block h), next_addr := Suc ?a,
              blockIndex := (blockIndex c)(h \<mapsto> ?a)\<rparr>"
  let ?m = "l\<lparr>my_created_blocks := my_created_blocks l @ [?a]\<rparr>"
  let ?l = "note_block ?a h ?m"
  from inv have parts: "index_ok c" "acq_frame c0 c" "acq_heap c0 c l" "acq_refs c0 c l"
    "acq_ids c l hs" "acq_lock c l" by (simp_all add: acq_inv_def)
  have fresh: "heap c ?a = None" using parts(1) by (rule index_ok_fresh)
  have a0: "heap c0 ?a = None"
    using parts(3) fresh by (force simp: acq_heap_def)
  have ok': "index_ok ?c"
    unfolding index_ok_def
  proof (intro conjI allI impI)
    fix h' a'
    assume "blockIndex ?c h' = Some a'"
    then show "\<exists>b. heap ?c a' = Some b \<and> block_id b = h'"
      using index_okD1 [OF parts(1)] fresh by (fastforce simp: new_block_def split: if_splits)
  next
    fix a' b'
    assume b': "heap ?c a' = Some b'"
    show "blockIndex ?c (block_id b') = Some a'" "a' < next_addr ?c" "block_size b' = 4096"
      "0 < counter b'"
      using b' h index_okD2 [OF parts(1)] by (fastforce simp: new_block_def split: if_splits)+
  qed
  have keep: "has_id ?c x h'" if "has_id c x h'" for x h'
    using that fresh by (auto simp: has_id_def)
  have idh: "has_id ?c ?a h" by (simp add: has_id_def new_block_def)
  have notin: "?a \<notin> set (newBlocksInfo l)"
    using acq_ids_live [OF parts(5)] fresh by auto
  have "acq_frame c0 ?c" using parts(2) by (simp add: acq_frame_def)
  moreover have "acq_heap c0 ?c ?l"
    using parts(3) fresh a0 by (auto simp: acq_heap_def)
  moreover have "acq_refs c0 ?c ?l"
    using parts(4) fresh a0 notin
    by (auto simp: acq_refs_def new_block_def ctr_def count_list_0_iff)
  moreover have "acq_ids ?c ?l (hs @ [h])"
    by (rule note_block_ids [of c]) (use parts(5) keep idh in \<open>simp_all add: acq_ids_def\<close>)
  moreover have "acq_lock ?c ?l"
    by (rule note_block_lock [of c]) (use parts(6) ok' keep idh in \<open>simp_all add: acq_lock_def\<close>)
  ultimately have "acq_inv c0 ?c ?l (hs @ [h])" using ok' by (simp add: acq_inv_def)
  then show ?thesis using h by (simp add: acquire_block_def Let_def)
qed

lemma acquire_known:
  assumes inv: "acq_inv c0 c l hs" and h: "blockIndex c h = Some a"
    and bound: "\<forall>x. ctr (heap c0) x + int (length hs) + 1 < 2 ^ 31"
  shows "\<exists>c' l'. acquire_block h c l = Some (c', l') \<and> acq_inv c0 c' l' (hs @ [h])"
proof -
  from inv have parts: "index_ok c" "acq_frame c0 c" "acq_heap c0 c l" "acq_refs c0 c l"
    "acq_ids c l hs" "acq_lock c l" by (simp_all add: acq_inv_def)
  obtain b where b: "heap c a = Some b" "block_id b = h" using index_okD1 [OF parts(1) h] by auto
  have "count_list (newBlocksInfo l) a \<le> length (newBlocksInfo l)" by (rule count_le_length)
  moreover have "length (newBlocksInfo l) = length hs"
    using parts(5) by (simp add: acq_ids_def list_all2_lengthD)
  moreover have cb: "counter b = ctr (heap c0) a + int (count_list (newBlocksInfo l) a)"
    using parts(4) b(1) by (metis acq_refs_def ctr_Some)
  moreover have "0 < counter b" using index_okD2(4) [OF parts(1) b(1)] .
  moreover have "ctr (heap c0) a + int (length hs) + 1 < 2 ^ 31" using bound by blast
  ultimately have wrap: "s32 (counter b + 1) = counter b + 1" by (intro s32_id) linarith+
  let ?b = "b\<lparr>counter := counter b + 1\<rparr>"
  let ?c = "c\<lparr>heap := (heap c)(a \<mapsto> ?b)\<rparr>"
  let ?l = "note_block a h l"
  have keep: "has_id ?c x h'" if "has_id c x h'" for x h'
    using that b by (auto simp: has_id_def)
  have idh: "has_id ?c a h" using b by (simp add: has_id_def)
  have ok': "index_ok ?c"
    unfolding index_ok_def
  proof (intro conjI allI impI)
    fix h' a'
    assume "blockIndex ?c h' = Some a'"
    then show "\<exists>b. heap ?c a' = Some b \<and> block_id b = h'"
      using index_okD1 [OF parts(1)] b by fastforce
  next
    fix a' b'
    assume b': "heap ?c a' = Some b'"
    show "blockIndex ?c (block_id b') = Some a'" "a' < next_addr ?c" "block_size b' = 4096"
      "0 < counter b'"
      using b' h b index_okD2 [OF parts(1)] by (fastforce split: if_splits)+
  qed
  have "acq_frame c0 ?c" using parts(2) by (simp add: acq_frame_def)
  moreover have "acq_heap c0 ?c ?l"
    unfolding acq_heap_def
  proof (intro conjI allI impI)
    fix x
    assume "heap c0 x \<noteq> None"
    then have "map_option strip_ctr (heap c x) = map_option strip_ctr (heap c0 x)"
      using parts(3) by (simp add: acq_heap_def)
    then show "map_option strip_ctr (heap ?c x) = map_option strip_ctr (heap c0 x)"
      using b by (auto simp: strip_ctr_def)
  next
    show "set (my_created_blocks ?l) = dom (heap ?c) - dom (heap c0)"
      using parts(3) b by (auto simp: acq_heap_def)
    show "set (my_created_blocks ?l) \<subseteq> set (newBlocksInfo ?l)"
      using parts(3) by (auto simp: acq_heap_def)
    show "distinct (my_created_blocks ?l)" using parts(3) by (simp add: acq_heap_def)
  qed
  moreover have "acq_refs c0 ?c ?l"
    using parts(4) b cb by (auto simp: acq_refs_def)
  moreover have "acq_ids ?c ?l (hs @ [h])" using parts(5) keep idh by (rule note_block_ids)
  moreover have "acq_lock ?c ?l" using parts(6) ok' keep idh by (rule note_block_lock)
  ultimately have "acq_inv c0 ?c ?l (hs @ [h])" using ok' by (simp add: acq_inv_def)
  then show ?thesis using h b wrap by (simp add: acquire_block_def)
qed

lemma acquire_blocks_inv:
  assumes "acq_inv c0 c l done" and "\<forall>x. ctr (heap c0) x + int (length done + length hs) < 2 ^ 31"
  shows "\<exists>c' l'. acquire_blocks hs c l = Some (c', l') \<and> acq_inv c0 c' l' (done @ hs)"
  using assms
proof (induction hs arbitrary: c l "done")
  case Nil
  then show ?case by auto
next
  case (Cons h hs)
  have "\<exists>c' l'. acquire_block h c l = Some (c', l') \<and> acq_inv c0 c' l' (done @ [h])"
  proof (cases "blockIndex c h")
    case None
    with Cons.prems(1) show ?thesis by (rule acquire_new)
  next
    case (Some a)
    have "\<forall>x. ctr (heap c0) x + int (length done) + 1 < 2 ^ 31"
    proof
      fix x
      have "ctr (heap c0) x + int (length done + length (h # hs)) < 2 ^ 31" using Cons.prems(2) by blast
      then show "ctr (heap c0) x + int (length done) + 1 < 2 ^ 31" by simp
    qed
    with Cons.prems(1) Some show ?thesis by (rule acquire_known)
  qed
  then obtain c' l' where s: "acquire_block h c l = Some (c', l')" "acq_inv c0 c' l' (done @ [h])"
    by blast
  have "\<forall>x. ctr (heap c0) x + int (length (done @ [h]) + length hs) < 2 ^ 31"
    using Cons.prems(2) by (simp add: algebra_simps)
  from Cons.IH [OF s(2) this] s(1) show ?case by simp
qed

section \<open>The locking order\<close>

lemma blocks_to_lock_order:
  assumes E: "os_ok E fd view" and lk: "acq_lock c l"
  shows "\<exists>order. blocks_to_lock E c (lockedBlocks l) = Some order \<and>
           set order = set (newBlocksInfo l) \<and> distinct order \<and>
           sorted (map (\<lambda>a. take 64 (block_id (the (heap c a)))) order)"
proof -
  let ?vals = "iter_order E (map snd (lockedBlocks l))"
  have ms: "mset ?vals = mset (map snd (lockedBlocks l))" using E by (rule os_ok_iter)
  then have set: "set ?vals = set (newBlocksInfo l)"
    using lk by (metis acq_lock_def list.set_map mset_eq_setD)
  have "distinct ?vals" using ms lk by (metis acq_lock_def mset_eq_imp_distinct_iff)
  moreover have "list_all (\<lambda>a. heap c a \<noteq> None) ?vals"
  proof (unfold list_all_iff, rule ballI)
    fix a assume "a \<in> set ?vals"
    then have "a \<in> snd ` set (lockedBlocks l)" using set lk by (simp add: acq_lock_def)
    then show "heap c a \<noteq> None" using lk by (fastforce simp: acq_lock_def has_id_def)
  qed
  ultimately show ?thesis using set by (simp add: blocks_to_lock_def Let_def)
qed

section \<open>The offset phase\<close>

text \<open>\<open>placed c S\<close>: the blocks of \<open>S\<close> have their slots; the other live ones wait for
  theirs. \<open>same_meta\<close>: two heaps agree up to offsets.\<close>

definition off_frame :: "'k Context \<Rightarrow> 'k Context \<Rightarrow> bool" where
  "off_frame c0 c \<longleftrightarrow> fileIndex c = fileIndex c0 \<and> blockIndex c = blockIndex c0 \<and>
     backend_fd c = backend_fd c0 \<and> next_addr c = next_addr c0 \<and> kern c = kern c0 \<and>
     (\<forall>a. map_option (\<lambda>b. b\<lparr>block_offset := 0\<rparr>) (heap c a) =
          map_option (\<lambda>b. b\<lparr>block_offset := 0\<rparr>) (heap c0 a))"

lemma off_frame_refl [simp]: "off_frame c c"
  by (simp add: off_frame_def)

lemma off_frame_trans: "off_frame a b \<Longrightarrow> off_frame b c \<Longrightarrow> off_frame a c"
  by (simp add: off_frame_def)

lemma off_frame_Some:
  assumes "off_frame c0 c" and "heap c a = Some b"
  shows "\<exists>b0. heap c0 a = Some b0 \<and> block_id b = block_id b0 \<and> block_size b = block_size b0 \<and>
           counter b = counter b0"
proof -
  have eq: "map_option (\<lambda>b. b\<lparr>block_offset := 0\<rparr>) (heap c0 a) = Some (b\<lparr>block_offset := 0\<rparr>)"
    using assms by (metis off_frame_def option.simps(9))
  then obtain b0 where "heap c0 a = Some b0" "b0\<lparr>block_offset := 0\<rparr> = b\<lparr>block_offset := 0\<rparr>" by auto
  moreover from this(2) have "block_id b = block_id b0" "block_size b = block_size b0"
    "counter b = counter b0"
    by (metis blockmeta.select_convs(2-4) blockmeta.surjective blockmeta.update_convs(1))+
  ultimately show ?thesis by blast
qed

lemma off_frame_sym: "off_frame a b \<Longrightarrow> off_frame b a"
  by (simp add: off_frame_def)

lemma off_frame_dom: "off_frame c0 c \<Longrightarrow> dom (heap c) = dom (heap c0)"
  using off_frame_Some off_frame_sym by (metis (no_types, lifting) domIff not_Some_eq subsetI subset_antisym domI)

lemma off_frame_ctr: "off_frame c0 c \<Longrightarrow> ctr (heap c) = ctr (heap c0)"
proof
  fix a assume fr: "off_frame c0 c"
  show "ctr (heap c) a = ctr (heap c0) a"
  proof (cases "heap c a")
    case None
    then have "heap c0 a = None" using off_frame_dom [OF fr] by blast
    with None show ?thesis by (simp add: ctr_def)
  next
    case (Some b)
    with off_frame_Some [OF fr] show ?thesis by fastforce
  qed
qed

lemma off_frame_index_ok:
  assumes fr: "off_frame c0 c" and ok: "index_ok c0"
  shows "index_ok c"
  unfolding index_ok_def
proof (intro conjI allI impI)
  fix h a
  assume "blockIndex c h = Some a"
  then have "blockIndex c0 h = Some a" using fr by (simp add: off_frame_def)
  then obtain b0 where "heap c0 a = Some b0" "block_id b0 = h" using index_okD1 [OF ok] by blast
  then show "\<exists>b. heap c a = Some b \<and> block_id b = h"
    using off_frame_Some [OF off_frame_sym [OF fr]] by fastforce
next
  fix a b
  assume b: "heap c a = Some b"
  then obtain b0 where b0: "heap c0 a = Some b0" "block_id b = block_id b0"
    "block_size b = block_size b0" "counter b = counter b0"
    using off_frame_Some [OF fr] by blast
  show "blockIndex c (block_id b) = Some a" "a < next_addr c" "block_size b = 4096" "0 < counter b"
    using index_okD2 [OF ok b0(1)] b0 fr by (simp_all add: off_frame_def)
qed

lemma layout_ok_take_free:
  assumes lay: "layout_ok c S" and "a \<notin> S" and b: "heap c a = Some b" and ne: "freeList c \<noteq> []"
  shows "layout_ok (c\<lparr>heap := (heap c)(a \<mapsto> b\<lparr>block_offset := last (freeList c)\<rparr>),
                       freeList := butlast (freeList c)\<rparr>) (insert a S)"
proof -
  let ?c = "c\<lparr>heap := (heap c)(a \<mapsto> b\<lparr>block_offset := last (freeList c)\<rparr>),
              freeList := butlast (freeList c)\<rparr>"
  have old: "boff ?c x = boff c x" if "x \<in> S" for x
    using that \<open>a \<notin> S\<close> by (auto simp: boff_def)
  have new: "boff ?c a = last (freeList c)" by (simp add: boff_def)
  have img: "boff ?c ` insert a S = insert (last (freeList c)) (boff c ` S)"
    using old new by (auto intro!: image_eqI)
  have dist: "distinct (freeList c)" using lay by (simp add: layout_ok_def)
  have split: "set (freeList c) = insert (last (freeList c)) (set (butlast (freeList c)))"
    using ne by (rule butlast_last_split)
  have lastin: "last (freeList c) \<in> set (freeList c)" using ne by simp
  have notlast: "last (freeList c) \<notin> set (butlast (freeList c))"
    using dist ne by (rule distinct_butlast_last)
  have lnew: "last (freeList c) \<notin> boff c ` S" using lay lastin by (auto simp: layout_ok_def)
  have "inj_on (boff c) S" using lay by (simp add: layout_ok_def)
  then have "inj_on (boff ?c) S" using inj_on_cong [of S "boff ?c" "boff c"] old by blast
  moreover have "boff ?c a \<notin> boff ?c ` (S - {a})"
  proof -
    have "boff ?c ` (S - {a}) = boff c ` (S - {a})" by (rule image_cong) (simp_all add: old)
    moreover have "last (freeList c) \<notin> boff c ` (S - {a})" using lnew by blast
    ultimately show ?thesis by (simp add: new)
  qed
  ultimately have inj: "inj_on (boff ?c) (insert a S)" unfolding inj_on_insert by (intro conjI)
  have slot: "slot_ok ?c off = slot_ok c off" for off by (simp add: slot_ok_def)
  have slots: "slot_ok c off" if "off \<in> boff c ` S \<union> set (freeList c)" for off
    using lay that by (simp add: layout_ok_def)
  have disj: "boff c ` S \<inter> set (freeList c) = {}" using lay by (simp add: layout_ok_def)
  have nfo: "4096 dvd next_free_offset c" "0 \<le> next_free_offset c"
    using lay by (simp_all add: layout_ok_def)
  show ?thesis
    unfolding layout_ok_def img slot
  proof (intro conjI ballI)
    show "insert (last (freeList c)) (boff c ` S) \<inter> set (freeList ?c) = {}"
      using disj notlast split by auto
    show "slot_ok c off" if "off \<in> insert (last (freeList c)) (boff c ` S) \<union> set (freeList ?c)" for off
      using that by (intro slots) (use lastin split in auto)
  qed (use inj nfo dist in \<open>simp_all add: distinct_butlast\<close>)
qed

lemma layout_ok_append:
  assumes lay: "layout_ok c S" and "a \<notin> S" and b: "heap c a = Some b"
    and nfo: "n = next_free_offset c + 4096"
  shows "layout_ok (c\<lparr>heap := (heap c)(a \<mapsto> b\<lparr>block_offset := next_free_offset c\<rparr>),
                       next_free_offset := n\<rparr>) (insert a S)"
proof -
  let ?o = "next_free_offset c"
  let ?c = "c\<lparr>heap := (heap c)(a \<mapsto> b\<lparr>block_offset := ?o\<rparr>), next_free_offset := n\<rparr>"
  have old: "boff ?c x = boff c x" if "x \<in> S" for x
    using that \<open>a \<notin> S\<close> by (auto simp: boff_def)
  have new: "boff ?c a = ?o" by (simp add: boff_def)
  have img: "boff ?c ` insert a S = insert ?o (boff c ` S)"
    using old new by (auto intro!: image_eqI)
  have slots: "slot_ok c off" if "off \<in> boff c ` S \<union> set (freeList c)" for off
    using lay that by (simp add: layout_ok_def)
  then have below: "off + 4096 \<le> ?o" if "off \<in> boff c ` S \<union> set (freeList c)" for off
    using that by (auto simp: slot_ok_def)
  have onew: "?o \<notin> boff c ` S \<union> set (freeList c)" using below by fastforce
  have "inj_on (boff c) S" using lay by (simp add: layout_ok_def)
  then have "inj_on (boff ?c) S" using inj_on_cong [of S "boff ?c" "boff c"] old by blast
  moreover have "boff ?c a \<notin> boff ?c ` (S - {a})"
  proof -
    have "boff ?c ` (S - {a}) = boff c ` (S - {a})" by (rule image_cong) (simp_all add: old)
    moreover have "?o \<notin> boff c ` (S - {a})" using onew by blast
    ultimately show ?thesis by (simp add: new)
  qed
  ultimately have inj: "inj_on (boff ?c) (insert a S)" unfolding inj_on_insert by (intro conjI)
  have slot: "slot_ok ?c off" if "off \<in> insert ?o (boff c ` S) \<union> set (freeList c)" for off
  proof (cases "off = ?o")
    case True
    with lay nfo show ?thesis by (simp add: slot_ok_def layout_ok_def)
  next
    case False
    with that slots have "slot_ok c off" by blast
    with nfo show ?thesis by (simp add: slot_ok_def)
  qed
  have dvd: "4096 dvd n" using lay nfo by (simp add: layout_ok_def)
  have disj: "boff c ` S \<inter> set (freeList c) = {}" "distinct (freeList c)" "0 \<le> next_free_offset c"
    using lay by (simp_all add: layout_ok_def)
  show ?thesis
    unfolding layout_ok_def img
  proof (intro conjI ballI)
    show "insert ?o (boff c ` S) \<inter> set (freeList ?c) = {}" using disj(1) onew by auto
    show "slot_ok ?c off" if "off \<in> insert ?o (boff c ` S) \<union> set (freeList ?c)" for off
      using that by (intro slot) simp
  qed (use inj dvd disj nfo in simp_all)
qed

text \<open>The bytes of the data file that are not free slots.\<close>

definition used_bytes :: "'k Context \<Rightarrow> int" where
  "used_bytes c = next_free_offset c - 4096 * int (length (freeList c))"

lemma assign_offset_placed:
  assumes lay: "layout_ok c S" and a: "a \<notin> S" "a \<in> set created" and b: "heap c a = Some b"
    and sz: "block_size b = 4096" and room: "next_free_offset c + 4096 < 2 ^ 63"
  shows "\<exists>c'. assign_offset created a c = Some c' \<and> layout_ok c' (insert a S) \<and> off_frame c c' \<and>
           (\<forall>x. x \<noteq> a \<longrightarrow> heap c' x = heap c x) \<and> next_free_offset c' \<le> next_free_offset c + 4096 \<and>
           used_bytes c' = used_bytes c + 4096"
proof (cases "freeList c = []")
  case False
  then have "0 < length (freeList c)" by simp
  then show ?thesis
    using layout_ok_take_free [OF lay a(1) b False] a(2) b
    by (auto simp: assign_offset_def off_frame_def used_bytes_def int_ops(6))
next
  case True
  have "s64 (next_free_offset c + block_size b) = next_free_offset c + 4096"
    using lay sz room by (simp add: s64_id layout_ok_def)
  then show ?thesis
    using layout_ok_append [OF lay a(1) b refl] a(2) b True
    by (auto simp: assign_offset_def off_frame_def used_bytes_def)
qed

lemma assign_offsets_placed:
  assumes "layout_ok c S" and "S \<inter> set as \<inter> set created = {}" and "distinct as"
    and "\<And>a. a \<in> set as \<Longrightarrow> \<exists>b. heap c a = Some b \<and> block_size b = 4096"
    and "next_free_offset c + 4096 * int (length as) < 2 ^ 63"
  shows "\<exists>c'. assign_offsets created as c = Some c' \<and> layout_ok c' (S \<union> (set as \<inter> set created)) \<and>
           off_frame c c' \<and> (\<forall>x. x \<notin> set as \<inter> set created \<longrightarrow> heap c' x = heap c x) \<and>
           used_bytes c' = used_bytes c + 4096 * int (card (set as \<inter> set created))"
  using assms
proof (induction as arbitrary: c S)
  case Nil
  then show ?case by simp
next
  case (Cons a as)
  have room: "next_free_offset c + 4096 < 2 ^ 63" using Cons.prems(5) by simp
  have "\<exists>c1. assign_offset created a c = Some c1 \<and> layout_ok c1 (S \<union> ({a} \<inter> set created)) \<and>
          off_frame c c1 \<and> (\<forall>x. x \<notin> {a} \<inter> set created \<longrightarrow> heap c1 x = heap c x) \<and>
          next_free_offset c1 \<le> next_free_offset c + 4096 \<and>
          used_bytes c1 = used_bytes c + 4096 * int (card ({a} \<inter> set created))"
  proof (cases "a \<in> set created")
    case True
    obtain b where b: "heap c a = Some b" "block_size b = 4096" using Cons.prems(4) by force
    have "a \<notin> S" using Cons.prems(2) True by auto
    from assign_offset_placed [OF Cons.prems(1) this True b room] True show ?thesis by auto
  next
    case False
    with Cons.prems(1) show ?thesis by (simp add: assign_offset_def)
  qed
  then obtain c1 where c1: "assign_offset created a c = Some c1" "layout_ok c1 (S \<union> ({a} \<inter> set created))"
    "off_frame c c1" "\<forall>x. x \<notin> {a} \<inter> set created \<longrightarrow> heap c1 x = heap c x"
    "next_free_offset c1 \<le> next_free_offset c + 4096"
    "used_bytes c1 = used_bytes c + 4096 * int (card ({a} \<inter> set created))" by blast
  have "\<exists>c'. assign_offsets created as c1 = Some c' \<and>
          layout_ok c' (S \<union> ({a} \<inter> set created) \<union> (set as \<inter> set created)) \<and> off_frame c1 c' \<and>
          (\<forall>x. x \<notin> set as \<inter> set created \<longrightarrow> heap c' x = heap c1 x) \<and>
          used_bytes c' = used_bytes c1 + 4096 * int (card (set as \<inter> set created))"
  proof (rule Cons.IH [OF c1(2)])
    show "(S \<union> {a} \<inter> set created) \<inter> set as \<inter> set created = {}" using Cons.prems(2,3) by auto
    show "distinct as" using Cons.prems(3) by simp
    show "\<exists>b. heap c1 x = Some b \<and> block_size b = 4096" if "x \<in> set as" for x
    proof -
      have "x \<noteq> a" using that Cons.prems(3) by auto
      then show ?thesis using c1(4) Cons.prems(4) that by auto
    qed
    show "next_free_offset c1 + 4096 * int (length as) < 2 ^ 63" using c1(5) Cons.prems(5) by simp
  qed
  then obtain c' where c': "assign_offsets created as c1 = Some c'"
    "layout_ok c' (S \<union> ({a} \<inter> set created) \<union> (set as \<inter> set created))" "off_frame c1 c'"
    "\<forall>x. x \<notin> set as \<inter> set created \<longrightarrow> heap c' x = heap c1 x"
    "used_bytes c' = used_bytes c1 + 4096 * int (card (set as \<inter> set created))" by blast
  have "card (set (a # as) \<inter> set created) = card ({a} \<inter> set created) + card (set as \<inter> set created)"
    using Cons.prems(3) by (subst card_Un_disjoint [symmetric]) (auto intro: arg_cong [of _ _ card])
  with c1(6) c'(5) have "used_bytes c' = used_bytes c + 4096 * int (card (set (a # as) \<inter> set created))"
    by simp
  moreover have "S \<union> ({a} \<inter> set created) \<union> (set as \<inter> set created) = S \<union> (set (a # as) \<inter> set created)" by auto
  ultimately show ?case using c1 c' by (auto intro: off_frame_trans)
qed

section \<open>The I/O phase\<close>

lemma write_one_frame:
  "\<exists>err k'. write_one E b buf c = (err, c\<lparr>kern := k'\<rparr>)"
  by (auto simp: write_one_def split: prod.splits sysres.splits intro: exI [of _ "kern c"])

lemma write_step_frame:
  "\<exists>err k'. (if P then write_one E b buf c else (0, c)) = (err, c\<lparr>kern := k'\<rparr>)"
proof (cases P)
  case True
  then show ?thesis using write_one_frame by simp
next
  case False
  have "(0, c) = (0, c\<lparr>kern := kern c\<rparr>)" by simp
  with False show ?thesis by (metis (full_types))
qed

lemma write_one_errno:
  "os_ok E (backend_fd c) view \<Longrightarrow> write_one E b buf c = (err, c') \<Longrightarrow> err \<le> 0"
  by (auto simp: write_one_def split: prod.splits sysres.splits if_splits dest: os_ok_errno(1))

text \<open>The loop never faults on live blocks, changes nothing but the kernel's state and the
  fm's list and real size, and appends all the blocks unless a write fails.\<close>

lemma write_blocks_total:
  assumes "os_ok E (backend_fd c) view" and "\<forall>a\<in>set as. heap c a \<noteq> None"
  shows "\<exists>err fm' k' m. write_blocks E as buf cr fm c = Some (err, fm', c\<lparr>kern := k'\<rparr>) \<and> err \<le> 0 \<and>
     blockList fm' = blockList fm @ take m as \<and> logicalSize fm' = logicalSize fm \<and>
     file_id fm' = file_id fm \<and> (err = 0 \<longrightarrow> take m as = as)"
  using assms
proof (induction as arbitrary: buf cr fm c)
  case Nil
  show ?case by (auto intro!: exI [of _ "kern c"])
next
  case (Cons a as)
  obtain b where b: "heap c a = Some b" using Cons.prems(2) by auto
  define step where "step = (if a \<in> set cr then write_one E b buf c else (0, c))"
  obtain err k1 where st: "step = (err, c\<lparr>kern := k1\<rparr>)"
    using write_step_frame [of "a \<in> set cr" E b buf c] by (auto simp: step_def)
  have neg: "err \<le> 0"
    using st Cons.prems(1) by (auto simp: step_def split: if_splits dest: write_one_errno)
  define rs where "rs = (if a \<in> set cr then s64 (realSize fm + block_size b) else realSize fm)"
  define f1 where "f1 = fm\<lparr>realSize := rs, blockList := blockList fm @ [a]\<rparr>"
  have unf: "write_blocks E (a # as) buf cr fm c =
      (if err \<noteq> 0 then Some (err, f1, c\<lparr>kern := k1\<rparr>)
       else write_blocks E as (drop 4096 buf) (removeAll a cr) f1 (c\<lparr>kern := k1\<rparr>))"
    using b st by (simp add: step_def [symmetric] rs_def [symmetric] f1_def Let_def)
  have f1: "blockList f1 = blockList fm @ [a]" "logicalSize f1 = logicalSize fm" "file_id f1 = file_id fm"
    by (simp_all add: f1_def)
  show ?case
  proof (cases "err = 0")
    case False
    with neg f1 show ?thesis unfolding unf by (auto intro!: exI [of _ "Suc 0"])
  next
    case True
    have "\<exists>err fm' k' m. write_blocks E as (drop 4096 buf) (removeAll a cr) f1 (c\<lparr>kern := k1\<rparr>)
        = Some (err, fm', c\<lparr>kern := k1\<rparr>\<lparr>kern := k'\<rparr>) \<and> err \<le> 0 \<and>
       blockList fm' = blockList f1 @ take m as \<and> logicalSize fm' = logicalSize f1 \<and>
       file_id fm' = file_id f1 \<and> (err = 0 \<longrightarrow> take m as = as)"
      using Cons.prems by (intro Cons.IH) auto
    then obtain err' fm' k' m where r:
      "write_blocks E as (drop 4096 buf) (removeAll a cr) f1 (c\<lparr>kern := k1\<rparr>) = Some (err', fm', c\<lparr>kern := k'\<rparr>)"
      "err' \<le> 0" "blockList fm' = blockList f1 @ take m as" "logicalSize fm' = logicalSize f1"
      "file_id fm' = file_id f1" "err' = 0 \<longrightarrow> take m as = as" by auto
    show ?thesis
      unfolding unf using True r f1
      by (intro exI [of _ err'] exI [of _ fm'] exI [of _ k'] exI [of _ "Suc m"]) simp
  qed
qed

text \<open>When no write fails, every block of the list holds what its digest says, and a
  block that was good before keeps its bytes.\<close>

lemma write_blocks_content:
  assumes E: "io_ok E (backend_fd c) view" and fd: "backend_fd c \<noteq> -1"
    and "layout_ok c (dom (heap c))" and "index_ok c"
    and "content_ok E view c W" and "W \<subseteq> dom (heap c)" and "W \<inter> set cr = {}"
    and "list_all2 (has_id c) as (map (sha512 E) (blocks_of buf))"
    and "write_blocks E as buf cr fm c = Some (0, fm', c')"
  shows "content_ok E view c' (W \<union> set cr \<inter> set as) \<and>
     (\<forall>x\<in>W. block_data view c' x = block_data view c x) \<and>
     (\<forall>x\<in>set cr \<inter> set as. block_data view c' x \<in> set (blocks_of buf))"
  using assms
proof (induction as arbitrary: buf cr fm c W)
  case Nil
  then show ?case by auto
next
  case (Cons a as)
  obtain b where b: "heap c a = Some b" using Cons.prems(8) by (auto simp: list_all2_Cons1 has_id_def)
  have "length (blocks_of buf) \<noteq> 0" using Cons.prems(8) by (auto dest: list_all2_lengthD)
  then have len: "4096 \<le> length buf" by (simp add: div_eq_0_iff)
  then have chunks: "blocks_of buf = take 4096 buf # blocks_of (drop 4096 buf)" by (rule blocks_of_step)
  have "has_id c a (sha512 E (take 4096 buf))"
    and tl: "list_all2 (has_id c) as (map (sha512 E) (blocks_of (drop 4096 buf)))"
    using Cons.prems(8) by (simp_all add: chunks)
  with b have ida: "block_id b = sha512 E (take 4096 buf)" by (simp add: has_id_def)
  have bs: "block_size b = 4096" using Cons.prems(4) b by (rule index_okD2(3))
  define f1 where "f1 = fm\<lparr>realSize := if a \<in> set cr then s64 (realSize fm + block_size b) else realSize fm,
    blockList := blockList fm @ [a]\<rparr>"
  show ?case
  proof (cases "a \<in> set cr")
    case False
    then have "removeAll a cr = cr" by simp
    with Cons.prems(9) b False
    have run: "write_blocks E as (drop 4096 buf) cr f1 c = Some (0, fm', c')" by (simp add: f1_def Let_def)
    from Cons.IH [OF Cons.prems(1-7) tl run] False show ?thesis by (auto simp: chunks)
  next
    case True
    obtain n k1 where w: "sys_pwrite E (backend_fd c) (take 4096 buf) (block_offset b) (kern c) = (SysOk n, k1)"
      and run: "write_blocks E as (drop 4096 buf) (removeAll a cr) f1 (c\<lparr>kern := k1\<rparr>) = Some (0, fm', c')"
      using Cons.prems(2,9) b True bs os_ok_errno(1) [OF io_ok_os [OF Cons.prems(1)]]
      by (fastforce simp: f1_def Let_def write_one_def split: prod.splits sysres.splits if_splits)
    let ?c = "c\<lparr>kern := k1\<rparr>"
    have l4: "length (take 4096 buf) = 4096" using len by simp
    have va: "view k1 (block_offset b) = Some (take 4096 buf)"
      using Cons.prems(1) l4 w by (rule io_ok_pwrite)
    have vx: "view k1 (block_offset bx) = view (kern c) (block_offset bx)"
      if "heap c x = Some bx" "x \<noteq> a" for x bx
    proof -
      have "4096 \<le> \<bar>boff c x - boff c a\<bar>"
        using that b by (intro layout_ok_apart [OF Cons.prems(3)]) auto
      then have "4096 \<le> \<bar>block_offset bx - block_offset b\<bar>" using that b by simp
      from os_ok_pwrite_other [OF io_ok_os [OF Cons.prems(1)] l4 this, of "kern c"] w show ?thesis by simp
    qed
    have aW: "a \<notin> W" using True Cons.prems(7) by auto
    have new: "block_data view ?c a = take 4096 buf" using b va by (simp add: block_data_def boff_def)
    have old: "block_data view ?c x = block_data view c x" if x: "x \<in> W" for x
    proof -
      obtain bx where "heap c x = Some bx" using x Cons.prems(6) by auto
      moreover have "x \<noteq> a" using x aW by auto
      ultimately show ?thesis using vx [of x bx] by (simp add: block_data_def boff_def)
    qed
    have cont: "content_ok E view ?c (insert a W)"
      using Cons.prems(5) b va l4 ida aW vx by (fastforce simp: content_ok_def)
    have "content_ok E view c' (insert a W \<union> set (removeAll a cr) \<inter> set as) \<and>
       (\<forall>x\<in>insert a W. block_data view c' x = block_data view ?c x) \<and>
       (\<forall>x\<in>set (removeAll a cr) \<inter> set as. block_data view c' x \<in> set (blocks_of (drop 4096 buf)))"
    proof (rule Cons.IH [OF _ _ _ _ cont _ _ _ run])
      show "layout_ok ?c (dom (heap ?c))" using Cons.prems(3) by simp
      show "index_ok ?c" using Cons.prems(4) by simp
      show "list_all2 (has_id ?c) as (map (sha512 E) (blocks_of (drop 4096 buf)))"
        using tl by simp
    qed (use Cons.prems b in auto)
    moreover have "insert a W \<union> set (removeAll a cr) \<inter> set as = W \<union> set cr \<inter> set (a # as)"
      using True by auto
    ultimately show ?thesis using old new by (auto simp: chunks)
  qed
qed

lemma write_blocks_ok:
  assumes "\<forall>a\<in>set as. \<exists>b. heap c a = Some b \<and> block_size b = 4096" and "length buf = 4096 * length as"
    and "\<forall>b off k. length b = 4096 \<longrightarrow> (\<exists>n. fst (sys_pwrite E (backend_fd c) b off k) = SysOk n)"
  shows "\<exists>fm' c'. write_blocks E as buf cr fm c = Some (0, fm', c')"
  using assms
proof (induction as arbitrary: buf cr fm c)
  case (Cons a as)
  obtain b where b: "heap c a = Some b" "block_size b = 4096" using Cons.prems(1) by auto
  have "length (take (nat (block_size b)) buf) = 4096" using b Cons.prems(2) by simp
  then obtain n where "fst (sys_pwrite E (backend_fd c) (take (nat (block_size b)) buf) (block_offset b) (kern c)) = SysOk n"
    using Cons.prems(3) by blast
  then have "fst (if a \<in> set cr then write_one E b buf c else (0, c)) = 0"
    by (cases "sys_pwrite E (backend_fd c) (take (nat (block_size b)) buf) (block_offset b) (kern c)")
       (auto simp: write_one_def)
  then obtain k1 where "(if a \<in> set cr then write_one E b buf c else (0, c)) = (0, c\<lparr>kern := k1\<rparr>)"
    using write_step_frame [of "a \<in> set cr" E b buf c] by force
  moreover have "\<exists>fm' c'. write_blocks E as (drop 4096 buf) cr' f (c\<lparr>kern := k1\<rparr>) = Some (0, fm', c')" for cr' f
    using Cons.prems by (intro Cons.IH) auto
  ultimately show ?case using b by (simp add: Let_def)
qed simp

end
