(* ===== verification/Demo_OS.thy ===== *)
theory Demo_OS
  imports Store_State
begin

text \<open>
  A concrete instance of the external functions, on which the witnesses of the properties
  are evaluated: a data file of 4096-byte blocks, a number of writes after which the device
  reports \<^verbatim>\<open>EIO\<close>, and for the digest the first 64 bytes of the block.
\<close>

record demo_kernel =
  dk_view :: "int \<Rightarrow> byte list option"
  dk_left :: nat

definition demo_pwrite :: "int \<Rightarrow> byte list \<Rightarrow> int \<Rightarrow> demo_kernel \<Rightarrow> nat sysres \<times> demo_kernel" where
  "demo_pwrite fd b off k =
     (if dk_left k = 0 then (SysErr 5, k)
      else (SysOk (length b),
            k\<lparr>dk_view := (\<lambda>p. if p = off then Some b else if \<bar>p - off\<bar> < 4096 then None else dk_view k p),
              dk_left := dk_left k - 1\<rparr>))"

definition demo_pread :: "int \<Rightarrow> nat \<Rightarrow> int \<Rightarrow> demo_kernel \<Rightarrow> byte list sysres \<times> demo_kernel" where
  "demo_pread fd n off k =
     (case dk_view k off of Some d \<Rightarrow> (SysOk (take n d), k) | None \<Rightarrow> (SysOk (replicate n 0), k))"

definition demo_os :: "demo_kernel os" where
  "demo_os = \<lparr>sha512 = (\<lambda>b. take 64 (b @ replicate 64 0)), iter_order = (\<lambda>xs. xs),
     memalign = (\<lambda>k. (True, k)), uninit = (\<lambda>k. replicate 4096 0), sys_pread = demo_pread, sys_pwrite = demo_pwrite,
     sys_unlink = (\<lambda>p k. (SysOk (), k))\<rparr>"

text \<open>The same device with writes that never fail.\<close>

definition steady_os :: "demo_kernel os" where
  "steady_os = demo_os\<lparr>sys_pwrite := (\<lambda>fd b off k. demo_pwrite fd b off (k\<lparr>dk_left := Suc (dk_left k)\<rparr>))\<rparr>"

definition demo_disk :: "nat \<Rightarrow> demo_kernel" where
  "demo_disk n = \<lparr>dk_view = Map.empty, dk_left = n\<rparr>"

lemma demo_os_ok: "os_ok demo_os fd dk_view"
  by (auto simp: os_ok_def demo_os_def same_view_def demo_pwrite_def demo_pread_def min_def split: option.splits if_splits)

lemma steady_os_ok: "os_ok steady_os fd dk_view"
  by (auto simp: os_ok_def steady_os_def demo_os_def same_view_def demo_pwrite_def demo_pread_def
      min_def split: option.splits if_splits)

lemma demo_io_ok: "io_ok demo_os fd dk_view" "io_ok steady_os fd dk_view"
  using demo_os_ok [of fd] steady_os_ok [of fd]
  by (auto simp: io_ok_def steady_os_def demo_os_def demo_pwrite_def demo_pread_def split: option.splits if_splits)

lemma demo_os_simps:
  "iter_order demo_os = (\<lambda>xs. xs)" "uninit demo_os = (\<lambda>k. replicate 4096 0)" "memalign demo_os = (\<lambda>k. (True, k))"
  "sys_pread demo_os = demo_pread" "sys_pwrite demo_os = demo_pwrite"
  "sys_unlink demo_os = (\<lambda>p k. (SysOk (), k))"
  by (simp_all add: demo_os_def)

text \<open>A store in which nothing has happened yet, on a device that accepts \<open>n\<close> writes, and
  two blocks that differ in their digests.\<close>

definition demo_start :: "nat \<Rightarrow> demo_kernel Context" where
  "demo_start n = fresh_context 3 0 (demo_disk n)"

definition blockA :: "byte list" where "blockA = replicate 4096 7"
definition blockB :: "byte list" where "blockB = replicate 4096 9"

lemma demo_start_ok: "store_ok demo_os dk_view (demo_start n)"
  unfolding demo_start_def by (rule fresh_context_ok) simp_all

lemma demo_start_safe: "mem_safe (demo_start n)"
  using demo_start_ok by (simp add: store_ok_def)

lemma demo_start_stored [simp]: "stored view (demo_start n) = {}"
  by (simp add: stored_def demo_start_def fresh_context_def)

lemma blocks_lengths [simp]: "length blockA = 4096" "length blockB = 4096"
  by (simp_all add: blockA_def blockB_def)

lemma blocks_of_demo [simp]:
  "blocks_of blockA = [blockA]" "blocks_of (blockA @ blockB @ blockA) = [blockA, blockB, blockA]"
  by (simp_all add: blocks_of_step)

lemma demo_digests [simp]:
  "sha512 demo_os blockA = replicate 64 7" "sha512 demo_os blockB = replicate 64 9"
  by (simp_all add: demo_os_def blockA_def blockB_def)

lemma upt_small [simp]: "[0..<2] = [0, 1 :: nat]" "[0..<3] = [0, 1, 2 :: nat]"
  by (simp_all add: upt_rec)

lemmas demo_exec = demo_os_simps demo_pwrite_def demo_pread_def demo_disk_def fresh_context_def
  demo_start_def

end
