(* ===== verification/Dedup_Write_Spec.thy ===== *)
theory Dedup_Write_Spec
  imports Dedup_Write_Phases Demo_OS
begin

text \<open>
  What \<^verbatim>\<open>xmp_write\<close> guarantees, put together from its phases: memory safety on every branch
  (\<open>xmp_write_mem_safe\<close>), the append contract and the deduplication of a successful call
  (\<open>xmp_write_appends\<close>, \<open>xmp_write_dedup\<close>), success under a working device
  (\<open>xmp_write_succeeds\<close>), the rejections (\<open>xmp_write_rejects\<close>) and the accounting of the
  data file's space (\<open>xmp_write_space\<close>).
\<close>

section \<open>Preconditions and the pipeline\<close>

text \<open>Room for the write: the counters, indexes and offsets the C code computes fit their
  types (a call of less than 2 GiB, fewer than \<open>2 ^ 31\<close> references to a block, a data file
  and a file below \<open>2 ^ 63\<close> bytes).\<close>

definition write_room :: "'k Context \<Rightarrow> string \<Rightarrow> byte list \<Rightarrow> bool" where
  "write_room c path buf \<longleftrightarrow> length buf < 2 ^ 31 \<and>
     (\<forall>a. ctr (heap c) a + int (length buf div 4096) < 2 ^ 31) \<and>
     next_free_offset c + int (length buf) < 2 ^ 63 \<and>
     (\<forall>f. fileIndex c path = Some f \<longrightarrow> logicalSize f + int (length buf) < 2 ^ 63)"

definition file_of :: "'k Context \<Rightarrow> string \<Rightarrow> filemeta" where
  "file_of c path = fst (get_or_create_file path c)"

lemma file_of_simps:
  "fileIndex c path = Some f \<Longrightarrow> file_of c path = f"
  "fileIndex c path = None \<Longrightarrow> file_of c path = new_file path"
  by (simp_all add: file_of_def get_or_create_file_def)

lemma get_or_create_file_eq:
  "get_or_create_file path c =
     (file_of c path, c\<lparr>fileIndex := (fileIndex c)(path \<mapsto> file_of c path)\<rparr>)"
proof (cases "fileIndex c path")
  case (Some f)
  then have "(fileIndex c)(path \<mapsto> f) = fileIndex c" by auto
  with Some show ?thesis by (simp add: get_or_create_file_def file_of_def)
qed (simp add: get_or_create_file_def file_of_def)

lemma new_file_simps [simp]:
  "blockList (new_file p) = []" "logicalSize (new_file p) = 0" "file_id (new_file p) = p"
  by (simp_all add: new_file_def)

lemma file_of_ok:
  assumes "files_ok c"
  shows "file_id (file_of c path) = path" and "0 \<le> logicalSize (file_of c path)"
    and "logicalSize (file_of c path) \<le> 4096 * int (length (blockList (file_of c path)))"
  using assms by (cases "fileIndex c path"; simp add: file_of_simps files_ok_def)+

lemma refs_file_of:
  "finite (dom (fileIndex c)) \<Longrightarrow> refs ((fileIndex c)(path \<mapsto> f)) a
     + count_list (blockList (file_of c path)) a = refs (fileIndex c) a + count_list (blockList f) a"
  by (cases "fileIndex c path") (simp_all add: file_of_simps refs_insert refs_replace)

text \<open>The lookup loop leaves the slots of the old blocks alone.\<close>

lemma acq_old_block:
  assumes "acq_heap c0 c l" and "heap c0 a = Some b0"
  shows "\<exists>b. heap c a = Some b \<and> block_offset b = block_offset b0 \<and> block_id b = block_id b0"
proof -
  have eq: "map_option strip_ctr (heap c a) = Some (strip_ctr b0)"
    using assms by (simp add: acq_heap_def)
  then obtain b where "heap c a = Some b" "strip_ctr b = strip_ctr b0" by auto
  moreover from this(2) have "block_offset b = block_offset b0" "block_id b = block_id b0"
    unfolding strip_ctr_def
    by (metis blockmeta.select_convs(1,2) blockmeta.surjective blockmeta.update_convs(4))+
  ultimately show ?thesis by blast
qed

lemma acq_boff: "acq_heap c0 c l \<Longrightarrow> a \<in> dom (heap c0) \<Longrightarrow> boff c a = boff c0 a"
  using acq_old_block by (fastforce simp: boff_def)

lemma acq_layout:
  assumes "acq_inv c0 c l hs" and lay: "layout_ok c0 (dom (heap c0))"
  shows "layout_ok c (dom (heap c0))"
proof -
  have fr: "acq_frame c0 c" and hp: "acq_heap c0 c l" using assms(1) by (simp_all add: acq_inv_def)
  have img: "boff c ` dom (heap c0) = boff c0 ` dom (heap c0)"
    by (rule image_cong) (simp_all add: acq_boff [OF hp])
  have inj: "inj_on (boff c) (dom (heap c0)) = inj_on (boff c0) (dom (heap c0))"
    by (rule inj_on_cong) (simp add: acq_boff [OF hp])
  show ?thesis using lay fr by (simp add: layout_ok_def img inj acq_frame_def slot_ok_def)
qed

text \<open>Lookup and offset phases together, on a call with room.\<close>

lemma write_lookup_and_place:
  assumes E: "os_ok E fd view" and ix: "index_ok c1" and lay: "layout_ok c1 (dom (heap c1))"
    and bound: "\<forall>a. ctr (heap c1) a + int (length hs) < 2 ^ 31"
    and room: "next_free_offset c1 + 4096 * int (length hs) < 2 ^ 63"
  obtains c2 l order c3 where
    "acquire_blocks hs c1 no_locals = Some (c2, l)" "acq_inv c1 c2 l hs"
    "blocks_to_lock E c2 (lockedBlocks l) = Some order"
    "sorted (map (\<lambda>a. take 64 (block_id (the (heap c2 a)))) order)"
    "assign_offsets (my_created_blocks l) order c2 = Some c3"
    "layout_ok c3 (dom (heap c3))" "off_frame c2 c3"
    "\<And>a. a \<notin> set (my_created_blocks l) \<Longrightarrow> heap c3 a = heap c2 a"
    "used_bytes c3 = used_bytes c1 + 4096 * int (card (dom (heap c3) - dom (heap c1)))"
proof -
  obtain c2 l where acq: "acquire_blocks hs c1 no_locals = Some (c2, l)" "acq_inv c1 c2 l hs"
    using acquire_blocks_inv [OF acq_inv_start [OF ix], of hs] bound by auto
  from acq(2) have parts: "index_ok c2" "acq_frame c1 c2" "acq_heap c1 c2 l" "acq_ids c2 l hs" "acq_lock c2 l"
    by (simp_all add: acq_inv_def)
  obtain order where ord: "blocks_to_lock E c2 (lockedBlocks l) = Some order"
    "set order = set (newBlocksInfo l)" "distinct order"
    "sorted (map (\<lambda>a. take 64 (block_id (the (heap c2 a)))) order)"
    using blocks_to_lock_order [OF E parts(5)] by blast
  have "length order = card (set (newBlocksInfo l))" using ord(2,3) distinct_card by fastforce
  also have "\<dots> \<le> length (newBlocksInfo l)" by (rule card_length)
  also have "\<dots> = length hs" using parts(4) by (simp add: acq_ids_def list_all2_lengthD)
  finally have len: "length order \<le> length hs" .
  have cr: "set order \<inter> set (my_created_blocks l) = dom (heap c2) - dom (heap c1)"
    using parts(3) ord(2) by (auto simp: acq_heap_def)
  have "\<exists>c3. assign_offsets (my_created_blocks l) order c2 = Some c3 \<and>
      layout_ok c3 (dom (heap c1) \<union> (set order \<inter> set (my_created_blocks l))) \<and> off_frame c2 c3 \<and>
      (\<forall>x. x \<notin> set order \<inter> set (my_created_blocks l) \<longrightarrow> heap c3 x = heap c2 x) \<and>
      used_bytes c3 = used_bytes c2 + 4096 * int (card (set order \<inter> set (my_created_blocks l)))"
  proof (rule assign_offsets_placed [OF acq_layout [OF acq(2) lay] _ ord(3)])
    show "dom (heap c1) \<inter> set order \<inter> set (my_created_blocks l) = {}" using cr by auto
    show "\<exists>b. heap c2 a = Some b \<and> block_size b = 4096" if a: "a \<in> set order" for a
    proof -
      have "a \<in> dom (heap c2)" using a ord(2) acq_ids_live [OF parts(4)] by auto
      then show ?thesis using index_okD2(3) [OF parts(1)] by auto
    qed
    show "next_free_offset c2 + 4096 * int (length order) < 2 ^ 63"
      using len room parts(2) by (simp add: acq_frame_def)
  qed
  then obtain c3 where c3: "assign_offsets (my_created_blocks l) order c2 = Some c3"
    "layout_ok c3 (dom (heap c1) \<union> (set order \<inter> set (my_created_blocks l)))" "off_frame c2 c3"
    "\<forall>x. x \<notin> set order \<inter> set (my_created_blocks l) \<longrightarrow> heap c3 x = heap c2 x"
    "used_bytes c3 = used_bytes c2 + 4096 * int (card (set order \<inter> set (my_created_blocks l)))" by blast
  have "dom (heap c1) \<subseteq> dom (heap c2)" using acq_old_block [OF parts(3)] by (meson domIff domI not_None_eq subsetI)
  then have "dom (heap c1) \<union> (set order \<inter> set (my_created_blocks l)) = dom (heap c3)"
    using cr off_frame_dom [OF c3(3)] by auto
  with c3(2) have "layout_ok c3 (dom (heap c3))" by simp
  moreover have "\<And>a. a \<notin> set (my_created_blocks l) \<Longrightarrow> heap c3 a = heap c2 a" using c3(4) by simp
  moreover have "used_bytes c3 = used_bytes c1 + 4096 * int (card (dom (heap c3) - dom (heap c1)))"
    using c3(5) cr off_frame_dom [OF c3(3)] parts(2) by (simp add: used_bytes_def acq_frame_def)
  ultimately show ?thesis using that acq ord c3 by blast
qed

text \<open>The whole call once size and offset are accepted.\<close>

lemma write_pipeline:
  assumes E: "os_ok E (backend_fd c) view" and safe: "mem_safe c" and room: "write_room c path buf"
    and size: "4096 dvd length buf" and off: "offset = logicalSize (file_of c path)"
  defines "c1 \<equiv> c\<lparr>fileIndex := (fileIndex c)(path \<mapsto> file_of c path)\<rparr>"
    and "hs \<equiv> map (sha512 E) (blocks_of buf)"
  obtains c2 l c3 aligned k4 err f k5 m where
    "acq_inv c1 c2 l hs" "off_frame c2 c3" "layout_ok c3 (dom (heap c3))"
    "\<And>a. a \<notin> set (my_created_blocks l) \<Longrightarrow> heap c3 a = heap c2 a"
    "used_bytes c3 = used_bytes c + 4096 * int (card (dom (heap c3) - dom (heap c)))"
    "memalign E (kern c) = (aligned, k4)"
    "aligned \<Longrightarrow> write_blocks E (newBlocksInfo l) buf (my_created_blocks l) (file_of c path)
        (c3\<lparr>kern := k4\<rparr>) = Some (err, f, c3\<lparr>kern := k5\<rparr>)"
    "\<not> aligned \<Longrightarrow> err = - ENOMEM"
    "err \<le> 0" "blockList f = blockList (file_of c path) @ take m (newBlocksInfo l)"
    "logicalSize f = offset" "file_id f = path" "err = 0 \<Longrightarrow> take m (newBlocksInfo l) = newBlocksInfo l"
    "xmp_write E path buf offset c = Some (if err \<noteq> 0 then err else int (length buf),
       c3\<lparr>kern := k5, fileIndex := (fileIndex c)(path \<mapsto>
         f\<lparr>logicalSize := offset + (if err = 0 then int (length buf) else 0)\<rparr>)\<rparr>)"
proof -
  let ?n = "length buf div 4096"
  have small: "length buf < 2 ^ 31" using room by (simp add: write_room_def)
  have files: "files_ok c" using safe by (simp add: mem_safe_def)
  have nb: "s32 (int (length buf) div 4096) = int ?n"
  proof -
    have "int (length buf) div 4096 = int ?n" by (simp add: zdiv_int)
    moreover have "length buf div 4096 \<le> length buf" by simp
    ultimately show ?thesis using small by (simp add: s32_id)
  qed
  have hashes: "map (\<lambda>i. sha512 E (block_at buf i)) [0..<?n] = hs"
    by (simp add: hs_def blocks_of_def comp_def)
  have lenhs: "length hs = ?n" by (simp add: hs_def)
  have c1: "heap c1 = heap c" "next_free_offset c1 = next_free_offset c" "kern c1 = kern c"
    "backend_fd c1 = backend_fd c" "fileIndex c1 = (fileIndex c)(path \<mapsto> file_of c path)"
    by (simp_all add: c1_def)
  obtain c2 l order c3 where p: "acquire_blocks hs c1 no_locals = Some (c2, l)" "acq_inv c1 c2 l hs"
    "blocks_to_lock E c2 (lockedBlocks l) = Some order"
    "assign_offsets (my_created_blocks l) order c2 = Some c3"
    "layout_ok c3 (dom (heap c3))" "off_frame c2 c3"
    "\<And>a. a \<notin> set (my_created_blocks l) \<Longrightarrow> heap c3 a = heap c2 a"
    "used_bytes c3 = used_bytes c1 + 4096 * int (card (dom (heap c3) - dom (heap c1)))"
  proof (rule write_lookup_and_place [OF E, of c1 hs])
    show "index_ok c1" "layout_ok c1 (dom (heap c1))" using safe by (simp_all add: c1_def mem_safe_def)
    show "\<forall>a. ctr (heap c1) a + int (length hs) < 2 ^ 31"
      using room by (simp add: write_room_def c1 lenhs)
    have "4096 * int ?n \<le> int (length buf)" by linarith
    then show "next_free_offset c1 + 4096 * int (length hs) < 2 ^ 63"
      using room by (simp add: write_room_def c1 lenhs)
  qed blast
  have k3: "kern c3 = kern c" "fileIndex c3 = (fileIndex c)(path \<mapsto> file_of c path)" "backend_fd c3 = backend_fd c"
    using p(2,6) by (simp_all add: acq_inv_def acq_frame_def off_frame_def c1)
  obtain aligned k4 where al: "memalign E (kern c) = (aligned, k4)" by (cases "memalign E (kern c)")
  have live: "\<forall>a\<in>set (newBlocksInfo l). heap (c3\<lparr>kern := k4\<rparr>) a \<noteq> None"
    using acq_ids_live [of c2 l hs] p(2) off_frame_dom [OF p(6)] by (auto simp: acq_inv_def)
  have E3: "os_ok E (backend_fd (c3\<lparr>kern := k4\<rparr>)) view" using E k3 by simp
  obtain err f k5 m where io:
    "(if \<not> aligned then Some (- ENOMEM, file_of c path, c3\<lparr>kern := k4\<rparr>)
      else write_blocks E (newBlocksInfo l) buf (my_created_blocks l) (file_of c path) (c3\<lparr>kern := k4\<rparr>))
     = Some (err, f, c3\<lparr>kern := k5\<rparr>)"
    "err \<le> 0" "blockList f = blockList (file_of c path) @ take m (newBlocksInfo l)"
    "logicalSize f = logicalSize (file_of c path)" "file_id f = file_id (file_of c path)"
    "err = 0 \<Longrightarrow> take m (newBlocksInfo l) = newBlocksInfo l"
  proof (cases aligned)
    case True
    then show ?thesis
      using write_blocks_total [OF E3 live, of buf "my_created_blocks l" "file_of c path"] that by auto
  next
    case False
    then show ?thesis using that [of "- ENOMEM" "file_of c path" k4 0] by simp
  qed
  have offs: "0 \<le> offset" "offset + int (length buf) < 2 ^ 63"
  proof -
    show "0 \<le> offset" using file_of_ok(2) [OF files] off by simp
    show "offset + int (length buf) < 2 ^ 63"
      using room small off by (cases "fileIndex c path") (simp_all add: write_room_def file_of_simps)
  qed
  have szl: "(if err = 0 \<and> u64 (offset + int (length buf)) > u64 (logicalSize f)
      then f\<lparr>logicalSize := s64 (offset + int (length buf))\<rparr> else f)
     = f\<lparr>logicalSize := offset + (if err = 0 then int (length buf) else 0)\<rparr>"
    using offs io(4) off by (auto simp: c_arith)
  have ret: "s32 (int (length buf)) = int (length buf)" using small by (simp add: s32_id)
  have "int (length buf) mod 4096 = 0" using size by (metis dvd_imp_mod_0 int_dvd_int_iff of_nat_numeral)
  then have "xmp_write E path buf offset c = Some (if err \<noteq> 0 then err else int (length buf),
       c3\<lparr>kern := k5, fileIndex := (fileIndex c)(path \<mapsto>
         (if err = 0 \<and> u64 (offset + int (length buf)) > u64 (logicalSize f)
          then f\<lparr>logicalSize := s64 (offset + int (length buf))\<rparr> else f))\<rparr>)"
    using off p(1,3,4) io(1) al k3
    by (simp add: xmp_write_def Let_def nb hashes get_or_create_file_eq c1_def [symmetric] ret)
  then have "xmp_write E path buf offset c = Some (if err \<noteq> 0 then err else int (length buf),
       c3\<lparr>kern := k5, fileIndex := (fileIndex c)(path \<mapsto>
         f\<lparr>logicalSize := offset + (if err = 0 then int (length buf) else 0)\<rparr>)\<rparr>)"
    by (simp only: szl)
  note result = this
  have "used_bytes c3 = used_bytes c + 4096 * int (card (dom (heap c3) - dom (heap c)))"
    using p(8) by (simp add: c1_def used_bytes_def)
  note used = this
  show ?thesis
  proof (rule that [OF p(2,6,5,7) used al _ _ io(2,3) _ _ io(6) result])
    show "write_blocks E (newBlocksInfo l) buf (my_created_blocks l) (file_of c path)
        (c3\<lparr>kern := k4\<rparr>) = Some (err, f, c3\<lparr>kern := k5\<rparr>)" if aligned
      using io(1) that by simp
    show "err = - ENOMEM" if "\<not> aligned" using io(1) that by simp
    show "logicalSize f = offset" using io(4) off by simp
    show "file_id f = path" using io(5) file_of_ok(1) [OF files] by simp
  qed
qed

section \<open>Memory safety, on every branch\<close>

lemma mem_safe_ensure_file:
  assumes "mem_safe c"
  shows "mem_safe (c\<lparr>fileIndex := (fileIndex c)(path \<mapsto> file_of c path)\<rparr>)"
proof -
  have fin: "finite (dom (fileIndex c))" and files: "files_ok c"
    using assms by (simp_all add: mem_safe_def files_ok_def)
  have "refs ((fileIndex c)(path \<mapsto> file_of c path)) a = refs (fileIndex c) a" for a
    using refs_file_of [OF fin, of path "file_of c path" a] by simp
  moreover have "files_ok (c\<lparr>fileIndex := (fileIndex c)(path \<mapsto> file_of c path)\<rparr>)"
    using files file_of_ok [OF files, of path] by (auto simp: files_ok_def)
  ultimately show ?thesis using assms by (simp add: mem_safe_def refs_ok_def)
qed

text \<open>The state the pipeline leaves, whatever prefix of the blocks was written.\<close>

lemma pipeline_mem_safe:
  assumes safe: "mem_safe c" and size: "4096 dvd length buf"
    and inv: "acq_inv (c\<lparr>fileIndex := fi\<rparr>) c2 l (map (sha512 E) (blocks_of buf))"
    and fr: "off_frame c2 c3" and lay: "layout_ok c3 (dom (heap c3))"
    and f: "blockList f = blockList (file_of c path) @ take m (newBlocksInfo l)" "file_id f = path"
      "logicalSize f = logicalSize (file_of c path) + (if complete then int (length buf) else 0)"
      "complete \<Longrightarrow> take m (newBlocksInfo l) = newBlocksInfo l"
  shows "mem_safe (c3\<lparr>kern := k, fileIndex := (fileIndex c)(path \<mapsto> f)\<rparr>)"
proof -
  let ?c = "c3\<lparr>kern := k, fileIndex := (fileIndex c)(path \<mapsto> f)\<rparr>"
  from inv have ix: "index_ok c2" and rf: "acq_refs c c2 l"
    and ids: "acq_ids c2 l (map (sha512 E) (blocks_of buf))"
    by (simp_all add: acq_inv_def acq_refs_def)
  have files: "files_ok c" and fin: "finite (dom (fileIndex c))" and refs: "refs_ok c []"
    using safe by (simp_all add: mem_safe_def files_ok_def)
  have "index_ok ?c" using off_frame_index_ok [OF fr ix] by simp
  moreover have "refs_ok ?c []"
    unfolding refs_ok_def
  proof
    fix a
    have "refs ((fileIndex c)(path \<mapsto> f)) a + count_list (blockList (file_of c path)) a
        = refs (fileIndex c) a + count_list (blockList f) a" by (rule refs_file_of [OF fin])
    moreover have "count_list (blockList f) a
        \<le> count_list (blockList (file_of c path)) a + count_list (newBlocksInfo l) a"
      using count_list_take_le [of m "newBlocksInfo l" a] by (simp add: f(1))
    moreover have "int (refs (fileIndex c) a) \<le> ctr (heap c) a" using refs by (simp add: refs_ok_def)
    moreover have "ctr (heap c3) a = ctr (heap c) a + int (count_list (newBlocksInfo l) a)"
      using rf off_frame_ctr [OF fr] by (simp add: acq_refs_def)
    ultimately show "int (refs (fileIndex ?c) a + count_list [] a) \<le> ctr (heap ?c) a" by simp
  qed
  moreover have "files_ok ?c"
  proof -
    have "length (newBlocksInfo l) = length buf div 4096"
      using ids by (simp add: acq_ids_def list_all2_lengthD)
    then have "4096 * int (length (newBlocksInfo l)) = int (length buf)" using size by auto
    then show ?thesis
      using files file_of_ok [OF files, of path] f by (auto simp: files_ok_def)
  qed
  ultimately show ?thesis using lay by (simp add: mem_safe_def)
qed

lemma write_mem_safe:
  assumes "os_ok E (backend_fd c) view" and "mem_safe c" and "write_room c path buf"
  shows "\<exists>r c'. xmp_write E path buf offset c = Some (r, c') \<and> mem_safe c' \<and>
    backend_fd c' = backend_fd c"
proof -
  have mod: "int (length buf) mod 4096 = 0 \<longleftrightarrow> 4096 dvd length buf"
    by (metis dvd_eq_mod_eq_0 int_dvd_int_iff of_nat_numeral)
  consider (size) "\<not> 4096 dvd length buf" | (off) "4096 dvd length buf" "offset \<noteq> logicalSize (file_of c path)"
    | (run) "4096 dvd length buf" "offset = logicalSize (file_of c path)" by blast
  then show ?thesis
  proof cases
    case size
    then show ?thesis using assms(2) by (simp add: xmp_write_def Let_def mod)
  next
    case off
    then show ?thesis using mem_safe_ensure_file [OF assms(2), of path]
      by (simp add: xmp_write_def Let_def mod get_or_create_file_eq)
  next
    case run
    from write_pipeline [OF assms run] obtain c2 l c3 err f k5 m where p:
      "acq_inv (c\<lparr>fileIndex := (fileIndex c)(path \<mapsto> file_of c path)\<rparr>) c2 l (map (sha512 E) (blocks_of buf))"
      "off_frame c2 c3" "layout_ok c3 (dom (heap c3))"
      "blockList f = blockList (file_of c path) @ take m (newBlocksInfo l)"
      "logicalSize f = offset" "file_id f = path" "err = 0 \<Longrightarrow> take m (newBlocksInfo l) = newBlocksInfo l"
      "xmp_write E path buf offset c = Some (if err \<noteq> 0 then err else int (length buf),
         c3\<lparr>kern := k5, fileIndex := (fileIndex c)(path \<mapsto>
           f\<lparr>logicalSize := offset + (if err = 0 then int (length buf) else 0)\<rparr>)\<rparr>)" by metis
    have "mem_safe (c3\<lparr>kern := k5, fileIndex := (fileIndex c)(path \<mapsto>
           f\<lparr>logicalSize := offset + (if err = 0 then int (length buf) else 0)\<rparr>)\<rparr>)"
      by (rule pipeline_mem_safe [where complete = "err = 0", OF assms(2) run(1) p(1,2,3)]) (use p run in auto)
    moreover have "backend_fd c3 = backend_fd c"
      using p(1,2) by (simp add: acq_inv_def acq_frame_def off_frame_def)
    ultimately show ?thesis using p(8) by simp
  qed
qed

text \<open>C12. Memory safety of \<^verbatim>\<open>xmp_write\<close>: from a safe state, and with room for the call, the
  handler returns (it reads no freed block and no index out of range) and leaves a safe state,
  whatever the buffer, the offset and the results of \<^verbatim>\<open>posix_memalign\<close> and \<^verbatim>\<open>pwrite\<close>.\<close>

theorem xmp_write_mem_safe:
  assumes "os_ok E (backend_fd c) view" and "mem_safe c" and "write_room c path buf"
  shows "\<exists>r c'. xmp_write E path buf offset c = Some (r, c') \<and> mem_safe c' \<and>
    backend_fd c' = backend_fd c"
  using assms by (rule write_mem_safe)

section \<open>Success\<close>

lemma acq_content:
  assumes inv: "acq_inv c1 c2 l hs" and fr: "off_frame c2 c3"
    and keep: "\<And>a. a \<notin> set (my_created_blocks l) \<Longrightarrow> heap c3 a = heap c2 a"
    and cont: "content_ok E view c1 (dom (heap c1))" and vk: "view k = view (kern c1)"
  shows "content_ok E view (c3\<lparr>kern := k\<rparr>) (dom (heap c1))"
    and "\<And>a. a \<in> dom (heap c1) \<Longrightarrow> block_data view (c3\<lparr>kern := k\<rparr>) a = block_data view c1 a"
proof -
  have hp: "acq_heap c1 c2 l" using inv by (simp add: acq_inv_def)
  have old: "\<exists>b. heap c3 a = Some b \<and> block_offset b = block_offset b0 \<and> block_id b = block_id b0"
    if "heap c1 a = Some b0" for a b0
  proof -
    have "a \<notin> set (my_created_blocks l)" using hp that by (auto simp: acq_heap_def)
    then show ?thesis using acq_old_block [OF hp that] keep by simp
  qed
  show "content_ok E view (c3\<lparr>kern := k\<rparr>) (dom (heap c1))"
    using cont old vk unfolding content_ok_def by fastforce
  show "block_data view (c3\<lparr>kern := k\<rparr>) a = block_data view c1 a" if "a \<in> dom (heap c1)" for a
    using that old vk by (force simp: block_data_def boff_def)
qed

text \<open>What a call that reports success has done.\<close>

lemma write_success:
  assumes ioE: "io_ok E (backend_fd c) view" and ok: "store_ok E view c" and room: "write_room c path buf"
    and run: "xmp_write E path buf offset c = Some (r, c')" and r: "0 \<le> r"
  obtains ns f where "r = int (length buf)" "4096 dvd length buf" "offset = logicalSize (file_of c path)"
    "store_ok E view c'" "backend_fd c' = backend_fd c"
    "fileIndex c' = (fileIndex c)(path \<mapsto> f)" "blockList f = blockList (file_of c path) @ ns"
    "list_all2 (has_id c') ns (map (sha512 E) (blocks_of buf))"
    "\<And>a. a \<in> dom (heap c) \<Longrightarrow> block_data view c' a = block_data view c a"
    "\<And>a. a \<in> dom (heap c') \<Longrightarrow> block_data view c' a \<in> stored view c \<union> set (blocks_of buf)"
    "\<And>a h. has_id c a h \<Longrightarrow> has_id c' a h" "dom (heap c') \<subseteq> dom (heap c) \<union> set ns"
proof -
  have E: "os_ok E (backend_fd c) view" using ioE by (rule io_ok_os)
  have mod: "int (length buf) mod 4096 = 0 \<longleftrightarrow> 4096 dvd length buf"
    by (metis dvd_eq_mod_eq_0 int_dvd_int_iff of_nat_numeral)
  have safe: "mem_safe c" and exact: "exact_store c" and cont: "content_ok E view c (dom (heap c))"
    and fd: "backend_fd c \<noteq> -1" using ok by (simp_all add: store_ok_def)
  have size: "4096 dvd length buf" using run r by (auto simp: xmp_write_def Let_def mod split: if_splits)
  have off: "offset = logicalSize (file_of c path)"
    using run r size by (auto simp: xmp_write_def Let_def mod get_or_create_file_eq split: if_splits)
  define c1 where "c1 = c\<lparr>fileIndex := (fileIndex c)(path \<mapsto> file_of c path)\<rparr>"
  define hs where "hs = map (sha512 E) (blocks_of buf)"
  from write_pipeline [OF E safe room size off, folded c1_def hs_def]
  obtain c2 l c3 aligned k4 err f k5 m where p:
    "acq_inv c1 c2 l hs" "off_frame c2 c3" "layout_ok c3 (dom (heap c3))"
    "\<And>a. a \<notin> set (my_created_blocks l) \<Longrightarrow> heap c3 a = heap c2 a"
    "memalign E (kern c) = (aligned, k4)"
    "aligned \<Longrightarrow> write_blocks E (newBlocksInfo l) buf (my_created_blocks l) (file_of c path)
        (c3\<lparr>kern := k4\<rparr>) = Some (err, f, c3\<lparr>kern := k5\<rparr>)"
    "\<not> aligned \<Longrightarrow> err = - ENOMEM" "err \<le> 0"
    "blockList f = blockList (file_of c path) @ take m (newBlocksInfo l)"
    "logicalSize f = offset" "file_id f = path" "err = 0 \<Longrightarrow> take m (newBlocksInfo l) = newBlocksInfo l"
    "xmp_write E path buf offset c = Some (if err \<noteq> 0 then err else int (length buf),
       c3\<lparr>kern := k5, fileIndex := (fileIndex c)(path \<mapsto>
         f\<lparr>logicalSize := offset + (if err = 0 then int (length buf) else 0)\<rparr>)\<rparr>)" by metis
  have err: "err = 0" using p(8,13) run r by (auto split: if_splits)
  let ?ns = "newBlocksInfo l"
  let ?f = "f\<lparr>logicalSize := offset + int (length buf)\<rparr>"
  have c': "c' = c3\<lparr>kern := k5, fileIndex := (fileIndex c)(path \<mapsto> ?f)\<rparr>" "r = int (length buf)"
    using p(13) run err by auto
  have aligned using p(7) err by auto
  have io: "write_blocks E ?ns buf (my_created_blocks l) (file_of c path) (c3\<lparr>kern := k4\<rparr>) = Some (0, f, c3\<lparr>kern := k5\<rparr>)"
    using p(6) \<open>aligned\<close> err by simp
  have parts: "index_ok c2" "acq_heap c1 c2 l" "acq_refs c1 c2 l" "acq_ids c2 l hs"
    "backend_fd c3 = backend_fd c" "heap c1 = heap c"
    using p(1,2) by (simp_all add: acq_inv_def acq_frame_def off_frame_def c1_def)
  have dom3: "dom (heap c3) = dom (heap c) \<union> set (my_created_blocks l) \<inter> set ?ns"
  proof -
    have "dom (heap c) \<subseteq> dom (heap c2)"
      using acq_old_block [OF parts(2)] parts(6) by (metis (no_types, lifting) domD domI subsetI)
    then show ?thesis using off_frame_dom [OF p(2)] parts(2,6) by (auto simp: acq_heap_def)
  qed
  have ids: "list_all2 (has_id c3) ?ns hs"
    using parts(4) unfolding acq_ids_def
  proof (rule list_all2_mono)
    fix a h assume "has_id c2 a h"
    then show "has_id c3 a h" using off_frame_Some [OF off_frame_sym [OF p(2)]] by (fastforce simp: has_id_def)
  qed
  have vk: "view k4 = view (kern c1)" using os_ok_frame(1) [OF E, of "kern c"] p(5) by (simp add: c1_def)
  have cont1: "content_ok E view c1 (dom (heap c1))" using cont by (simp add: c1_def)
  note old = acq_content [OF p(1,2,4) cont1 vk, unfolded parts(6)]
  have new: "content_ok E view (c3\<lparr>kern := k5\<rparr>) (dom (heap c) \<union> set (my_created_blocks l) \<inter> set ?ns) \<and>
     (\<forall>x\<in>dom (heap c). block_data view (c3\<lparr>kern := k5\<rparr>) x = block_data view (c3\<lparr>kern := k4\<rparr>) x) \<and>
     (\<forall>x\<in>set (my_created_blocks l) \<inter> set ?ns. block_data view (c3\<lparr>kern := k5\<rparr>) x \<in> set (blocks_of buf))"
  proof (rule write_blocks_content [OF _ _ _ _ old(1) _ _ _ io])
    show "io_ok E (backend_fd (c3\<lparr>kern := k4\<rparr>)) view" "backend_fd (c3\<lparr>kern := k4\<rparr>) \<noteq> -1"
      using ioE fd parts(5) by simp_all
    show "layout_ok (c3\<lparr>kern := k4\<rparr>) (dom (heap (c3\<lparr>kern := k4\<rparr>)))" using p(3) by simp
    show "index_ok (c3\<lparr>kern := k4\<rparr>)" using off_frame_index_ok [OF p(2) parts(1)] by simp
    show "dom (heap c) \<subseteq> dom (heap (c3\<lparr>kern := k4\<rparr>))" using dom3 by auto
    show "dom (heap c) \<inter> set (my_created_blocks l) = {}" using parts(2,6) by (auto simp: acq_heap_def)
    show "list_all2 (has_id (c3\<lparr>kern := k4\<rparr>)) ?ns (map (sha512 E) (blocks_of buf))"
      using ids by (simp add: hs_def)
  qed
  have data: "block_data view c' = block_data view (c3\<lparr>kern := k5\<rparr>)" by (simp add: c'(1))
  have lenns: "4096 * int (length ?ns) = int (length buf)"
  proof -
    have "length ?ns = length buf div 4096"
      using parts(4) by (simp add: acq_ids_def hs_def list_all2_lengthD)
    then show ?thesis using size by auto
  qed
  have fin: "finite (dom (fileIndex c))" using safe by (simp add: mem_safe_def files_ok_def)
  have bl: "blockList ?f = blockList (file_of c path) @ ?ns" using p(9,12) err by simp
  have "mem_safe c'" unfolding c'(1)
    by (rule pipeline_mem_safe [OF safe size p(1) [unfolded c1_def hs_def] p(2,3), where complete = True])
       (use p off err in auto)
  moreover have "refs_exact c' []"
    unfolding refs_exact_def
  proof
    fix a
    have "refs ((fileIndex c)(path \<mapsto> ?f)) a + count_list (blockList (file_of c path)) a
        = refs (fileIndex c) a + count_list (blockList ?f) a" by (rule refs_file_of [OF fin])
    then have "refs (fileIndex c') a = refs (fileIndex c) a + count_list ?ns a"
      using bl by (simp add: c'(1))
    moreover have "ctr (heap c) a = int (refs (fileIndex c) a)"
      using exact by (simp add: exact_store_def refs_exact_def)
    moreover have "ctr (heap c') a = ctr (heap c) a + int (count_list ?ns a)"
      using parts(3,6) off_frame_ctr [OF p(2)] by (simp add: acq_refs_def c'(1))
    ultimately show "ctr (heap c') a = int (refs (fileIndex c') a + count_list [] a)" by simp
  qed
  moreover have "sizes_ok c'"
  proof -
    have "logicalSize (file_of c path) = 4096 * int (length (blockList (file_of c path)))"
      using exact by (cases "fileIndex c path") (simp_all add: exact_store_def sizes_ok_def file_of_simps)
    then show ?thesis
      using exact bl lenns off by (auto simp: sizes_ok_def exact_store_def c'(1))
  qed
  moreover have "content_ok E view c' (dom (heap c'))"
    using new dom3 by (simp add: c'(1) content_ok_def)
  ultimately have "store_ok E view c'" using fd parts(5) by (simp add: store_ok_def exact_store_def c'(1))
  moreover have "list_all2 (has_id c') ?ns (map (sha512 E) (blocks_of buf))"
    using ids by (simp add: hs_def c'(1))
  moreover have keepd: "block_data view c' a = block_data view c a" if "a \<in> dom (heap c)" for a
    using new old(2) that by (simp add: data c1_def)
  moreover have "block_data view c' a \<in> stored view c \<union> set (blocks_of buf)"
    if a: "a \<in> dom (heap c')" for a
  proof (cases "a \<in> dom (heap c)")
    case True
    then show ?thesis by (simp add: keepd stored_def)
  next
    case False
    then have "a \<in> set (my_created_blocks l) \<inter> set ?ns" using a dom3 by (simp add: c'(1))
    then show ?thesis using new by (simp add: data)
  qed
  moreover have "has_id c' a h" if ida: "has_id c a h" for a h
  proof -
    obtain b where b: "heap c a = Some b" "block_id b = h" using ida by (auto simp: has_id_def)
    then obtain b2 where b2: "heap c2 a = Some b2" "block_id b2 = h"
      using acq_old_block [OF parts(2)] parts(6) by fastforce
    have "a \<notin> set (my_created_blocks l)" using b parts(2,6) by (auto simp: acq_heap_def)
    then show ?thesis using p(4) b2 by (simp add: has_id_def c'(1))
  qed
  moreover have "dom (heap c') \<subseteq> dom (heap c) \<union> set ?ns" using dom3 by (auto simp: c'(1))
  ultimately show ?thesis
    using c' size off bl parts(5) by (intro that [of ?f ?ns]) simp_all
qed

section \<open>The contract of a successful write\<close>

lemma file_data_ensure:
  "file_data view c (file_of c path) = (case abs_fs view c path of None \<Rightarrow> [] | Some d \<Rightarrow> d)"
  by (cases "fileIndex c path") (simp_all add: abs_fs_def file_of_simps file_data_def)

lemma file_data_cong:
  "(\<And>a. a \<in> set (blockList f) \<Longrightarrow> block_data view c' a = block_data view c a) \<Longrightarrow>
     file_data view c' f = file_data view c f"
  by (simp add: file_data_def cong: map_cong)

text \<open>Blocks with the right digests hold the right bytes, when digests do not collide.\<close>

lemma data_of_digests:
  assumes "list_all2 (has_id c) ns (map (sha512 E) bs)" and cont: "content_ok E view c (dom (heap c))"
    and inj: "inj_on (sha512 E) D" and bs: "set bs \<subseteq> D"
    and D: "\<And>a. a \<in> dom (heap c) \<Longrightarrow> block_data view c a \<in> D"
  shows "map (block_data view c) ns = bs"
proof (rule nth_equalityI)
  show len: "length (map (block_data view c) ns) = length bs"
    using list_all2_lengthD [OF assms(1)] by simp
  fix i assume "i < length (map (block_data view c) ns)"
  then have i: "i < length ns" "i < length bs" using len by simp_all
  then have "has_id c (ns ! i) (sha512 E (bs ! i))"
    using assms(1) by (auto dest: list_all2_nthD)
  then obtain b where b: "heap c (ns ! i) = Some b" "block_id b = sha512 E (bs ! i)"
    by (auto simp: has_id_def)
  then have live: "ns ! i \<in> dom (heap c)" by auto
  from content_okD(3) [OF cont live b(1)] b(2)
  have "sha512 E (block_data view c (ns ! i)) = sha512 E (bs ! i)" by simp
  moreover have "bs ! i \<in> D" using bs i by auto
  ultimately show "map (block_data view c) ns ! i = bs ! i" using inj D [OF live] i by (simp add: inj_onD)
qed

lemma write_appends:
  assumes E: "io_ok E (backend_fd c) view" and ok: "store_ok E view c" and room: "write_room c path buf"
    and nocoll: "inj_on (sha512 E) (stored view c \<union> set (blocks_of buf))"
    and run: "xmp_write E path buf offset c = Some (r, c')" and r: "0 \<le> r"
  shows "r = int (length buf) \<and> store_ok E view c' \<and>
    offset = int (length (case abs_fs view c path of None \<Rightarrow> [] | Some d \<Rightarrow> d)) \<and>
    abs_fs view c' = (abs_fs view c)(path \<mapsto>
      (case abs_fs view c path of None \<Rightarrow> [] | Some d \<Rightarrow> d) @ buf)"
proof -
  obtain ns f where s: "r = int (length buf)" "4096 dvd length buf" "offset = logicalSize (file_of c path)"
    "store_ok E view c'" "fileIndex c' = (fileIndex c)(path \<mapsto> f)"
    "blockList f = blockList (file_of c path) @ ns"
    "list_all2 (has_id c') ns (map (sha512 E) (blocks_of buf))"
    "\<And>a. a \<in> dom (heap c) \<Longrightarrow> block_data view c' a = block_data view c a"
    "\<And>a. a \<in> dom (heap c') \<Longrightarrow> block_data view c' a \<in> stored view c \<union> set (blocks_of buf)"
    using write_success [OF E ok room run r] by metis
  have safe: "mem_safe c" and cont: "content_ok E view c (dom (heap c))" and szs: "sizes_ok c"
    using ok by (simp_all add: store_ok_def exact_store_def)
  have live: "a \<in> dom (heap c)" if "fileIndex c p = Some g" "a \<in> set (blockList g)" for p g a
    using mem_safe_block_live [OF safe that] by blast
  have livef: "a \<in> dom (heap c)" if "a \<in> set (blockList (file_of c path))" for a
    using live that by (cases "fileIndex c path") (auto simp: file_of_simps)
  have same: "file_data view c' g = file_data view c g" if "fileIndex c p = Some g" for p g
    by (rule file_data_cong) (use s(8) live that in blast)
  have new: "map (block_data view c') ns = blocks_of buf"
    by (rule data_of_digests [OF s(7) _ nocoll]) (use s(4,9) in \<open>auto simp: store_ok_def\<close>)
  have "file_data view c' f = file_data view c (file_of c path) @ buf"
    using new s(2,6,8) livef by (simp add: file_data_def concat_blocks_of cong: map_cong)
  then have "abs_fs view c' = (abs_fs view c)(path \<mapsto>
      (case abs_fs view c path of None \<Rightarrow> [] | Some d \<Rightarrow> d) @ buf)"
  proof (intro ext)
    fix p
    assume new: "file_data view c' f = file_data view c (file_of c path) @ buf"
    show "abs_fs view c' p = ((abs_fs view c)(path \<mapsto>
      (case abs_fs view c path of None \<Rightarrow> [] | Some d \<Rightarrow> d) @ buf)) p"
    proof (cases "p = path")
      case True
      then show ?thesis using new by (simp add: abs_fs_def [of view c'] s(5) file_data_ensure)
    next
      case False
      then show ?thesis using same by (cases "fileIndex c p") (simp_all add: abs_fs_def s(5))
    qed
  qed
  moreover have "logicalSize (file_of c path) = int (length (file_data view c (file_of c path)))"
  proof -
    have "length (file_data view c (file_of c path)) = 4096 * length (blockList (file_of c path))"
      unfolding file_data_def
      by (subst length_concat_blocks [where n = 4096]) (use livef content_okD(2) [OF cont] in auto)
    moreover have "logicalSize (file_of c path) = 4096 * int (length (blockList (file_of c path)))"
      using szs by (cases "fileIndex c path") (simp_all add: file_of_simps sizes_ok_def)
    ultimately show ?thesis by simp
  qed
  ultimately show ?thesis using s(1,3,4) by (simp add: file_data_ensure)
qed

lemma write_rejected:
  assumes "\<not> 4096 dvd length buf \<or> offset \<noteq> logicalSize (file_of c path)"
  shows "xmp_write E path buf offset c =
    (if \<not> 4096 dvd length buf then Some (- EINVAL, c)
     else Some (- ENOTSUP, c\<lparr>fileIndex := (fileIndex c)(path \<mapsto> file_of c path)\<rparr>))"
proof -
  have "int (length buf) mod 4096 = 0 \<longleftrightarrow> 4096 dvd length buf"
    by (metis dvd_eq_mod_eq_0 int_dvd_int_iff of_nat_numeral)
  then show ?thesis using assms by (auto simp: xmp_write_def Let_def get_or_create_file_eq)
qed

text \<open>C2. A write that reports success appends: it returns the number of bytes given, the
  offset was the end of the file, afterwards the file (created if it was not there) holds its
  old bytes followed by the buffer, every other file holds what it held, and the store is
  again consistent (reference counts exact, every stored block holds the bytes its digest
  names). The hypothesis on \<open>sha512\<close> is that the blocks stored and the blocks of the buffer
  do not collide.\<close>

theorem xmp_write_appends:
  assumes E: "io_ok E (backend_fd c) view" and ok: "store_ok E view c" and room: "write_room c path buf"
    and nocoll: "inj_on (sha512 E) (stored view c \<union> set (blocks_of buf))"
    and run: "xmp_write E path buf offset c = Some (r, c')" and r: "0 \<le> r"
  shows "r = int (length buf) \<and> store_ok E view c' \<and>
    offset = int (length (case abs_fs view c path of None \<Rightarrow> [] | Some d \<Rightarrow> d)) \<and>
    abs_fs view c' = (abs_fs view c)(path \<mapsto>
      (case abs_fs view c path of None \<Rightarrow> [] | Some d \<Rightarrow> d) @ buf)"
  using assms by (rule write_appends)

text \<open>A write is rejected for its size or its offset without touching any stored
  block: a size that is no multiple of 4096 is \<open>EINVAL\<close> and changes nothing; any offset but
  the end of the file is \<open>ENOTSUP\<close> and at most leaves an empty file in the index, so
  existing content cannot be overwritten.\<close>

theorem xmp_write_rejects:
  assumes "\<not> 4096 dvd length buf \<or> offset \<noteq> logicalSize (file_of c path)"
  shows "xmp_write E path buf offset c =
    (if \<not> 4096 dvd length buf then Some (- EINVAL, c)
     else Some (- ENOTSUP, c\<lparr>fileIndex := (fileIndex c)(path \<mapsto> file_of c path)\<rparr>))"
  using assms by (rule write_rejected)

text \<open>C16. Deduplication: after a successful write the index knows exactly the digests it
  knew before and those of the buffer's blocks, each once (index and heap are inverse), so
  a block that is already stored, or occurs twice in the buffer, is not stored again.\<close>

theorem xmp_write_dedup:
  assumes E: "io_ok E (backend_fd c) view" and ok: "store_ok E view c" and room: "write_room c path buf"
    and run: "xmp_write E path buf offset c = Some (r, c')" and r: "0 \<le> r"
  shows "dom (blockIndex c') = dom (blockIndex c) \<union> sha512 E ` set (blocks_of buf) \<and>
     (\<forall>h a a'. has_id c' a h \<longrightarrow> has_id c' a' h \<longrightarrow> a = a')"
proof -
  obtain ns where s: "store_ok E view c'"
    "list_all2 (has_id c') ns (map (sha512 E) (blocks_of buf))"
    "\<And>a h. has_id c a h \<Longrightarrow> has_id c' a h" "dom (heap c') \<subseteq> dom (heap c) \<union> set ns"
    using write_success [OF E ok room run r] by metis
  have ix: "index_ok c" "index_ok c'" using ok s(1) by (simp_all add: store_ok_def mem_safe_def)
  have known: "dom (blockIndex d) = {h. \<exists>a. has_id d a h}" if "index_ok d" for d :: "'a Context"
    using index_okD1 [OF that] index_okD2(1) [OF that] by (force simp: has_id_def)
  have "{h. \<exists>a. has_id c' a h} = {h. \<exists>a. has_id c a h} \<union> set (map (sha512 E) (blocks_of buf))"
  proof (intro equalityI subsetI; clarify)
    fix h a
    assume h: "has_id c' a h" and nb: "h \<notin> set (map (sha512 E) (blocks_of buf))"
    have "a \<notin> set ns"
    proof
      assume "a \<in> set ns"
      then obtain i where "i < length ns" "ns ! i = a" by (auto simp: in_set_conv_nth)
      with s(2) have "has_id c' a (map (sha512 E) (blocks_of buf) ! i)" "i < length (map (sha512 E) (blocks_of buf))"
        by (auto simp: list_all2_conv_all_nth)
      with h nb show False by (metis has_id_def nth_mem option.inject)
    qed
    then obtain b where "heap c a = Some b" using h s(4) by (auto simp: has_id_def)
    then have "has_id c a (block_id b)" by (simp add: has_id_def)
    moreover from s(3) [OF this] h have "block_id b = h" by (auto simp: has_id_def)
    ultimately show "\<exists>a. has_id c a h" by auto
  next
    fix h
    assume "h \<in> {h. \<exists>a. has_id c a h} \<union> set (map (sha512 E) (blocks_of buf))"
    then show "\<exists>a. has_id c' a h"
      using s(2,3) by (auto simp: list_all2_conv_all_nth in_set_conv_nth) blast
  qed
  then show ?thesis using known ix by (auto simp: has_id_def dest: index_ok_inj)
qed

lemma write_succeeds:
  assumes E: "os_ok E (backend_fd c) view" and safe: "mem_safe c" and room: "write_room c path buf"
    and size: "4096 dvd length buf" and off: "offset = logicalSize (file_of c path)"
    and mem: "fst (memalign E (kern c))"
    and dev: "\<forall>b off k. length b = 4096 \<longrightarrow> (\<exists>n. fst (sys_pwrite E (backend_fd c) b off k) = SysOk n)"
  shows "\<exists>c'. xmp_write E path buf offset c = Some (int (length buf), c')"
proof -
  from write_pipeline [OF E safe room size off] obtain c2 l c3 aligned k4 err f k5 where p:
    "acq_inv (c\<lparr>fileIndex := (fileIndex c)(path \<mapsto> file_of c path)\<rparr>) c2 l (map (sha512 E) (blocks_of buf))"
    "off_frame c2 c3" "memalign E (kern c) = (aligned, k4)"
    "aligned \<Longrightarrow> write_blocks E (newBlocksInfo l) buf (my_created_blocks l) (file_of c path)
        (c3\<lparr>kern := k4\<rparr>) = Some (err, f, c3\<lparr>kern := k5\<rparr>)"
    "\<exists>c'. xmp_write E path buf offset c = Some (if err \<noteq> 0 then err else int (length buf), c')" by metis
  have parts: "index_ok c2" "acq_ids c2 l (map (sha512 E) (blocks_of buf))" "backend_fd c3 = backend_fd c"
    using p(1,2) by (simp_all add: acq_inv_def acq_frame_def off_frame_def)
  have "\<exists>f' c'. write_blocks E (newBlocksInfo l) buf (my_created_blocks l) (file_of c path) (c3\<lparr>kern := k4\<rparr>)
      = Some (0, f', c')"
  proof (rule write_blocks_ok)
    have "\<exists>b. heap c3 a = Some b \<and> block_size b = 4096" if "a \<in> set (newBlocksInfo l)" for a
    proof -
      have "a \<in> dom (heap c3)" using acq_ids_live [OF parts(2) that] off_frame_dom [OF p(2)] by simp
      then show ?thesis using index_okD2(3) [OF off_frame_index_ok [OF p(2) parts(1)]] by blast
    qed
    then show "\<forall>a\<in>set (newBlocksInfo l). \<exists>b. heap (c3\<lparr>kern := k4\<rparr>) a = Some b \<and> block_size b = 4096" by simp
    have "length (newBlocksInfo l) = length buf div 4096"
      using parts(2) by (simp add: acq_ids_def list_all2_lengthD)
    then show "length buf = 4096 * length (newBlocksInfo l)" using size by simp
  qed (use dev parts(3) in simp)
  moreover have aligned using p(3) mem by simp
  ultimately have "err = 0" using p(4) by auto
  then show ?thesis using p(5) by simp
qed

text \<open>C19. Success under a working device: if the buffer is a whole number of blocks, the
  offset is the end of the file, \<^verbatim>\<open>posix_memalign\<close> succeeds and no \<^verbatim>\<open>pwrite\<close> of a
  block fails, the call returns the number of bytes given.\<close>

theorem xmp_write_succeeds:
  assumes E: "os_ok E (backend_fd c) view" and safe: "mem_safe c" and room: "write_room c path buf"
    and size: "4096 dvd length buf" and off: "offset = logicalSize (file_of c path)"
    and mem: "fst (memalign E (kern c))"
    and dev: "\<forall>b off k. length b = 4096 \<longrightarrow> (\<exists>n. fst (sys_pwrite E (backend_fd c) b off k) = SysOk n)"
  shows "\<exists>c'. xmp_write E path buf offset c = Some (int (length buf), c')"
  using assms by (rule write_succeeds)

definition unaccounted :: "'k Context \<Rightarrow> int" where
  "unaccounted c = used_bytes c - 4096 * int (card (dom (heap c)))"

lemma index_ok_finite: "index_ok c \<Longrightarrow> finite (dom (heap c))"
  by (rule finite_subset [of _ "{..<next_addr c}"]) (auto dest: index_okD2(2))

lemma used_bytes_upd [simp]:
  "used_bytes (c\<lparr>kern := k\<rparr>) = used_bytes c" "used_bytes (c\<lparr>fileIndex := fi\<rparr>) = used_bytes c"
  by (simp_all add: used_bytes_def)

lemma write_space:
  assumes "os_ok E (backend_fd c) view" and "mem_safe c" and "write_room c path buf"
    and run: "xmp_write E path buf offset c = Some (r, c')"
  shows "unaccounted c' = unaccounted c"
proof (cases "4096 dvd length buf \<and> offset = logicalSize (file_of c path)")
  case False
  then show ?thesis using run write_rejected [of buf offset c path E]
    by (auto simp: unaccounted_def split: if_splits)
next
  case True
  then have size: "4096 dvd length buf" and off: "offset = logicalSize (file_of c path)" by simp_all
  from write_pipeline [OF assms(1-3) size off] obtain c2 l c3 k5 fi r' where p:
    "acq_inv (c\<lparr>fileIndex := (fileIndex c)(path \<mapsto> file_of c path)\<rparr>) c2 l (map (sha512 E) (blocks_of buf))"
    "off_frame c2 c3" "used_bytes c3 = used_bytes c + 4096 * int (card (dom (heap c3) - dom (heap c)))"
    "xmp_write E path buf offset c = Some (r', c3\<lparr>kern := k5, fileIndex := fi\<rparr>)" by metis
  have c': "c' = c3\<lparr>kern := k5, fileIndex := fi\<rparr>" using p(4) run by simp
  have parts: "index_ok c2" "acq_heap (c\<lparr>fileIndex := (fileIndex c)(path \<mapsto> file_of c path)\<rparr>) c2 l"
    using p(1) by (simp_all add: acq_inv_def)
  have sub: "dom (heap c) \<subseteq> dom (heap c3)"
    using acq_old_block [OF parts(2)] off_frame_dom [OF p(2)] by fastforce
  have fin: "finite (dom (heap c3))" using index_ok_finite off_frame_index_ok [OF p(2) parts(1)] by blast
  then have "card (dom (heap c3)) = card (dom (heap c)) + card (dom (heap c3) - dom (heap c))"
    using sub by (metis card_Diff_subset card_mono finite_subset le_add_diff_inverse)
  then show ?thesis using p(3) c' by (simp add: unaccounted_def)
qed

text \<open>C18. No space leaks in a write, successful or not: the bytes of the data file below
  \<open>next_free_offset\<close> that are neither a free slot nor a live block's slot stay the same in
  number; the file grows only by the blocks that find no free slot.\<close>

theorem xmp_write_space:
  assumes "os_ok E (backend_fd c) view" and "mem_safe c" and "write_room c path buf"
    and run: "xmp_write E path buf offset c = Some (r, c')"
  shows "unaccounted c' = unaccounted c"
  using assms by (rule write_space)


section \<open>The properties on a concrete store\<close>

lemma demo_room: "length buf < 2 ^ 31 \<Longrightarrow> write_room (demo_start n) path buf"
  by (simp add: write_room_def demo_start_def fresh_context_def ctr_def)

lemma demo_file_of [simp]: "file_of (demo_start n) path = new_file path"
  by (simp add: file_of_simps demo_start_def fresh_context_def)

lemma demo_nocoll: "inj_on (sha512 demo_os) (set (blocks_of (blockA @ blockB @ blockA)))"
  by (auto simp: inj_on_def)

lemma demo_write_run:
  "\<exists>c'. xmp_write demo_os ''/f'' (blockA @ blockB @ blockA) 0 (demo_start 9) = Some (12288, c') \<and>
     next_free_offset c' = 8192"
  by (simp add: xmp_write_exec demo_exec)

theorem xmp_write_mem_safe_witness:
  "\<exists>r c'. xmp_write demo_os ''/f'' blockA 0 (demo_start 0) = Some (r, c') \<and> mem_safe c' \<and>
     backend_fd c' = 3"
  using xmp_write_mem_safe [OF demo_os_ok demo_start_safe demo_room, of blockA "''/f''" 0 0]
  by (simp add: demo_start_def fresh_context_def)

theorem xmp_write_appends_witness:
  "\<exists>c'. xmp_write demo_os ''/f'' (blockA @ blockB @ blockA) 0 (demo_start 9) = Some (12288, c') \<and>
     abs_fs dk_view c' ''/f'' = Some (blockA @ blockB @ blockA)"
proof -
  obtain c' where run: "xmp_write demo_os ''/f'' (blockA @ blockB @ blockA) 0 (demo_start 9) = Some (12288, c')"
    using demo_write_run by blast
  have "abs_fs dk_view (demo_start 9) ''/f'' = None" by (simp add: demo_start_def fresh_context_def abs_fs_def)
  with xmp_write_appends [OF demo_io_ok(1) demo_start_ok demo_room _ run] demo_nocoll run show ?thesis
    by simp
qed

theorem xmp_write_rejects_witness:
  "xmp_write demo_os ''/f'' (replicate 100 0) 0 (demo_start 9) = Some (-22, demo_start 9) \<and>
   fst (the (xmp_write demo_os ''/f'' blockA 4096 (demo_start 9))) = -95"
  using xmp_write_rejects [of "replicate 100 0" 0 "demo_start 9" "''/f''" demo_os]
    xmp_write_rejects [of blockA 4096 "demo_start 9" "''/f''" demo_os]
  by simp

theorem xmp_write_dedup_witness:
  "\<exists>c'. xmp_write demo_os ''/f'' (blockA @ blockB @ blockA) 0 (demo_start 9) = Some (12288, c') \<and>
     dom (blockIndex c') = {replicate 64 7, replicate 64 9}"
proof -
  obtain c' where run: "xmp_write demo_os ''/f'' (blockA @ blockB @ blockA) 0 (demo_start 9) = Some (12288, c')"
    using demo_write_run by blast
  have "dom (blockIndex (demo_start 9)) = {}" by (simp add: demo_start_def fresh_context_def)
  with xmp_write_dedup [OF demo_io_ok(1) demo_start_ok demo_room run] run show ?thesis by auto
qed

theorem xmp_write_succeeds_witness:
  "\<exists>c'. xmp_write steady_os ''/f'' (blockA @ blockB) 0 (demo_start 0) = Some (8192, c')"
proof -
  have "\<forall>b off k. length b = 4096 \<longrightarrow>
      (\<exists>n. fst (sys_pwrite steady_os (backend_fd (demo_start 0)) b off k) = SysOk n)"
    by (simp add: steady_os_def demo_pwrite_def)
  moreover have "fst (memalign steady_os (kern (demo_start 0)))"
    by (simp add: steady_os_def demo_os_def)
  ultimately show ?thesis
    using xmp_write_succeeds [OF steady_os_ok demo_start_safe demo_room,
        where path = "''/f''" and buf = "blockA @ blockB" and offset = 0]
    by simp
qed

theorem xmp_write_space_witness:
  "\<exists>r c'. xmp_write demo_os ''/f'' blockA 0 (demo_start 0) = Some (r, c') \<and> unaccounted c' = 0"
proof -
  obtain r c' where run: "xmp_write demo_os ''/f'' blockA 0 (demo_start 0) = Some (r, c')"
    by (simp add: xmp_write_exec demo_exec)
  from xmp_write_space [OF demo_os_ok demo_start_safe demo_room run] run show ?thesis
    by (simp add: unaccounted_def used_bytes_def demo_start_def fresh_context_def)
qed

end
