(* ===== verification/Demo_Store.thy ===== *)
theory Demo_Store
  imports Dedup_Write_Spec
begin

text \<open>
  The store on which the witnesses about reading and unlinking run: the result of writing three
  blocks, the first and the third equal, to \<^verbatim>\<open>/f\<close> of an empty store.
\<close>

definition demo_filled :: "demo_kernel Context" where
  "demo_filled = snd (the (xmp_write demo_os ''/f'' (blockA @ blockB @ blockA) 0 (demo_start 9)))"

lemma demo_filled_run:
  "xmp_write demo_os ''/f'' (blockA @ blockB @ blockA) 0 (demo_start 9) = Some (12288, demo_filled)"
  using demo_write_run by (force simp: demo_filled_def)

lemma demo_digest_order [simp]: "replicate 64 (7 :: byte) \<le> replicate 64 9"
proof -
  have "replicate (Suc 63) (7 :: byte) \<le> replicate (Suc 63) 9" by (simp only: replicate_Suc) simp
  then show ?thesis by simp
qed

lemma demo_filled_state:
  "backend_fd demo_filled = 3"
  "freeList demo_filled = []"
  "next_free_offset demo_filled = 8192"
  "fileIndex demo_filled = [''/f'' \<mapsto> \<lparr>file_id = ''/f'', realSize = 8192, logicalSize = 12288, blockList = [0, 1, 0]\<rparr>]"
  "heap demo_filled = [0 \<mapsto> \<lparr>block_offset = 0, block_id = replicate 64 7, block_size = 4096, counter = 2\<rparr>,
     1 \<mapsto> \<lparr>block_offset = 4096, block_id = replicate 64 9, block_size = 4096, counter = 1\<rparr>]"
  by (simp_all add: demo_filled_def xmp_write_exec demo_exec)

lemma demo_filled_ok:
  "store_ok demo_os dk_view demo_filled"
  "abs_fs dk_view demo_filled ''/f'' = Some (blockA @ blockB @ blockA)"
proof -
  have "abs_fs dk_view (demo_start 9) ''/f'' = None"
    by (simp add: demo_start_def fresh_context_def abs_fs_def)
  with write_appends [OF demo_io_ok(1) demo_start_ok demo_room _ demo_filled_run] demo_nocoll
  show "store_ok demo_os dk_view demo_filled"
    "abs_fs dk_view demo_filled ''/f'' = Some (blockA @ blockB @ blockA)" by simp_all
qed

end
