(* ===== verification/Dedup_Read.thy ===== *)
theory Dedup_Read
  imports Store_State "HOL-Library.Monad_Syntax" Demo_Store
begin

text \<open>
  \<^verbatim>\<open>xmp_read\<close> of \<^verbatim>\<open>codededup/passthrough.c\<close>: clip the request to the file, collect the
  distinct blocks it touches (\<open>collect_unique\<close>: their read locks are taken in digest order),
  and copy from each block in turn (\<open>read_one\<close>, \<open>read_blocks\<close>). The bytes copied into the
  caller's buffer are part of the result. The theorems say that a read returns exactly the
  bytes of the file in the range asked for, that it never touches freed memory, and what it
  returns when a system call fails.
\<close>

section \<open>The handler\<close>

text \<open>\<^verbatim>\<open>g_ptr_array_index\<close>: no bounds check, so an index outside the array is undefined.\<close>

definition ptr_array_index :: "addr list \<Rightarrow> int \<Rightarrow> addr option" where
  "ptr_array_index xs i = (if 0 \<le> i \<and> i < int (length xs) then Some (xs ! nat i) else None)"

definition block_of_file :: "'k Context \<Rightarrow> filemeta \<Rightarrow> int \<Rightarrow> blockmeta option" where
  "block_of_file c f i = do { a \<leftarrow> ptr_array_index (blockList f) i; heap c a }"

fun collect_unique :: "'k Context \<Rightarrow> filemeta \<Rightarrow> int list \<Rightarrow> (hash \<rightharpoonup> blockmeta) \<Rightarrow> (hash \<rightharpoonup> blockmeta) option" where
  "collect_unique c f [] tab = Some tab"
| "collect_unique c f (i # is) tab =
     (case block_of_file c f i of
        None \<Rightarrow> None
      | Some block \<Rightarrow> collect_unique c f is (tab(block_id block \<mapsto> block)))"

text \<open>One turn of the copy loop: the error, the bytes copied, the state. The buffer keeps what was
  in it where \<^verbatim>\<open>pread\<close> returns less than a block.\<close>

definition read_one :: "'k os \<Rightarrow> blockmeta \<Rightarrow> int \<Rightarrow> int \<Rightarrow> 'k Context \<Rightarrow> int \<times> byte list \<times> 'k Context" where
  "read_one E block rs n c =
     (if backend_fd c \<noteq> -1 then
        let (aligned, k1) = memalign E (kern c) in
        if \<not> aligned then (- ENOMEM, [], c\<lparr>kern := k1\<rparr>)
        else case sys_pread E (backend_fd c) 4096 (block_offset block) k1 of
               (SysErr e, k2) \<Rightarrow> (- e, [], c\<lparr>kern := k2\<rparr>)
             | (SysOk got, k2) \<Rightarrow>
                 (let aligned_buffer = got @ drop (length got) (uninit E k1)
                  in (0, take (nat n) (drop (nat rs) aligned_buffer), c\<lparr>kern := k2\<rparr>))
      else (- EBADF, [], c))"

text \<open>Where the copy starts inside block \<open>i\<close>, and how many bytes it takes.\<close>

definition read_start_in_block :: "int \<Rightarrow> int \<Rightarrow> int" where
  "read_start_in_block offset i =
     (let block_start_logical = i * 4096
      in if offset > block_start_logical then offset - block_start_logical else 0)"

definition bytes_to_read :: "int \<Rightarrow> int \<Rightarrow> int \<Rightarrow> int \<Rightarrow> int" where
  "bytes_to_read offset i sz tot =
     (let bytes = u64 (4096 - read_start_in_block offset i)
      in if u64 (tot + bytes) > sz then u64 (sz - tot) else bytes)"

fun read_blocks :: "'k os \<Rightarrow> filemeta \<Rightarrow> int \<Rightarrow> int \<Rightarrow> int list \<Rightarrow> int \<Rightarrow> byte list \<Rightarrow> 'k Context
     \<Rightarrow> (int \<times> int \<times> byte list \<times> 'k Context) option" where
  "read_blocks E f offset sz [] tot out c = Some (0, tot, out, c)"
| "read_blocks E f offset sz (i # is) tot out c =
     (case block_of_file c f i of
        None \<Rightarrow> None
      | Some block \<Rightarrow>
          (let n = bytes_to_read offset i sz tot;
               (err, bs, c') = read_one E block (read_start_in_block offset i) n c
           in if err \<noteq> 0 then Some (err, tot, out, c')
              else read_blocks E f offset sz is (u64 (tot + n)) (out @ bs) c'))"

definition xmp_read :: "'k os \<Rightarrow> string \<Rightarrow> int \<Rightarrow> int \<Rightarrow> 'k Context \<Rightarrow> (int \<times> byte list \<times> 'k Context) option" where
  "xmp_read E path sz offset c =
     (if sz mod 4096 \<noteq> 0 then Some (- EINVAL, [], c)
      else case fileIndex c path of
        None \<Rightarrow> Some (- ENOENT, [], c)
      | Some f \<Rightarrow>
          if offset \<ge> logicalSize f then Some (0, [], c)
          else
            let sz = (if u64 (offset + sz) > u64 (logicalSize f) then u64 (logicalSize f - offset) else sz);
                start_index = s32 (tdiv offset 4096);
                end_index = s32 (u64 (offset + sz - 1) div 4096)
            in do {
              uniqueBlocks \<leftarrow> collect_unique c f [start_index..end_index] Map.empty;
              (err, tot, out, c') \<leftarrow> read_blocks E f offset sz [start_index..end_index] 0 [] c;
              Some (if err \<noteq> 0 then err else s32 tot, out, c')
            })"


section \<open>The copy loop\<close>

lemma read_one_frame:
  assumes "os_ok E (backend_fd c) view"
  shows "\<exists>err bs c'. read_one E b rs n c = (err, bs, c') \<and> err \<le> 0 \<and> kern_only view c c'"
proof (cases "backend_fd c = -1")
  case True
  then show ?thesis by (simp add: read_one_def)
next
  case False
  obtain al k1 where m: "memalign E (kern c) = (al, k1)" by (cases "memalign E (kern c)")
  obtain res k2 where p: "sys_pread E (backend_fd c) 4096 (block_offset b) k1 = (res, k2)"
    by (cases "sys_pread E (backend_fd c) 4096 (block_offset b) k1")
  have v1: "view k1 = view (kern c)" using os_ok_frame(1) [OF assms, of "kern c"] m by simp
  have v2: "view k2 = view (kern c)"
    using os_ok_frame(3) [OF assms, of 4096 "block_offset b" k1] p v1 by simp
  show ?thesis
    using False m p v1 v2 os_ok_errno(2) [OF assms, of 4096 "block_offset b" k1]
    by (cases res) (force simp: read_one_def kern_only_def)+
qed

lemma block_of_file_live:
  assumes "mem_safe c" and "fileIndex c p = Some f" and "0 \<le> i" and "i < int (length (blockList f))"
  shows "\<exists>b. block_of_file c f i = Some b \<and> heap c (blockList f ! nat i) = Some b"
proof -
  have "blockList f ! nat i \<in> set (blockList f)" using assms(3,4) by simp
  then obtain b where "heap c (blockList f ! nat i) = Some b"
    using mem_safe_block_live [OF assms(1,2)] by blast
  then show ?thesis using assms(3,4) by (simp add: block_of_file_def ptr_array_index_def)
qed

lemma collect_unique_total:
  assumes "mem_safe c" and "fileIndex c p = Some f"
    and "\<forall>i\<in>set is. 0 \<le> i \<and> i < int (length (blockList f))"
  shows "\<exists>tab'. collect_unique c f is tab = Some tab'"
  using assms(3)
proof (induction "is" arbitrary: tab)
  case (Cons i "is")
  then obtain b where "block_of_file c f i = Some b"
    using block_of_file_live [OF assms(1,2), of i] by auto
  with Cons show ?case by simp
qed simp

lemma read_blocks_total:
  assumes "os_ok E (backend_fd c) view" and "mem_safe c" and "fileIndex c p = Some f"
    and "\<forall>i\<in>set is. 0 \<le> i \<and> i < int (length (blockList f))"
  shows "\<exists>err tot1 out' c'. read_blocks E f offset sz is tot out c = Some (err, tot1, out', c') \<and>
     err \<le> 0 \<and> kern_only view c c'"
  using assms
proof (induction "is" arbitrary: tot out c)
  case Nil
  then show ?case by simp
next
  case (Cons i "is")
  obtain b where b: "block_of_file c f i = Some b"
    using block_of_file_live [OF Cons.prems(2,3), of i] Cons.prems(4) by auto
  define rs where "rs = read_start_in_block offset i"
  define n where "n = bytes_to_read offset i sz tot"
  obtain err bs c1 where o: "read_one E b rs n c = (err, bs, c1)" "err \<le> 0" "kern_only view c c1"
    using read_one_frame [OF Cons.prems(1)] by blast
  note fl = kern_only_fields [OF o(3)]
  have "\<exists>err tot1 out' c'. read_blocks E f offset sz is (u64 (tot + n)) (out @ bs) c1 = Some (err, tot1, out', c') \<and>
     err \<le> 0 \<and> kern_only view c1 c'"
    using Cons.prems fl by (intro Cons.IH) simp_all
  then show ?case
    using b o by (auto simp: rs_def [symmetric] n_def [symmetric] Let_def intro: kern_only_trans)
qed

text \<open>The bytes of block \<open>i\<close> from \<open>rs\<close> on are the bytes of the file from \<open>4096 i + rs\<close> on.\<close>

lemma file_slice:
  fixes bs :: "byte list list"
  assumes "\<And>b. b \<in> set bs \<Longrightarrow> length b = 4096" and "i < length bs" and "n + rs \<le> 4096"
  shows "take n (drop rs (bs ! i)) = take n (drop (i * 4096 + rs) (concat bs))"
proof -
  have "bs ! i = take 4096 (drop (i * 4096) (concat bs))"
    using block_at_concat [of bs i] assms(1,2) by (simp add: block_at_def)
  then show ?thesis using assms(3) by (simp add: drop_take min_def add.commute)
qed

lemma take_drop_extend:
  "t \<le> t' \<Longrightarrow> take t (drop p xs) @ take (t' - t) (drop (p + t) xs) = take t' (drop p xs)"
  by (metis add.commute drop_drop le_add_diff_inverse take_add)

lemma file_blocks:
  assumes ok: "store_ok E view c" and f: "fileIndex c p = Some f"
  shows "\<And>b. b \<in> set (map (block_data view c) (blockList f)) \<Longrightarrow> length b = 4096"
    and "length (file_data view c f) = 4096 * length (blockList f)"
    and "logicalSize f = int (length (file_data view c f))"
proof -
  have safe: "mem_safe c" and cont: "content_ok E view c (dom (heap c))" and szs: "sizes_ok c"
    using ok by (simp_all add: store_ok_def exact_store_def)
  show len: "length b = 4096" if "b \<in> set (map (block_data view c) (blockList f))" for b
    using that mem_safe_block_live [OF safe f] content_okD(2) [OF cont] by fastforce
  show "length (file_data view c f) = 4096 * length (blockList f)"
    unfolding file_data_def by (subst length_concat_blocks [where n = 4096]) (use len in auto)
  then show "logicalSize f = int (length (file_data view c f))"
    using szs f by (simp add: sizes_ok_def)
qed

text \<open>One turn on a consistent store copies the right slice.\<close>

lemma read_one_slice:
  assumes io: "io_ok E (backend_fd c) view" and ok: "store_ok E view c" and f: "fileIndex c p = Some f"
    and i: "i < length (blockList f)" and b: "block_of_file c f (int i) = Some b" and n: "n + rs \<le> 4096"
    and run: "read_one E b (int rs) (int n) c = (0, bs, c')"
  shows "bs = take n (drop (i * 4096 + rs) (file_data view c f))"
proof -
  let ?a = "blockList f ! i"
  have E: "os_ok E (backend_fd c) view" using io by (rule io_ok_os)
  have ha: "heap c ?a = Some b" using b i by (simp add: block_of_file_def ptr_array_index_def)
  have fd: "backend_fd c \<noteq> -1" and cont: "content_ok E view c (dom (heap c))"
    using ok by (simp_all add: store_ok_def)
  obtain al k1 where m: "memalign E (kern c) = (al, k1)" by (cases "memalign E (kern c)")
  have al using run fd m by (auto simp: read_one_def split: if_splits)
  obtain res k2 where res: "sys_pread E (backend_fd c) 4096 (block_offset b) k1 = (res, k2)"
    by (cases "sys_pread E (backend_fd c) 4096 (block_offset b) k1")
  obtain d where p: "sys_pread E (backend_fd c) 4096 (block_offset b) k1 = (SysOk d, k2)"
    "bs = take n (drop rs (d @ drop (length d) (uninit E k1)))"
  proof (cases res)
    case (SysErr e)
    with res have "0 < e" using os_ok_errno(2) [OF E] by blast
    then show ?thesis using run fd m \<open>al\<close> res SysErr by (simp add: read_one_def)
  next
    case (SysOk d)
    then show ?thesis using run fd m \<open>al\<close> res that [of d] by (simp add: read_one_def Let_def)
  qed
  have "view k1 = view (kern c)" using os_ok_frame(1) [OF E, of "kern c"] m by simp
  then have va: "view k1 (block_offset b) = Some (block_data view c ?a)"
    using content_okD(1) [OF cont domI [of "heap c", OF ha] ha] by simp
  have l: "length (block_data view c ?a) = 4096" using content_okD(2) [OF cont domI [of "heap c", OF ha] ha] .
  have d0: "d = block_data view c ?a" using io va l p(1) by (rule io_ok_pread)
  then have "drop (length d) (uninit E k1) = []" using l os_ok_uninit [OF E, of k1] by simp
  then have bs: "bs = take n (drop rs d)" using p(2) by simp
  have d: "d = map (block_data view c) (blockList f) ! i" using d0 i by simp
  have "take n (drop rs d) = take n (drop (i * 4096 + rs) (concat (map (block_data view c) (blockList f))))"
    unfolding d
  proof (rule file_slice)
    show "i < length (map (block_data view c) (blockList f))" using i by simp
  qed (fact file_blocks(1) [OF ok f], fact n)
  then show ?thesis by (simp only: bs file_data_def)
qed

lemma read_blocks_content:
  assumes "io_ok E (backend_fd c) view" and "store_ok E view c" and "fileIndex c p = Some f"
    and "off + s \<le> length (file_data view c f)" and "0 < s" and "s < 2 ^ 31"
    and e: "e = (off + s - 1) div 4096"
    and "t \<le> s" and "off div 4096 \<le> i" and "i \<le> e \<Longrightarrow> max off (4096 * i) = off + t" and "e < i \<Longrightarrow> t = s"
    and "read_blocks E f (int off) (int s) [int i..int e] (int t) out c = Some (0, tot1, out', c')"
  shows "tot1 = int s \<and> out' = out @ take (s - t) (drop (off + t) (file_data view c f))"
  using assms
proof (induction "Suc e - i" arbitrary: i t out c)
  case 0
  then have "e < i" by simp
  with "0.prems" show ?case by simp
next
  case (Suc m)
  then have ie: "i \<le> e" by simp
  let ?rs = "off + t - 4096 * i" and ?n = "min (4096 * Suc i - (off + t)) (s - t)"
  have pos: "max off (4096 * i) = off + t" by (rule Suc.prems(10) [OF ie])
  have "off < 4096 * Suc i" using Suc.prems(9) div_less_iff_less_mult [of 4096 off "Suc i"] by simp
  then have lt: "off + t < 4096 * Suc i" "4096 * i \<le> off + t"
    using pos by (simp_all add: max_def split: if_splits)
  have li: "i < length (blockList f)"
  proof -
    have "4096 * e \<le> off + s - 1" by (simp add: Suc.prems(7))
    then show ?thesis using ie Suc.prems(4,5) file_blocks(2) [OF Suc.prems(2,3)] by linarith
  qed
  have safe: "mem_safe c" using Suc.prems(2) by (simp add: store_ok_def)
  obtain b where b: "block_of_file c f (int i) = Some b"
    using block_of_file_live [OF safe Suc.prems(3), of "int i"] li by auto
  have rs: "read_start_in_block (int off) (int i) = int ?rs"
    using pos by (auto simp: read_start_in_block_def max_def split: if_splits)
  have b0: "u64 (4096 - int ?rs) = int (4096 * Suc i - (off + t))"
    using lt by (subst u64_id) auto
  have n: "bytes_to_read (int off) (int i) (int s) (int t) = int ?n"
  proof -
    have "s < 2147483648" using Suc.prems(6) by simp
    moreover have "4096 * Suc i - (off + t) \<le> 4096" using lt by simp
    ultimately have "t + (4096 * Suc i - (off + t)) < 2147487744" using Suc.prems(8) by linarith
    then have "int t + int (4096 * Suc i - (off + t)) < 2147487744" by (metis of_nat_add of_nat_less_numeral_iff)
    then have "u64 (int t + int (4096 * Suc i - (off + t))) = int t + int (4096 * Suc i - (off + t))"
      by (intro u64_id) simp_all
    moreover have "u64 (int s - int t) = int (s - t)" using Suc.prems(6,8) by (subst u64_id) auto
    ultimately show ?thesis using Suc.prems(8) unfolding bytes_to_read_def Let_def rs b0 by auto
  qed
  have tot: "u64 (int t + int ?n) = int (t + ?n)" using Suc.prems(6,8) by (subst u64_id) auto
  obtain err bs c1 where o: "read_one E b (int ?rs) (int ?n) c = (err, bs, c1)" "kern_only view c c1"
    using read_one_frame [OF io_ok_os [OF Suc.prems(1)], of b "int ?rs" "int ?n"] by auto
  have up: "[int i..int e] = int i # [int (Suc i)..int e]" using ie by (simp add: upto_rec1 add.commute)
  have err: "err = 0" and run: "read_blocks E f (int off) (int s) [int (Suc i)..int e] (int (t + ?n)) (out @ bs) c1
      = Some (0, tot1, out', c')"
    using Suc.prems(12) b o(1) tot
    by (auto simp: up rs n Let_def split: if_splits simp del: of_nat_Suc of_nat_add of_nat_min)
  have sl: "bs = take ?n (drop (i * 4096 + ?rs) (file_data view c f))"
    by (rule read_one_slice [OF Suc.prems(1-3) li b]) (use lt o(1) err in auto)
  have at: "i * 4096 + ?rs = off + t" using lt by simp
  note fl = kern_only_fields [OF o(2)] kern_only_store [OF o(2)]
  have "block_data view c1 = block_data view c" by (rule block_data_same_view [OF fl(4) fl(1)])
  then have data: "file_data view c1 f = file_data view c f" by (simp only: file_data_def)
  have "tot1 = int s \<and> out' = (out @ bs) @ take (s - (t + ?n)) (drop (off + (t + ?n)) (file_data view c1 f))"
  proof (rule Suc.hyps(1) [OF _ _ _ _ _ Suc.prems(5,6,7) _ _ _ _ run])
    show "m = Suc e - Suc i" using Suc.hyps(2) by simp
    show "io_ok E (backend_fd c1) view" "store_ok E view c1" "fileIndex c1 p = Some f"
      using Suc.prems(1-3) fl by simp_all
    show "off + s \<le> length (file_data view c1 f)" using Suc.prems(4) data by simp
    show "t + ?n \<le> s" using Suc.prems(8) by simp
    show "off div 4096 \<le> Suc i" using Suc.prems(9) by simp
    show "max off (4096 * Suc i) = off + (t + ?n)" if "Suc i \<le> e"
    proof -
      have "4096 * Suc i \<le> 4096 * e" using that by simp
      also have "\<dots> \<le> off + s - 1" by (simp add: Suc.prems(7))
      finally show ?thesis using lt by linarith
    qed
    show "t + ?n = s" if "e < Suc i"
    proof -
      have "e = i" using that ie by simp
      moreover have "off + s - 1 < 4096 * Suc e" by (simp add: Suc.prems(7) dividend_less_times_div)
      ultimately show ?thesis using lt Suc.prems(5,8) by simp
    qed
  qed
  moreover have "take ?n (drop (off + t) X) @ take (s - (t + ?n)) (drop (off + (t + ?n)) X)
      = take (s - t) (drop (off + t) X)" for X :: "byte list"
    using take_drop_extend [of ?n "s - t" "off + t" X] Suc.prems(8) by (simp add: add.assoc)
  ultimately show ?case using sl at data by simp
qed

section \<open>How much is copied\<close>

lemma bytes_to_read_bounds:
  assumes "0 \<le> offset" and "offset div 4096 \<le> i" and "0 \<le> tot" and "tot \<le> sz" and "sz < 2 ^ 31"
  shows "0 \<le> read_start_in_block offset i" and "0 \<le> bytes_to_read offset i sz tot"
    and "read_start_in_block offset i + bytes_to_read offset i sz tot \<le> 4096"
    and "tot + bytes_to_read offset i sz tot \<le> sz"
proof -
  show r0: "0 \<le> read_start_in_block offset i" by (simp add: read_start_in_block_def Let_def)
  have "4096 * (offset div 4096) \<le> 4096 * i" using assms(2) by (rule mult_left_mono) simp
  then have "offset < 4096 * i + 4096" using div_block(2) [of offset] by simp
  then have r1: "read_start_in_block offset i < 4096" by (simp add: read_start_in_block_def Let_def)
  have b: "u64 (4096 - read_start_in_block offset i) = 4096 - read_start_in_block offset i"
    using r0 r1 by (intro u64_id) simp_all
  have t: "u64 (tot + (4096 - read_start_in_block offset i)) = tot + (4096 - read_start_in_block offset i)"
    using r0 r1 assms(3-5) by (intro u64_id) simp_all
  have s: "u64 (sz - tot) = sz - tot" using assms(3-5) by (intro u64_id) simp_all
  have n: "bytes_to_read offset i sz tot = min (4096 - read_start_in_block offset i) (sz - tot)"
    by (simp add: bytes_to_read_def Let_def b t s min_def)
  show "0 \<le> bytes_to_read offset i sz tot" "read_start_in_block offset i + bytes_to_read offset i sz tot \<le> 4096"
    "tot + bytes_to_read offset i sz tot \<le> sz"
    using n r0 r1 assms(4) by (simp_all add: min_def)
qed

lemma read_one_length:
  assumes E: "os_ok E (backend_fd c) view" and "0 \<le> rs" and "0 \<le> n" and "rs + n \<le> 4096"
    and run: "read_one E b rs n c = (0, bs, c')"
  shows "int (length bs) = n"
proof -
  obtain al k1 where m: "memalign E (kern c) = (al, k1)" by (cases "memalign E (kern c)")
  obtain res k2 where p: "sys_pread E (backend_fd c) 4096 (block_offset b) k1 = (res, k2)"
    by (cases "sys_pread E (backend_fd c) 4096 (block_offset b) k1")
  show ?thesis
  proof (cases res)
    case (SysErr e)
    then show ?thesis using run m p os_ok_errno(2) [OF E, of 4096 "block_offset b" k1]
      by (auto simp: read_one_def split: if_splits)
  next
    case (SysOk d)
    then have "length d \<le> 4096" using os_ok_pread_length [OF E, of 4096] p by blast
    then have "length (d @ drop (length d) (uninit E k1)) = 4096" using os_ok_uninit [OF E, of k1] by simp
    moreover have "bs = take (nat n) (drop (nat rs) (d @ drop (length d) (uninit E k1)))"
      using run m p SysOk by (simp add: read_one_def Let_def split: if_splits)
    ultimately show ?thesis using assms(2-4) by simp
  qed
qed

lemma read_blocks_length:
  assumes "os_ok E (backend_fd c) view" and "0 \<le> offset" and "\<forall>i\<in>set is. offset div 4096 \<le> i"
    and "int (length out) = tot" and "tot \<le> sz" and "sz < 2 ^ 31"
    and "read_blocks E f offset sz is tot out c = Some (err, tot1, out', c')"
  shows "int (length out') = tot1 \<and> tot1 \<le> sz"
  using assms
proof (induction "is" arbitrary: tot out c)
  case Nil
  then show ?case by simp
next
  case (Cons i "is")
  let ?n = "bytes_to_read offset i sz tot" and ?rs = "read_start_in_block offset i"
  have t0: "0 \<le> tot" using Cons.prems(4) by simp
  have i: "offset div 4096 \<le> i" using Cons.prems(3) by simp
  note nb = bytes_to_read_bounds [OF Cons.prems(2) i t0 Cons.prems(5,6)]
  obtain b where b: "block_of_file c f i = Some b"
    using Cons.prems(7) by (auto split: option.splits)
  obtain e1 bs c1 where o: "read_one E b ?rs ?n c = (e1, bs, c1)" "kern_only view c c1"
    using read_one_frame [OF Cons.prems(1), of b ?rs ?n] by blast
  show ?case
  proof (cases "e1 = 0")
    case False
    then show ?thesis using Cons.prems(4,5,7) b o(1) by (auto simp: Let_def)
  next
    case True
    have len: "int (length bs) = ?n" using read_one_length [OF Cons.prems(1) nb(1-3)] o(1) True by blast
    have u: "u64 (tot + ?n) = tot + ?n" using nb(2,4) t0 Cons.prems(6) by (intro u64_id) simp_all
    have run: "read_blocks E f offset sz is (tot + ?n) (out @ bs) c1 = Some (err, tot1, out', c')"
      using Cons.prems(7) b o(1) True u by (simp add: Let_def)
    show ?thesis
    proof (rule Cons.IH [OF _ Cons.prems(2) _ _ _ Cons.prems(6) run])
      show "os_ok E (backend_fd c1) view" using Cons.prems(1) kern_only_fields(2) [OF o(2)] by simp
    qed (use Cons.prems(3,4) len nb(4) in auto)
  qed
qed

section \<open>The contract of a read\<close>

text \<open>The clipped size of a request, the number of bytes it can return, and the blocks it touches.\<close>

definition clip_size :: "filemeta \<Rightarrow> int \<Rightarrow> int \<Rightarrow> int" where
  "clip_size f sz offset = min sz (logicalSize f - offset)"

text \<open>Requests for which none of the handler's integer conversions loses anything: FUSE hands over
  at most \<open>2 ^ 31\<close> bytes and a non-negative offset, and the file has at most \<open>2 ^ 43\<close> bytes
  (so that a block index fits an \<^verbatim>\<open>int\<close>).\<close>

definition read_fits :: "'k Context \<Rightarrow> string \<Rightarrow> int \<Rightarrow> int \<Rightarrow> bool" where
  "read_fits c path sz offset \<longleftrightarrow> 0 \<le> offset \<and> 0 \<le> sz \<and> sz < 2 ^ 31 \<and>
     (case fileIndex c path of None \<Rightarrow> True | Some f \<Rightarrow> logicalSize f \<le> 2 ^ 43)"

lemma read_indices:
  assumes "0 \<le> offset" and "0 \<le> sz" and "sz < 2 ^ 31" and "logicalSize f \<le> 2 ^ 43" and "offset < logicalSize f"
  shows "(if u64 (offset + sz) > u64 (logicalSize f) then u64 (logicalSize f - offset) else sz) = clip_size f sz offset"
    and "s32 (tdiv offset 4096) = offset div 4096"
    and "0 < sz \<Longrightarrow> s32 (u64 (offset + clip_size f sz offset - 1) div 4096) = (offset + clip_size f sz offset - 1) div 4096"
    and "\<forall>i \<in> set [offset div 4096..s32 (u64 (offset + clip_size f sz offset - 1) div 4096)].
      offset div 4096 \<le> i \<and> 4096 * i < logicalSize f"
proof -
  let ?s = "clip_size f sz offset"
  have b: "0 \<le> offset" "0 \<le> sz" "sz < 2147483648" "logicalSize f \<le> 8796093022208" "offset < logicalSize f" using assms by simp_all
  show "(if u64 (offset + sz) > u64 (logicalSize f) then u64 (logicalSize f - offset) else sz) = ?s"
    using b by (simp add: clip_size_def u64_id)
  show "s32 (tdiv offset 4096) = offset div 4096"
    using b by (simp add: tdiv_nonneg s32_id div_less_iff_less_mult)
  have s0: "0 \<le> ?s" "?s \<le> logicalSize f - offset" "0 < sz \<Longrightarrow> 0 < ?s" using b by (auto simp: clip_size_def)
  let ?e = "s32 (u64 (offset + ?s - 1) div 4096)"
  have e: "?e = (offset + ?s - 1) div 4096" if "0 \<le> offset + ?s - 1"
  proof -
    have "u64 (offset + ?s - 1) = offset + ?s - 1" using that s0 b by (intro u64_id) simp_all
    then show ?thesis using that s0 b by (simp add: s32_id div_less_iff_less_mult)
  qed
  then show "0 < sz \<Longrightarrow> ?e = (offset + ?s - 1) div 4096" using s0 b by auto
  have e0: "?e = -1" if "offset + ?s - 1 < 0"
  proof -
    have "offset + ?s - 1 = -1" using that s0(1) b(1) by linarith
    then show ?thesis by (simp add: u64_def s32_def)
  qed
  show "\<forall>i \<in> set [offset div 4096..?e]. offset div 4096 \<le> i \<and> 4096 * i < logicalSize f"
  proof
    fix i assume "i \<in> set [offset div 4096..?e]"
    then have i: "offset div 4096 \<le> i" "i \<le> ?e" by simp_all
    moreover have "0 \<le> offset div 4096" using b by simp
    ultimately have "0 \<le> offset + ?s - 1" using e0 by linarith
    with i e have "i \<le> (offset + ?s - 1) div 4096" by simp
    then have "4096 * i \<le> offset + ?s - 1" using div_block(1) [of "offset + ?s - 1"] by linarith
    with i s0(2) show "offset div 4096 \<le> i \<and> 4096 * i < logicalSize f" by linarith
  qed
qed

lemma xmp_read_in_file:
  assumes fits: "read_fits c path sz offset" and f: "fileIndex c path = Some f" and mod: "sz mod 4096 = 0"
    and lt: "offset < logicalSize f"
  shows "\<exists>is. (0 < sz \<longrightarrow> is = [offset div 4096..(offset + clip_size f sz offset - 1) div 4096]) \<and>
     (\<forall>i\<in>set is. offset div 4096 \<le> i \<and> 4096 * i < logicalSize f) \<and>
     xmp_read E path sz offset c = do {
       _ \<leftarrow> collect_unique c f is Map.empty;
       (err, tot, out, c') \<leftarrow> read_blocks E f offset (clip_size f sz offset) is 0 [] c;
       Some (if err \<noteq> 0 then err else s32 tot, out, c') }"
proof -
  let ?s = "clip_size f sz offset"
  have b: "0 \<le> offset" "0 \<le> sz" "sz < 2 ^ 31" "logicalSize f \<le> 2 ^ 43" using fits f by (simp_all add: read_fits_def)
  note ix = read_indices [OF b lt]
  let ?e = "s32 (u64 (offset + ?s - 1) div 4096)"
  have "xmp_read E path sz offset c = do {
       _ \<leftarrow> collect_unique c f [offset div 4096..?e] Map.empty;
       (err, tot, out, c') \<leftarrow> read_blocks E f offset ?s [offset div 4096..?e] 0 [] c;
       Some (if err \<noteq> 0 then err else s32 tot, out, c') }"
    unfolding xmp_read_def Let_def using mod f lt ix(1,2) by simp
  then show ?thesis using ix(3,4) by (intro exI [of _ "[offset div 4096..?e]"] conjI) simp_all
qed

lemma xmp_read_total:
  assumes E: "os_ok E (backend_fd c) view" and safe: "mem_safe c" and fits: "read_fits c path sz offset"
  obtains r out c' where "xmp_read E path sz offset c = Some (r, out, c')" "kern_only view c c'"
    "int (length out) \<le> sz" "0 \<le> r \<Longrightarrow> r = int (length out)"
proof (cases "sz mod 4096 = 0 \<and> (\<exists>f. fileIndex c path = Some f \<and> offset < logicalSize f)")
  case False
  then have "\<exists>r\<le>0. xmp_read E path sz offset c = Some (r, [], c)"
    by (cases "fileIndex c path") (auto simp: xmp_read_def)
  then obtain r where "xmp_read E path sz offset c = Some (r, [], c)" "r \<le> 0" by blast
  then show ?thesis using that [of r "[]" c] fits by (simp add: read_fits_def)
next
  case True
  then obtain f where f: "sz mod 4096 = 0" "fileIndex c path = Some f" "offset < logicalSize f" by (elim conjE exE) rule
  obtain "is" where i: "\<forall>i\<in>set is. offset div 4096 \<le> i \<and> 4096 * i < logicalSize f"
    "xmp_read E path sz offset c = do {
       _ \<leftarrow> collect_unique c f is Map.empty;
       (err, tot, out, c') \<leftarrow> read_blocks E f offset (clip_size f sz offset) is 0 [] c;
       Some (if err \<noteq> 0 then err else s32 tot, out, c') }"
    using xmp_read_in_file [OF fits f(2,1,3)] by blast
  have b: "0 \<le> offset" "0 \<le> sz" "sz < 2147483648" using fits by (simp_all add: read_fits_def)
  then have p: "0 \<le> offset div 4096" by simp
  have ls: "logicalSize f \<le> 4096 * int (length (blockList f))"
    using safe f(2) by (simp add: mem_safe_def files_ok_def)
  have ix: "\<forall>i\<in>set is. 0 \<le> i \<and> i < int (length (blockList f))"
  proof
    fix j assume "j \<in> set is"
    then have "offset div 4096 \<le> j" "4096 * j < logicalSize f" using i(1) by auto
    then show "0 \<le> j \<and> j < int (length (blockList f))" using p ls by linarith
  qed
  obtain tab where tab: "collect_unique c f is Map.empty = Some tab"
    using collect_unique_total [OF safe f(2) ix] by blast
  obtain err tot out c' where r: "read_blocks E f offset (clip_size f sz offset) is 0 [] c = Some (err, tot, out, c')"
    "err \<le> 0" "kern_only view c c'"
    using read_blocks_total [OF E safe f(2) ix] by blast
  have cs: "clip_size f sz offset \<le> sz" "0 \<le> clip_size f sz offset" "clip_size f sz offset < 2 ^ 31"
    using b f(3) by (auto simp: clip_size_def)
  have len: "int (length out) = tot \<and> tot \<le> clip_size f sz offset"
    by (rule read_blocks_length [OF E b(1) _ _ _ _ r(1)]) (use i(1) cs in auto)
  have "s32 tot = tot" using len cs b by (intro s32_id) auto
  with i(2) tab r(1) have "xmp_read E path sz offset c = Some (if err \<noteq> 0 then err else tot, out, c')"
    by simp
  then show ?thesis using that r(2,3) len cs(1) by (cases "err = 0") auto
qed

text \<open>What a read that reports success has returned.\<close>

lemma read_success:
  assumes io: "io_ok E (backend_fd c) view" and ok: "store_ok E view c" and fits: "read_fits c path sz offset"
    and run: "xmp_read E path sz offset c = Some (r, out, c')" and r: "0 \<le> r"
    and f: "fileIndex c path = Some f"
  shows "out = take (nat sz) (drop (nat offset) (file_data view c f))"
proof -
  have E: "os_ok E (backend_fd c) view" using io by (rule io_ok_os)
  have safe: "mem_safe c" using ok by (simp add: store_ok_def)
  have mod: "sz mod 4096 = 0" using run r by (auto simp: xmp_read_def split: if_splits)
  have b: "0 \<le> offset" "0 \<le> sz" "sz < 2 ^ 31" using fits by (simp_all add: read_fits_def)
  have ls: "logicalSize f = int (length (file_data view c f))" by (rule file_blocks(3) [OF ok f])
  consider "sz = 0" | "0 < sz" "logicalSize f \<le> offset" | "0 < sz" "offset < logicalSize f"
    using b(2) by linarith
  then show ?thesis
  proof cases
    case 1
    then show ?thesis using xmp_read_total [OF E safe fits] run by (metis length_0_conv nat_0 of_nat_le_0_iff prod.inject option.inject take0)
  next
    case 2
    then show ?thesis using run f mod ls by (auto simp: xmp_read_def)
  next
    case 3
    let ?s = "clip_size f sz offset"
    have s: "0 < ?s" "?s \<le> sz" "offset + ?s \<le> logicalSize f" using 3 by (auto simp: clip_size_def)
    obtain "is" where i: "is = [offset div 4096..(offset + ?s - 1) div 4096]"
      "xmp_read E path sz offset c = do {
         _ \<leftarrow> collect_unique c f is Map.empty;
         (err, tot, out, c') \<leftarrow> read_blocks E f offset ?s is 0 [] c;
         Some (if err \<noteq> 0 then err else s32 tot, out, c') }"
      using xmp_read_in_file [OF fits f mod 3(2)] 3(1) by blast
    obtain err tot where x: "read_blocks E f offset ?s is 0 [] c = Some (err, tot, out, c')"
      "r = (if err \<noteq> 0 then err else s32 tot)"
      using run i(2) by (auto split: bind_splits)
    have "err \<le> 0"
    proof -
      have "\<forall>j\<in>set is. 0 \<le> j \<and> j < int (length (blockList f))"
      proof
        fix j assume "j \<in> set is"
        then have j: "offset div 4096 \<le> j" "j \<le> (offset + ?s - 1) div 4096" by (simp_all add: i(1))
        have "0 \<le> offset div 4096" using b(1) by simp
        moreover have "4096 * j \<le> 4096 * ((offset + ?s - 1) div 4096)" using j(2) by simp
        moreover have "logicalSize f = 4096 * int (length (blockList f))"
          using ls file_blocks(2) [OF ok f] by simp
        ultimately show "0 \<le> j \<and> j < int (length (blockList f))"
          using j(1) s(3) div_block(1) [of "offset + ?s - 1"] by auto
      qed
      from read_blocks_total [OF E safe f this, of offset ?s 0 "[]"] x(1) show ?thesis by auto
    qed
    then have err: "err = 0" using x(2) r by (cases "err = 0") auto
    have n: "int (nat offset) = offset" "int (nat ?s) = ?s" using b(1) s(1) by simp_all
    let ?e = "(nat offset + nat ?s - 1) div 4096"
    have e: "int ?e = (offset + ?s - 1) div 4096" using b(1) s(1) by (simp add: zdiv_int of_nat_diff)
    have "tot = int (nat ?s) \<and> out = [] @ take (nat ?s - 0) (drop (nat offset + 0) (file_data view c f))"
    proof (rule read_blocks_content [OF io ok f, where e = ?e and i = "nat offset div 4096"])
      show "nat offset + nat ?s \<le> length (file_data view c f)" using s(1,3) ls b(1) by linarith
      show "nat ?s < 2 ^ 31" using s(1,2) b(3) by auto
      show "?e < nat offset div 4096 \<Longrightarrow> 0 = nat ?s" using s(1) div_le_mono [of "nat offset" "nat offset + nat ?s - 1" 4096] by linarith
      have st: "int (nat offset div 4096) = offset div 4096" using b(1) by (simp add: zdiv_int)
      have "read_blocks E f offset ?s [offset div 4096..(offset + ?s - 1) div 4096] 0 [] c = Some (0, tot, out, c')"
        using x(1) unfolding i(1) err .
      then show "read_blocks E f (int (nat offset)) (int (nat ?s)) [int (nat offset div 4096)..int ?e] (int 0) [] c
          = Some (0, tot, out, c')" unfolding st e n by (simp only: int_ops(1))
    qed (use s(1) in auto)
    then have "out = take (nat ?s) (drop (nat offset) (file_data view c f))" by simp
    also have "\<dots> = take (nat sz) (drop (nat offset) (file_data view c f))"
      using ls b(1) 3 by (auto simp: clip_size_def min_def)
    finally show ?thesis .
  qed
qed

text \<open>C13. A read never touches freed memory and never leaves the caller's buffer: on any store whose
  index is sound, whatever the system calls return, the call comes back, it copies at most
  the number of bytes asked for, a non-negative result is the number of bytes copied, and nothing but
  the kernel's own state has changed.\<close>

theorem xmp_read_safe:
  assumes "os_ok E (backend_fd c) view" and "mem_safe c" and "read_fits c path sz offset"
  shows "\<exists>r out k. xmp_read E path sz offset c = Some (r, out, c\<lparr>kern := k\<rparr>) \<and>
    int (length out) \<le> sz \<and> (0 \<le> r \<longrightarrow> r = int (length out)) \<and> view k = view (kern c)"
  by (rule xmp_read_total [OF assms]) (auto simp: kern_only_def)

lemma read_returns_data:
  assumes "io_ok E (backend_fd c) view" and "store_ok E view c" and "read_fits c path sz offset"
    and "xmp_read E path sz offset c = Some (r, out, c')" and "0 \<le> r"
    and "abs_fs view c path = Some data"
  shows "out = take (nat sz) (drop (nat offset) data) \<and> r = int (length out) \<and>
    store_ok E view c' \<and> abs_fs view c' = abs_fs view c"
proof -
  obtain f where f: "fileIndex c path = Some f" "data = file_data view c f"
    using assms(6) by (auto simp: abs_fs_def)
  have "mem_safe c" using assms(2) by (simp add: store_ok_def)
  then obtain r' out' c'' where t: "xmp_read E path sz offset c = Some (r', out', c'')" "kern_only view c c''"
    "0 \<le> r' \<Longrightarrow> r' = int (length out')"
    by (rule xmp_read_total [OF io_ok_os [OF assms(1)] _ assms(3)]) (rule that, blast+)
  then show ?thesis
    using read_success [OF assms(1-5) f(1)] kern_only_store [OF t(2)] assms(2,4,5) f(2) by simp
qed

text \<open>C3. A read that reports success returns the file's bytes: the range asked for, cut at the end
  of the file, across block borders and from a start inside a block; the file system holds what it
  held.\<close>

theorem xmp_read_returns_data:
  assumes "io_ok E (backend_fd c) view" and "store_ok E view c" and "read_fits c path sz offset"
    and "xmp_read E path sz offset c = Some (r, out, c')" and "0 \<le> r"
    and "abs_fs view c path = Some data"
  shows "out = take (nat sz) (drop (nat offset) data) \<and> r = int (length out) \<and>
    store_ok E view c' \<and> abs_fs view c' = abs_fs view c"
  using assms by (rule read_returns_data)

lemma read_one_works:
  assumes "backend_fd c \<noteq> -1" and "\<forall>k. fst (memalign E k)"
    and "\<forall>off k. \<exists>b. fst (sys_pread E (backend_fd c) 4096 off k) = SysOk b"
  shows "\<exists>bs c'. read_one E b rs n c = (0, bs, c')"
proof -
  obtain k1 where m: "memalign E (kern c) = (True, k1)" using assms(2) by (metis prod.collapse)
  obtain d k2 where "sys_pread E (backend_fd c) 4096 (block_offset b) k1 = (SysOk d, k2)"
    using assms(3) by (metis prod.collapse)
  then show ?thesis using assms(1) m by (simp add: read_one_def Let_def)
qed

lemma read_blocks_works:
  assumes "os_ok E (backend_fd c) view" and "mem_safe c" and "fileIndex c p = Some f"
    and "\<forall>i\<in>set is. 0 \<le> i \<and> i < int (length (blockList f))"
    and "backend_fd c \<noteq> -1" and "\<forall>k. fst (memalign E k)"
    and "\<forall>off k. \<exists>b. fst (sys_pread E (backend_fd c) 4096 off k) = SysOk b"
    and "read_blocks E f offset sz is tot out c = Some (err, x)"
  shows "err = 0"
  using assms
proof (induction "is" arbitrary: tot out c)
  case (Cons i "is")
  obtain b where b: "block_of_file c f i = Some b"
    using block_of_file_live [OF Cons.prems(2,3), of i] Cons.prems(4) by auto
  obtain bs c1 where o: "read_one E b (read_start_in_block offset i) (bytes_to_read offset i sz tot) c = (0, bs, c1)"
    "kern_only view c c1"
    using read_one_frame [OF Cons.prems(1)] read_one_works [OF Cons.prems(5-7)] by (metis prod.inject)
  note fl = kern_only_fields [OF o(2)]
  show ?case using Cons.prems(1-8) b o(1) fl by (intro Cons.IH [of c1]) (simp_all add: Let_def)
qed simp

lemma read_succeeds:
  assumes io: "io_ok E (backend_fd c) view" and ok: "store_ok E view c" and fits: "read_fits c path sz offset"
    and mod: "4096 dvd sz" and data: "abs_fs view c path = Some data"
    and mem: "\<forall>k. fst (memalign E k)"
    and dev: "\<forall>off k. \<exists>b. fst (sys_pread E (backend_fd c) 4096 off k) = SysOk b"
  shows "\<exists>c'. xmp_read E path sz offset c =
    (let out = take (nat sz) (drop (nat offset) data) in Some (int (length out), out, c'))"
proof -
  have E: "os_ok E (backend_fd c) view" using io by (rule io_ok_os)
  have safe: "mem_safe c" and fd: "backend_fd c \<noteq> -1" using ok by (simp_all add: store_ok_def)
  obtain f where f: "fileIndex c path = Some f" "data = file_data view c f"
    using data by (auto simp: abs_fs_def)
  have m: "sz mod 4096 = 0" using mod by presburger
  obtain r out c' where t: "xmp_read E path sz offset c = Some (r, out, c')"
    "0 \<le> r \<Longrightarrow> r = int (length out)"
    by (rule xmp_read_total [OF E safe fits]) (rule that, blast+)
  have "0 \<le> r"
  proof (cases "offset < logicalSize f")
    case False
    then show ?thesis using t(1) f m by (simp add: xmp_read_def)
  next
    case True
    let ?s = "clip_size f sz offset"
    obtain "is" where i: "\<forall>i\<in>set is. offset div 4096 \<le> i \<and> 4096 * i < logicalSize f"
      "xmp_read E path sz offset c = do {
         _ \<leftarrow> collect_unique c f is Map.empty;
         (err, tot, out, c') \<leftarrow> read_blocks E f offset ?s is 0 [] c;
         Some (if err \<noteq> 0 then err else s32 tot, out, c') }"
      using xmp_read_in_file [OF fits f(1) m True] by blast
    obtain err tot where x: "read_blocks E f offset ?s is 0 [] c = Some (err, tot, out, c')"
      "r = (if err \<noteq> 0 then err else s32 tot)"
      using t(1) i(2) by (auto split: bind_splits)
    have b: "0 \<le> offset" "0 \<le> sz" "sz < 2 ^ 31" using fits by (simp_all add: read_fits_def)
    have sz: "logicalSize f = 4096 * int (length (blockList f))"
      using file_blocks(2,3) [OF ok f(1)] by simp
    have p: "0 \<le> offset div 4096" using b(1) by simp
    have ix: "\<forall>j\<in>set is. 0 \<le> j \<and> j < int (length (blockList f))"
    proof
      fix j assume "j \<in> set is"
      then have "offset div 4096 \<le> j" "4096 * j < logicalSize f" using i(1) by auto
      then show "0 \<le> j \<and> j < int (length (blockList f))" using p sz by simp
    qed
    have "err = 0" by (rule read_blocks_works [OF E safe f(1) ix fd mem dev x(1)])
    moreover have "int (length out) = tot \<and> tot \<le> ?s"
      by (rule read_blocks_length [OF E b(1) _ _ _ _ x(1)])
         (use i(1) b True in \<open>auto simp: clip_size_def\<close>)
    moreover have "?s \<le> sz" by (simp add: clip_size_def)
    ultimately show ?thesis using x(2) b by (auto simp: s32_id)
  qed
  then show ?thesis using read_success [OF io ok fits t(1) _ f(1)] t f(2) by (simp add: Let_def)
qed

text \<open>Success under a working device: if the size is a multiple of the block size, the file
  is in the index, and neither \<^verbatim>\<open>posix_memalign\<close> nor \<^verbatim>\<open>pread\<close> fails, the call returns
  the bytes the file has in the range asked for and their number (0 at or past its end).\<close>

theorem xmp_read_succeeds:
  assumes io: "io_ok E (backend_fd c) view" and ok: "store_ok E view c" and fits: "read_fits c path sz offset"
    and mod: "4096 dvd sz" and data: "abs_fs view c path = Some data"
    and mem: "\<forall>k. fst (memalign E k)"
    and dev: "\<forall>off k. \<exists>b. fst (sys_pread E (backend_fd c) 4096 off k) = SysOk b"
  shows "\<exists>c'. xmp_read E path sz offset c =
    (let out = take (nat sz) (drop (nat offset) data) in Some (int (length out), out, c'))"
  using assms by (rule read_succeeds)

section \<open>The properties on a concrete store\<close>

lemma demo_filled_fits: "0 \<le> offset \<Longrightarrow> 0 \<le> sz \<Longrightarrow> sz < 2 ^ 31 \<Longrightarrow> read_fits demo_filled path sz offset"
  by (simp add: read_fits_def demo_filled_state)

lemma demo_filled_io: "io_ok demo_os (backend_fd demo_filled) dk_view" "os_ok demo_os (backend_fd demo_filled) dk_view"
  by (simp_all add: demo_io_ok demo_os_ok)

lemma demo_filled_safe: "mem_safe demo_filled"
  using demo_filled_ok(1) by (simp add: store_ok_def)

lemma demo_device:
  "\<forall>k. fst (memalign demo_os k)" "\<forall>off k. \<exists>b. fst (sys_pread demo_os fd 4096 off k) = SysOk b"
proof -
  have "\<exists>b. fst (demo_pread fd n off k) = SysOk b" for fd n off k
    by (cases "dk_view k off") (simp_all add: demo_pread_def)
  then show "\<forall>k. fst (memalign demo_os k)" "\<forall>off k. \<exists>b. fst (sys_pread demo_os fd 4096 off k) = SysOk b"
    by (simp_all add: demo_os_simps)
qed

lemma demo_read_run:
  "\<exists>c'. xmp_read demo_os ''/f'' 4096 2048 demo_filled =
     Some (4096, replicate 2048 7 @ replicate 2048 9, c')"
proof -
  have "take 4096 (drop 2048 (blockA @ blockB @ blockA)) = replicate 2048 7 @ replicate 2048 9"
    by (simp add: blockA_def blockB_def)
  moreover have "\<exists>c'. xmp_read demo_os ''/f'' 4096 2048 demo_filled =
      (let out = take (nat 4096) (drop (nat 2048) (blockA @ blockB @ blockA)) in Some (int (length out), out, c'))"
    by (rule read_succeeds [OF demo_filled_io(1) demo_filled_ok(1) demo_filled_fits _ demo_filled_ok(2) demo_device])
       simp_all
  ultimately show ?thesis by (simp add: Let_def)
qed

theorem xmp_read_safe_witness:
  "\<exists>r out k. xmp_read demo_os ''/f'' 8192 4096 demo_filled = Some (r, out, demo_filled\<lparr>kern := k\<rparr>) \<and>
     length out \<le> 8192"
  using xmp_read_safe [OF demo_filled_io(2) demo_filled_safe demo_filled_fits, of 4096 8192 "''/f''"] by auto

theorem xmp_read_returns_data_witness:
  "\<exists>c'. xmp_read demo_os ''/f'' 4096 2048 demo_filled = Some (4096, replicate 2048 7 @ replicate 2048 9, c') \<and>
     abs_fs dk_view c' ''/f'' = Some (blockA @ blockB @ blockA)"
proof -
  obtain c' where run: "xmp_read demo_os ''/f'' 4096 2048 demo_filled = Some (4096, replicate 2048 7 @ replicate 2048 9, c')"
    using demo_read_run by blast
  with xmp_read_returns_data [OF demo_filled_io(1) demo_filled_ok(1) demo_filled_fits run _ demo_filled_ok(2)]
    demo_filled_ok(2) show ?thesis by simp
qed

theorem xmp_read_succeeds_witness:
  "\<exists>c'. xmp_read demo_os ''/f'' 8192 8192 demo_filled = Some (4096, blockA, c')"
  using xmp_read_succeeds [OF demo_filled_io(1) demo_filled_ok(1) demo_filled_fits _ demo_filled_ok(2) demo_device,
      of 8192 8192]
  by (simp add: Let_def)

end
