(* ===== verification/Dedup_Unlink.thy ===== *)
theory Dedup_Unlink
  imports Demo_Store "HOL-Library.AList"
begin

text \<open>
  \<^verbatim>\<open>xmp_unlink\<close> of \<^verbatim>\<open>codededup/passthrough.c\<close>: take the file out of the index, unlink the
  file underneath, count how often each block occurs in the file (\<open>count_blocks\<close>), and lower the
  blocks' reference counters (\<open>release_blocks\<close>); a block whose counter reaches zero leaves the
  index and its slot goes to the free list. When the \<^verbatim>\<open>unlink\<close> underneath fails for a
  reason other than \<^verbatim>\<open>ENOENT\<close>, the file is put back. The theorems say that exactly the file is
  removed, exactly the blocks nobody refers to any more are reclaimed, and no space is lost.
\<close>

section \<open>The handler\<close>

text \<open>\<open>blockCounts\<close>: a table from block pointers to numbers of occurrences.\<close>

fun count_blocks :: "addr list \<Rightarrow> (addr \<times> int) list \<Rightarrow> (addr \<times> int) list" where
  "count_blocks [] tab = tab"
| "count_blocks (block # bs) tab =
     (let val = (case map_of tab block of None \<Rightarrow> 0 | Some n \<Rightarrow> n)
      in count_blocks bs (AList.update block (s32 (val + 1)) tab))"

definition release_block :: "addr \<Rightarrow> int \<Rightarrow> 'k Context \<Rightarrow> 'k Context option" where
  "release_block a occ c =
     (case heap c a of
        None \<Rightarrow> None
      | Some b \<Rightarrow>
          let block = b\<lparr>counter := s32 (counter b - occ)\<rparr> in
          if counter block = 0 then
            Some (c\<lparr>blockIndex := (blockIndex c)(block_id block := None),
                    freeList := freeList c @ [block_offset block],
                    heap := (heap c)(a := None)\<rparr>)
          else Some (c\<lparr>heap := (heap c)(a \<mapsto> block)\<rparr>))"

fun release_blocks :: "(addr \<times> int) list \<Rightarrow> addr list \<Rightarrow> 'k Context \<Rightarrow> 'k Context option" where
  "release_blocks tab [] c = Some c"
| "release_blocks tab (a # as) c =
     (case map_of tab a of
        None \<Rightarrow> None
      | Some occ \<Rightarrow>
          (case release_block a occ c of None \<Rightarrow> None | Some c' \<Rightarrow> release_blocks tab as c'))"

definition xmp_unlink :: "'k os \<Rightarrow> string \<Rightarrow> 'k Context \<Rightarrow> (int \<times> 'k Context) option" where
  "xmp_unlink E path c =
     (if path = ''/backend/.metadata'' \<or> path = ''/backend/.sysdata'' then Some (- EPERM, c)
      else case fileIndex c path of
        None \<Rightarrow> Some (- ENOENT, c)
      | Some f \<Rightarrow>
          let c1 = c\<lparr>fileIndex := (fileIndex c)(path := None)\<rparr>;
              (res, k) = sys_unlink E path (kern c1);
              c2 = c1\<lparr>kern := k\<rparr>;
              failed = (case res of SysErr e \<Rightarrow> e \<noteq> ENOENT | SysOk _ \<Rightarrow> False)
          in if failed then
               Some (- sys_errno res, c2\<lparr>fileIndex := (fileIndex c2)(path \<mapsto> f)\<rparr>)
             else
               let blockCounts = count_blocks (blockList f) []
               in (case release_blocks blockCounts (iter_order E (map fst blockCounts)) c2 of
                     None \<Rightarrow> None
                   | Some c3 \<Rightarrow> Some (0, c3)))"

section \<open>The table of occurrences\<close>

lemma count_blocks_dom:
  "set (map fst (count_blocks bs tab)) = set (map fst tab) \<union> set bs"
  by (induction bs arbitrary: tab) (auto simp: Let_def dom_update)

lemma count_blocks_distinct:
  "distinct (map fst tab) \<Longrightarrow> distinct (map fst (count_blocks bs tab))"
  by (induction bs arbitrary: tab) (simp_all add: Let_def distinct_update)

text \<open>The table counts: no entry overflows, as long as no block occurs \<open>2 ^ 31\<close> times.\<close>

lemma count_blocks_lookup:
  assumes "case map_of tab a of None \<Rightarrow> count_list bs a < 2 ^ 31
     | Some n \<Rightarrow> 0 \<le> n \<and> n + int (count_list bs a) < 2 ^ 31"
  shows "map_of (count_blocks bs tab) a =
    (if map_of tab a = None \<and> count_list bs a = 0 then None
     else Some ((case map_of tab a of None \<Rightarrow> 0 | Some n \<Rightarrow> n) + int (count_list bs a)))"
  using assms
proof (induction bs arbitrary: tab)
  case Nil
  then show ?case by (auto split: option.splits)
next
  case (Cons x bs)
  show ?case
  proof (cases "x = a")
    case False
    let ?tab = "AList.update x (s32 ((case map_of tab x of None \<Rightarrow> 0 | Some n \<Rightarrow> n) + 1)) tab"
    have "map_of ?tab a = map_of tab a" using False by (simp add: update_conv)
    moreover have "count_list (x # bs) a = count_list bs a" using False by simp
    ultimately show ?thesis using Cons.IH [of ?tab] Cons.prems by (simp only: count_blocks.simps Let_def)
  next
    case True
    let ?v = "case map_of tab a of None \<Rightarrow> 0 | Some n \<Rightarrow> n"
    have "0 \<le> ?v" "?v + 1 + int (count_list bs a) < 2 ^ 31"
      using Cons.prems True by (auto split: option.splits)
    then have "s32 (?v + 1) = ?v + 1" by (intro s32_id) simp_all
    with True Cons.IH [of "AList.update a (?v + 1) tab"] \<open>0 \<le> ?v\<close> \<open>?v + 1 + int (count_list bs a) < 2 ^ 31\<close>
    show ?thesis by (simp add: Let_def update_conv)
  qed
qed

lemma block_counts:
  assumes "\<forall>a. count_list bs a < 2 ^ 31"
  shows "distinct (map fst (count_blocks bs []))" and "set (map fst (count_blocks bs [])) = set bs"
    and "a \<in> set bs \<Longrightarrow> map_of (count_blocks bs []) a = Some (int (count_list bs a))"
  using assms count_blocks_lookup [where tab = "[]" and a = a and bs = bs]
  by (simp_all add: count_blocks_distinct count_blocks_dom count_list_0_iff del: set_map)

section \<open>Releasing the blocks\<close>

definition freed :: "addr list \<Rightarrow> 'k Context \<Rightarrow> addr \<Rightarrow> bool" where
  "freed bs c a \<longleftrightarrow> ctr (heap c) a = int (count_list bs a)"

definition lower :: "addr list \<Rightarrow> 'k Context \<Rightarrow> addr \<Rightarrow> blockmeta option" where
  "lower bs c a = (if freed bs c a then None
     else map_option (\<lambda>b. b\<lparr>counter := counter b - int (count_list bs a)\<rparr>) (heap c a))"

text \<open>The state after the blocks \<open>as\<close> of the table have been released.\<close>

definition released :: "addr list \<Rightarrow> addr list \<Rightarrow> 'k Context \<Rightarrow> 'k Context" where
  "released bs as c =
     (let gone = filter (freed bs c) as in
      c\<lparr>heap := (\<lambda>a. if a \<in> set as then lower bs c a else heap c a),
        blockIndex := blockIndex c |` (- (\<lambda>a. block_id (the (heap c a))) ` set gone),
        freeList := freeList c @ map (boff c) gone\<rparr>)"

lemma released_Nil [simp]: "released bs [] c = c"
  by (simp add: released_def restrict_map_def)

lemma release_block_eq:
  assumes "heap c a = Some b" and "int (count_list bs a) \<le> counter b" and "counter b < 2 ^ 31"
  shows "release_block a (int (count_list bs a)) c = Some (released bs [a] c)"
proof -
  have "s32 (counter b - int (count_list bs a)) = counter b - int (count_list bs a)"
    using assms(2,3) by (intro s32_id) auto
  then show ?thesis
    using assms(1) by (auto simp: release_block_def released_def lower_def freed_def Let_def boff_def
        restrict_map_def fun_eq_iff intro!: Context.equality)
qed

lemma released_Cons:
  assumes "a \<notin> set as"
  shows "released bs as (released bs [a] c) = released bs (a # as) c"
proof -
  let ?d = "released bs [a] c"
  have hp: "heap ?d x = heap c x" if "x \<in> set as" for x
    using that assms by (auto simp: released_def)
  then have fr: "freed bs ?d x = freed bs c x" "boff ?d x = boff c x" "lower bs ?d x = lower bs c x"
    if "x \<in> set as" for x
    using that by (simp_all add: freed_def ctr_def boff_def lower_def)
  have "filter (freed bs ?d) as = filter (freed bs c) as" using fr(1) by (rule filter_cong [OF refl])
  moreover have "map (boff ?d) (filter (freed bs c) as) = map (boff c) (filter (freed bs c) as)"
    using fr(2) by simp
  moreover have "(\<lambda>x. block_id (the (heap ?d x))) ` set (filter (freed bs c) as)
      = (\<lambda>x. block_id (the (heap c x))) ` set (filter (freed bs c) as)"
    using hp by (intro image_cong) auto
  moreover have "(\<lambda>x. if x \<in> set as then lower bs ?d x else heap ?d x)
      = (\<lambda>x. if x \<in> set (a # as) then lower bs c x else heap c x)"
    using fr(3) by (auto simp: released_def)
  ultimately have "released bs as ?d = ?d\<lparr>heap := (\<lambda>x. if x \<in> set (a # as) then lower bs c x else heap c x),
      blockIndex := blockIndex ?d |` (- (\<lambda>x. block_id (the (heap c x))) ` set (filter (freed bs c) as)),
      freeList := freeList ?d @ map (boff c) (filter (freed bs c) as)\<rparr>"
    by (simp add: released_def [of bs as ?d] Let_def)
  then show ?thesis
    by (simp add: released_def [of bs "[a]"] released_def [of bs "a # as"] Let_def restrict_map_def fun_eq_iff)
qed

lemma release_blocks_eq:
  assumes "distinct as"
    and "\<forall>a\<in>set as. map_of tab a = Some (int (count_list bs a)) \<and>
      (\<exists>b. heap c a = Some b \<and> int (count_list bs a) \<le> counter b \<and> counter b < 2 ^ 31)"
  shows "release_blocks tab as c = Some (released bs as c)"
  using assms
proof (induction as arbitrary: c)
  case (Cons a as)
  obtain b where "heap c a = Some b" "int (count_list bs a) \<le> counter b" "counter b < 2 ^ 31"
    "map_of tab a = Some (int (count_list bs a))" using Cons.prems(2) by auto
  then have "release_blocks tab (a # as) c = release_blocks tab as (released bs [a] c)"
    by (simp add: release_block_eq)
  also have "\<dots> = Some (released bs as (released bs [a] c))"
    using Cons.prems by (intro Cons.IH) (auto simp: released_def)
  finally show ?case using Cons.prems(1) by (simp add: released_Cons)
qed simp

section \<open>What an unlink does\<close>

text \<open>A reference counter is an \<^verbatim>\<open>int\<close>.\<close>

definition counters_fit :: "'k Context \<Rightarrow> bool" where
  "counters_fit c \<longleftrightarrow> (\<forall>a. ctr (heap c) a < 2 ^ 31)"

definition unlinked :: "string \<Rightarrow> filemeta \<Rightarrow> addr list \<Rightarrow> 'k \<Rightarrow> 'k Context \<Rightarrow> 'k Context" where
  "unlinked path f as k c =
     released (blockList f) as (c\<lparr>fileIndex := (fileIndex c)(path := None), kern := k\<rparr>)"

lemma unlink_cases:
  assumes E: "os_ok E (backend_fd c) view" and safe: "mem_safe c" and fit: "counters_fit c"
  obtains (failed) r c' where "xmp_unlink E path c = Some (r, c')" "r < 0" "kern_only view c c'"
  | (removed) f as k where "xmp_unlink E path c = Some (0, unlinked path f as k c)" "fileIndex c path = Some f"
      "distinct as" "set as = set (blockList f)" "view k = view (kern c)"
proof (cases "path = ''/backend/.metadata'' \<or> path = ''/backend/.sysdata'' \<or> fileIndex c path = None")
  case True
  then have "\<exists>r<0. xmp_unlink E path c = Some (r, c)" by (auto simp: xmp_unlink_def)
  then show ?thesis using failed kern_only_refl by blast
next
  case False
  then obtain f where f: "fileIndex c path = Some f" and np: "\<not> (path = ''/backend/.metadata'' \<or> path = ''/backend/.sysdata'')"
    by auto
  obtain res k where u: "sys_unlink E path (kern c) = (res, k)" by (cases "sys_unlink E path (kern c)")
  have vk: "view k = view (kern c)" using os_ok_frame(2) [OF E, of path "kern c"] u by simp
  show ?thesis
  proof (cases "\<exists>e. res = SysErr e \<and> e \<noteq> 2")
    case True
    then obtain e where e: "res = SysErr e" "e \<noteq> 2" by blast
    then have "0 < e" using os_ok_errno(3) [OF E] u by blast
    moreover have "(fileIndex c)(path \<mapsto> f) = fileIndex c" using f by (simp add: fun_upd_idem)
    then have "xmp_unlink E path c = Some (- e, c\<lparr>kern := k\<rparr>)"
      using f np u e by (simp add: xmp_unlink_def Let_def)
    ultimately show ?thesis using failed kern_onlyI [OF vk] by simp
  next
    case False
    let ?c = "c\<lparr>fileIndex := (fileIndex c)(path := None), kern := k\<rparr>"
    let ?tab = "count_blocks (blockList f) []"
    let ?as = "iter_order E (map fst ?tab)"
    have fin: "finite (dom (fileIndex c))" using safe by (simp add: mem_safe_def files_ok_def)
    have le: "int (count_list (blockList f) a) \<le> ctr (heap c) a" for a
    proof -
      have "int (refs (fileIndex c) a) \<le> ctr (heap c) a" using safe by (simp add: mem_safe_def refs_ok_def)
      then show ?thesis using refs_ge [OF fin f, of a] by linarith
    qed
    have bound: "count_list (blockList f) a < 2 ^ 31" for a
    proof -
      have "ctr (heap c) a < 2 ^ 31" using fit by (simp add: counters_fit_def)
      then show ?thesis using le [of a] by auto
    qed
    then have tab: "distinct (map fst ?tab)" "set (map fst ?tab) = set (blockList f)"
      "\<And>a. a \<in> set (blockList f) \<Longrightarrow> map_of ?tab a = Some (int (count_list (blockList f) a))"
      using block_counts by blast+
    have as: "distinct ?as" "set ?as = set (blockList f)"
      using os_ok_iter [OF E, of "map fst ?tab"] tab(1,2) by (metis mset_eq_imp_distinct_iff, metis set_mset_mset)
    have "release_blocks ?tab ?as ?c = Some (released (blockList f) ?as ?c)"
    proof (rule release_blocks_eq [OF as(1)], intro ballI conjI)
      fix a assume a: "a \<in> set ?as"
      then show "map_of ?tab a = Some (int (count_list (blockList f) a))" using as(2) tab(3) by blast
      obtain b where "heap c a = Some b" using mem_safe_block_live [OF safe f] a as(2) by blast
      then show "\<exists>b. heap ?c a = Some b \<and> int (count_list (blockList f) a) \<le> counter b \<and> counter b < 2 ^ 31"
        using le [of a] fit by (auto simp: counters_fit_def dest: spec [of _ a])
    qed
    moreover have "(case res of SysErr e \<Rightarrow> e \<noteq> 2 | SysOk _ \<Rightarrow> False) = False"
      using False by (cases res) auto
    ultimately have "xmp_unlink E path c = Some (0, unlinked path f ?as k c)"
      using f np u by (simp add: xmp_unlink_def unlinked_def Let_def)
    then show ?thesis using removed f as vk by blast
  qed
qed

section \<open>The invariants after an unlink\<close>

lemma unlinked_fields [simp]:
  "backend_fd (unlinked path f as k c) = backend_fd c" "kern (unlinked path f as k c) = k"
  "fileIndex (unlinked path f as k c) = (fileIndex c)(path := None)"
  "next_free_offset (unlinked path f as k c) = next_free_offset c"
  "next_addr (unlinked path f as k c) = next_addr c"
  "freeList (unlinked path f as k c) = freeList c @ map (boff c) (filter (freed (blockList f) c) as)"
  by (simp_all add: unlinked_def released_def Let_def freed_def cong: filter_cong)

lemma freed_upd [simp]: "freed bs (c\<lparr>fileIndex := fi, kern := k\<rparr>) = freed bs c"
  by (simp add: freed_def fun_eq_iff)

lemma unlinked_index:
  "blockIndex (unlinked path f as k c) =
     blockIndex c |` (- (\<lambda>a. block_id (the (heap c a))) ` {a \<in> set as. freed (blockList f) c a})"
  by (simp add: unlinked_def released_def Let_def)

text \<open>The heap afterwards: every counter lowered by the file's references, and what reaches zero gone.\<close>

lemma unlinked_heap:
  assumes safe: "mem_safe c" and as: "set as = set (blockList f)"
  shows "heap (unlinked path f as k c) a = lower (blockList f) c a"
proof (cases "a \<in> set as")
  case True
  then show ?thesis by (simp add: unlinked_def released_def Let_def lower_def)
next
  case False
  then have z: "count_list (blockList f) a = 0" using as by (simp add: count_list_0_iff)
  show ?thesis
  proof (cases "heap c a")
    case None
    with False show ?thesis by (simp add: unlinked_def released_def Let_def lower_def)
  next
    case (Some b)
    then have "0 < counter b" using safe by (auto simp: mem_safe_def dest: index_okD2(4))
    with Some False z show ?thesis by (simp add: unlinked_def released_def Let_def lower_def freed_def)
  qed
qed

lemma unlinked_SomeD:
  assumes safe: "mem_safe c" and f: "fileIndex c path = Some f" and as: "set as = set (blockList f)"
    and h: "heap (unlinked path f as k c) a = Some b'"
  obtains b where "heap c a = Some b" "b' = b\<lparr>counter := counter b - int (count_list (blockList f) a)\<rparr>"
    "int (count_list (blockList f) a) < counter b"
proof -
  have fin: "finite (dom (fileIndex c))" using safe by (simp add: mem_safe_def files_ok_def)
  have "heap (unlinked path f as k c) a = lower (blockList f) c a" by (rule unlinked_heap [OF safe as])
  then obtain b where b: "heap c a = Some b" "b' = b\<lparr>counter := counter b - int (count_list (blockList f) a)\<rparr>"
    "counter b \<noteq> int (count_list (blockList f) a)"
    using h by (cases "heap c a") (auto simp: lower_def freed_def split: if_splits)
  have "int (refs (fileIndex c) a) \<le> ctr (heap c) a" using safe by (simp add: mem_safe_def refs_ok_def)
  then have "int (count_list (blockList f) a) \<le> counter b" using refs_ge [OF fin f, of a] b(1) by simp
  with b that show ?thesis by force
qed

lemma unlinked_ctr:
  assumes safe: "mem_safe c" and f: "fileIndex c path = Some f" and as: "set as = set (blockList f)"
  shows "ctr (heap (unlinked path f as k c)) a = ctr (heap c) a - int (count_list (blockList f) a)"
proof (cases "heap c a")
  case None
  then have "a \<notin> set (blockList f)" using mem_safe_block_live [OF safe f, of a] by auto
  then have "count_list (blockList f) a = 0" by (simp add: count_list_0_iff)
  with None show ?thesis by (simp add: ctr_def unlinked_heap [OF safe as] lower_def)
next
  case (Some b)
  then show ?thesis by (simp add: unlinked_heap [OF safe as] lower_def freed_def ctr_def)
qed

lemma unlinked_boff:
  assumes safe: "mem_safe c" and f: "fileIndex c path = Some f" and as: "set as = set (blockList f)"
    and a: "a \<in> dom (heap (unlinked path f as k c))"
  shows "boff (unlinked path f as k c) a = boff c a"
proof -
  from a obtain b' where h: "heap (unlinked path f as k c) a = Some b'" by blast
  obtain b where "heap c a = Some b" "b' = b\<lparr>counter := counter b - int (count_list (blockList f) a)\<rparr>"
    by (rule unlinked_SomeD [OF safe f as h])
  with h show ?thesis by simp
qed

lemma unlinked_dom:
  assumes safe: "mem_safe c" and f: "fileIndex c path = Some f" and as: "set as = set (blockList f)"
  shows "dom (heap (unlinked path f as k c)) = dom (heap c) - set (filter (freed (blockList f) c) as)"
    and "set (filter (freed (blockList f) c) as) \<subseteq> dom (heap c)"
proof -
  show sub: "set (filter (freed (blockList f) c) as) \<subseteq> dom (heap c)"
    using mem_safe_block_live [OF safe f] as by auto
  have "a \<in> set as" if "freed (blockList f) c a" "heap c a = Some b" for a b
  proof -
    have "0 < counter b" using safe that(2) by (auto simp: mem_safe_def dest: index_okD2(4))
    then have "0 < count_list (blockList f) a" using that by (simp add: freed_def)
    then show ?thesis using as by (simp add: count_list_pos_iff)
  qed
  then show "dom (heap (unlinked path f as k c)) = dom (heap c) - set (filter (freed (blockList f) c) as)"
    by (auto simp: unlinked_heap [OF safe as] lower_def split: if_splits)
qed

lemma unlinked_index_ok:
  assumes safe: "mem_safe c" and f: "fileIndex c path = Some f" and as: "set as = set (blockList f)"
  shows "index_ok (unlinked path f as k c)"
proof -
  let ?c = "unlinked path f as k c" and ?F = "set (filter (freed (blockList f) c) as)"
  have ix: "index_ok c" using safe by (simp add: mem_safe_def)
  have "\<exists>b. heap ?c a = Some b \<and> block_id b = h" if h: "blockIndex ?c h = Some a" for h a
  proof -
    have bi: "blockIndex c h = Some a" and ng: "h \<notin> (\<lambda>a. block_id (the (heap c a))) ` ?F"
      using h by (simp_all add: unlinked_index restrict_map_def split: if_splits)
    obtain b where b: "heap c a = Some b" "block_id b = h" using index_okD1 [OF ix bi] by blast
    have "a \<notin> ?F"
    proof
      assume "a \<in> ?F"
      then have "block_id (the (heap c a)) \<in> (\<lambda>a. block_id (the (heap c a))) ` ?F" by (rule imageI)
      with ng b show False by simp
    qed
    then have "a \<in> dom (heap ?c)" using b unlinked_dom(1) [OF safe f as, of k] by auto
    then obtain b' where b': "heap ?c a = Some b'" by blast
    obtain b2 where "heap c a = Some b2" "b' = b2\<lparr>counter := counter b2 - int (count_list (blockList f) a)\<rparr>"
      by (rule unlinked_SomeD [OF safe f as b'])
    with b b' show ?thesis by simp
  qed
  moreover have "blockIndex ?c (block_id b') = Some a \<and> a < next_addr ?c \<and> block_size b' = 4096 \<and> 0 < counter b'"
    if h: "heap ?c a = Some b'" for a b'
  proof -
    obtain b where b: "heap c a = Some b" "b' = b\<lparr>counter := counter b - int (count_list (blockList f) a)\<rparr>"
      "int (count_list (blockList f) a) < counter b"
      by (rule unlinked_SomeD [OF safe f as h])
    have "a \<notin> ?F" using h unlinked_dom(1) [OF safe f as, of k] by blast
    have "block_id b \<notin> (\<lambda>a. block_id (the (heap c a))) ` ?F"
    proof
      assume "block_id b \<in> (\<lambda>a. block_id (the (heap c a))) ` ?F"
      then obtain x where x: "x \<in> ?F" "block_id b = block_id (the (heap c x))" by blast
      then obtain bx where "heap c x = Some bx" using unlinked_dom(2) [OF safe f as] by blast
      then have "x = a" using index_ok_inj [OF ix _ b(1)] x(2) by simp
      with x(1) \<open>a \<notin> ?F\<close> show False by simp
    qed
    then show ?thesis using index_okD2 [OF ix b(1)] b(2,3) by (simp add: unlinked_index restrict_map_def)
  qed
  ultimately show ?thesis by (simp add: index_ok_def)
qed

lemma unlinked_layout_ok:
  assumes safe: "mem_safe c" and f: "fileIndex c path = Some f"
    and as: "distinct as" "set as = set (blockList f)"
  shows "layout_ok (unlinked path f as k c) (dom (heap (unlinked path f as k c)))"
proof -
  let ?c = "unlinked path f as k c" and ?F = "filter (freed (blockList f) c) as"
  have lay: "layout_ok c (dom (heap c))" using safe by (simp add: mem_safe_def)
  note dm = unlinked_dom [OF safe f as(2)]
  have im: "boff ?c ` dom (heap ?c) = boff c ` (dom (heap c) - set ?F)"
    using unlinked_boff [OF safe f as(2), of _ k] dm(1) [of k] by (intro image_cong) auto
  have inj: "inj_on (boff c) (dom (heap c))" using lay by (simp add: layout_ok_def)
  have "inj_on (boff c) (set ?F)" using inj dm(2) by (rule inj_on_subset)
  then have "distinct (map (boff c) ?F)" using as(1) by (simp add: distinct_map)
  moreover have fl: "boff c ` dom (heap c) \<inter> set (freeList c) = {}" using lay by (simp add: layout_ok_def)
  moreover have F: "boff c ` set ?F \<subseteq> boff c ` dom (heap c)" using dm(2) by (rule image_mono)
  moreover have ap: "boff c ` (dom (heap c) - set ?F) \<inter> boff c ` set ?F = {}"
    using inj_on_image_Int [OF inj, of "dom (heap c) - set ?F" "set ?F"] dm(2) by auto
  moreover have inj': "inj_on (boff ?c) (dom (heap ?c))"
  proof (rule inj_onI)
    fix x y assume "x \<in> dom (heap ?c)" "y \<in> dom (heap ?c)" "boff ?c x = boff ?c y"
    then show "x = y" using unlinked_boff [OF safe f as(2)] dm(1) [of k] inj by (auto simp: inj_on_def)
  qed
  moreover have disj: "boff ?c ` dom (heap ?c) \<inter> set (freeList ?c) = {}"
  proof -
    have "boff c ` (dom (heap c) - set ?F) \<subseteq> boff c ` dom (heap c)" by blast
    moreover have "set (freeList ?c) = set (freeList c) \<union> boff c ` set ?F" by simp
    ultimately show ?thesis using fl ap unfolding im by blast
  qed
  moreover have sub: "boff ?c ` dom (heap ?c) \<union> set (freeList ?c) \<subseteq> boff c ` dom (heap c) \<union> set (freeList c)"
    using F unfolding im by auto
  moreover have "distinct (freeList ?c)"
  proof -
    have "set (freeList c) \<inter> set (map (boff c) ?F) = {}" using fl F by (simp only: set_map) blast
    then show ?thesis using lay calculation(1) by (simp only: unlinked_fields distinct_append layout_ok_def)
  qed
  ultimately have dist: "distinct (freeList ?c)" by simp
  have "slot_ok ?c off" if "off \<in> boff ?c ` dom (heap ?c) \<union> set (freeList ?c)" for off
  proof -
    have "slot_ok c off" using lay subsetD [OF sub that] by (simp only: layout_ok_def)
    then show ?thesis by (simp add: slot_ok_def)
  qed
  moreover have "4096 dvd next_free_offset ?c \<and> 0 \<le> next_free_offset ?c" using lay by (simp add: layout_ok_def)
  ultimately show ?thesis unfolding layout_ok_def using inj' disj dist by (intro conjI ballI) simp_all
qed

lemma unlinked_mem_safe:
  assumes safe: "mem_safe c" and f: "fileIndex c path = Some f"
    and as: "distinct as" "set as = set (blockList f)"
  shows "mem_safe (unlinked path f as k c)"
proof -
  let ?c = "unlinked path f as k c"
  have fin: "finite (dom (fileIndex c))" using safe by (simp add: mem_safe_def files_ok_def)
  have "refs_ok ?c []"
    unfolding refs_ok_def
  proof
    fix a
    have "int (refs (fileIndex c) a) \<le> ctr (heap c) a" using safe by (simp add: mem_safe_def refs_ok_def)
    then show "int (refs (fileIndex ?c) a + count_list [] a) \<le> ctr (heap ?c) a"
      using refs_delete [OF fin f, of a] unlinked_ctr [OF safe f as(2), of k a] by simp
  qed
  moreover have "files_ok ?c" using safe by (auto simp: mem_safe_def files_ok_def)
  ultimately show ?thesis
    using unlinked_index_ok [OF safe f as(2)] unlinked_layout_ok [OF safe f as] by (simp add: mem_safe_def)
qed

lemma unlinked_store_ok:
  assumes ok: "store_ok E view c" and f: "fileIndex c path = Some f"
    and as: "distinct as" "set as = set (blockList f)" and k: "view k = view (kern c)"
  shows "store_ok E view (unlinked path f as k c)"
    and "abs_fs view (unlinked path f as k c) = (abs_fs view c)(path := None)"
proof -
  let ?c = "unlinked path f as k c"
  have safe: "mem_safe c" and exact: "exact_store c" and cont: "content_ok E view c (dom (heap c))"
    and fd: "backend_fd c \<noteq> -1" using ok by (simp_all add: store_ok_def)
  have fin: "finite (dom (fileIndex c))" using safe by (simp add: mem_safe_def files_ok_def)
  have safe': "mem_safe ?c" by (rule unlinked_mem_safe [OF safe f as])
  have "refs_exact ?c []"
    unfolding refs_exact_def
  proof
    fix a
    have "ctr (heap c) a = int (refs (fileIndex c) a)" using exact by (simp add: exact_store_def refs_exact_def)
    then show "ctr (heap ?c) a = int (refs (fileIndex ?c) a + count_list [] a)"
      using refs_delete [OF fin f, of a] unlinked_ctr [OF safe f as(2), of k a] by simp
  qed
  moreover have "sizes_ok ?c" using exact by (simp add: exact_store_def sizes_ok_def)
  moreover have "content_ok E view ?c (dom (heap ?c))"
    unfolding content_ok_def
  proof
    fix a assume "a \<in> dom (heap ?c)"
    then obtain b' where h: "heap ?c a = Some b'" by blast
    obtain b where b: "heap c a = Some b" "b' = b\<lparr>counter := counter b - int (count_list (blockList f) a)\<rparr>"
      by (rule unlinked_SomeD [OF safe f as(2) h])
    from cont b(1) have "\<exists>d. view (kern c) (block_offset b) = Some d \<and> length d = 4096 \<and> sha512 E d = block_id b"
      unfolding content_ok_def by (metis domI option.inject)
    with h b k show "\<exists>b d. heap ?c a = Some b \<and> view (kern ?c) (block_offset b) = Some d \<and> length d = 4096 \<and>
        sha512 E d = block_id b" by simp
  qed
  ultimately show "store_ok E view ?c" using safe' fd by (simp add: store_ok_def exact_store_def)
  show "abs_fs view ?c = (abs_fs view c)(path := None)"
  proof
    fix p
    show "abs_fs view ?c p = ((abs_fs view c)(path := None)) p"
    proof (cases "fileIndex ?c p")
      case None
      then show ?thesis by (auto simp: abs_fs_def split: if_splits)
    next
      case (Some g)
      have "block_data view ?c a = block_data view c a" if "a \<in> set (blockList g)" for a
      proof -
        have "a \<in> dom (heap ?c)" using mem_safe_block_live [OF safe' Some that] by blast
        then show ?thesis using unlinked_boff [OF safe f as(2), of a k] k by (simp add: block_data_def)
      qed
      then have "file_data view ?c g = file_data view c g" by (rule file_data_cong)
      with Some show ?thesis by (auto simp: abs_fs_def split: if_splits)
    qed
  qed
qed

lemma unlinked_space:
  assumes safe: "mem_safe c" and f: "fileIndex c path = Some f"
    and as: "distinct as" "set as = set (blockList f)"
  shows "unaccounted (unlinked path f as k c) = unaccounted c"
proof -
  let ?F = "filter (freed (blockList f) c) as"
  note dm = unlinked_dom [OF safe f as(2)]
  have "finite (dom (heap c))" using safe by (intro index_ok_finite) (simp add: mem_safe_def)
  then have "card (dom (heap c)) = card (dom (heap c) - set ?F) + card (set ?F)"
    using dm(2) by (metis card_Diff_subset card_mono finite_set le_add_diff_inverse2)
  moreover have "card (set ?F) = length ?F" using as(1) by (intro distinct_card) simp
  ultimately show ?thesis using dm(1) [of k] by (simp add: unaccounted_def used_bytes_def)
qed

section \<open>The contract of an unlink\<close>

lemma unlink_safe:
  assumes E: "os_ok E (backend_fd c) view" and safe: "mem_safe c" and fit: "counters_fit c"
  shows "\<exists>r c'. xmp_unlink E path c = Some (r, c') \<and> mem_safe c' \<and> backend_fd c' = backend_fd c \<and> r \<le> 0 \<and>
    unaccounted c' = unaccounted c \<and> (r < 0 \<longrightarrow> (\<exists>k. c' = c\<lparr>kern := k\<rparr> \<and> view k = view (kern c)))"
proof (cases rule: unlink_cases [OF E safe fit, of path])
  case (1 r c')
  then obtain k where "c' = c\<lparr>kern := k\<rparr>" "view k = view (kern c)" by (auto simp: kern_only_def)
  with 1 safe kern_only_fields(5) [OF 1(3)] show ?thesis by (auto simp: unaccounted_def)
next
  case (2 f as k)
  then show ?thesis
    using unlinked_mem_safe [OF safe 2(2-4)] unlinked_space [OF safe 2(2-4)] by simp
qed

lemma unlink_removes:
  assumes E: "os_ok E (backend_fd c) view" and ok: "store_ok E view c" and fit: "counters_fit c"
    and run: "xmp_unlink E path c = Some (0, c')"
  shows "path \<in> dom (fileIndex c) \<and> store_ok E view c' \<and> abs_fs view c' = (abs_fs view c)(path := None)"
proof -
  have safe: "mem_safe c" using ok by (simp add: store_ok_def)
  show ?thesis
  proof (cases rule: unlink_cases [OF E safe fit, of path])
    case (1 r c')
    then show ?thesis using run by simp
  next
    case (2 f as k)
    then show ?thesis using run unlinked_store_ok [OF ok 2(2-5)] by auto
  qed
qed

text \<open>C14. Memory safety of \<^verbatim>\<open>xmp_unlink\<close>: on any store whose index is sound the call returns
  (no block is used after it was freed), the index is sound afterwards, no slot of the data file is
  lost, and a call that fails, for whatever reason, has changed nothing in the context: the file it took out
  of the index is back.\<close>

theorem xmp_unlink_safe:
  assumes "os_ok E (backend_fd c) view" and "mem_safe c" and "counters_fit c"
  shows "\<exists>r c'. xmp_unlink E path c = Some (r, c') \<and> mem_safe c' \<and> backend_fd c' = backend_fd c \<and> r \<le> 0 \<and>
    unaccounted c' = unaccounted c \<and> (r < 0 \<longrightarrow> (\<exists>k. c' = c\<lparr>kern := k\<rparr> \<and> view k = view (kern c)))"
  using assms by (rule unlink_safe)

text \<open>C4. An unlink that reports success removes the file it names, which was in the index, and
  nothing else: every other file still holds its bytes, those it shared blocks with included, and the store
  is consistent again.\<close>

theorem xmp_unlink_removes:
  assumes "os_ok E (backend_fd c) view" and "store_ok E view c" and "counters_fit c"
    and "xmp_unlink E path c = Some (0, c')"
  shows "path \<in> dom (fileIndex c) \<and> store_ok E view c' \<and> abs_fs view c' = (abs_fs view c)(path := None)"
  using assms by (rule unlink_removes)

text \<open>C17. Garbage collection is exact: after a successful unlink the blocks in the index are
  those of before that some remaining file refers to, and the slots of all the others, and no
  further ones, have gone to the free list.\<close>

theorem xmp_unlink_reclaims:
  assumes E: "os_ok E (backend_fd c) view" and ok: "store_ok E view c" and fit: "counters_fit c"
    and run: "xmp_unlink E path c = Some (0, c')"
  shows "dom (heap c') = {a \<in> dom (heap c). 0 < refs (fileIndex c') a} \<and>
    set (freeList c') = set (freeList c) \<union> boff c ` (dom (heap c) - dom (heap c'))"
proof -
  have safe: "mem_safe c" using ok by (simp add: store_ok_def)
  obtain f as k where c': "c' = unlinked path f as k c" and f: "fileIndex c path = Some f"
    and as: "distinct as" "set as = set (blockList f)" and vk: "view k = view (kern c)"
    using run by (cases rule: unlink_cases [OF E safe fit, of path]) auto
  have ok': "store_ok E view c'" unfolding c' by (rule unlinked_store_ok(1) [OF ok f as vk])
  have "0 < refs (fileIndex c') a \<longleftrightarrow> a \<in> dom (heap c')" for a
  proof -
    have "ctr (heap c') a = int (refs (fileIndex c') a)"
      using ok' by (simp add: store_ok_def exact_store_def refs_exact_def)
    moreover have "0 < ctr (heap c') a \<longleftrightarrow> a \<in> dom (heap c')"
      using ok' by (cases "heap c' a") (auto simp: ctr_def store_ok_def mem_safe_def dest: index_okD2(4))
    ultimately show ?thesis by simp
  qed
  moreover have "dom (heap c) - dom (heap c') = set (filter (freed (blockList f) c) as)"
    unfolding c' using unlinked_dom [OF safe f as(2)] by blast
  moreover have "dom (heap c') \<subseteq> dom (heap c)" unfolding c' using unlinked_dom(1) [OF safe f as(2)] by blast
  ultimately show ?thesis by (auto simp: c')
qed

section \<open>The properties on a concrete store\<close>

lemma demo_filled_counters: "counters_fit demo_filled"
  by (simp add: counters_fit_def demo_filled_state ctr_def)

lemma demo_filled_os: "os_ok demo_os (backend_fd demo_filled) dk_view" "mem_safe demo_filled"
  using demo_filled_ok(1) by (simp_all add: demo_os_ok store_ok_def)

lemma demo_unlink_run:
  "\<exists>c'. xmp_unlink demo_os ''/f'' demo_filled = Some (0, c') \<and> freeList c' = [0, 4096] \<and> heap c' = Map.empty"
  by (simp add: xmp_unlink_def Let_def demo_os_simps demo_filled_state release_block_def s32_def)

theorem xmp_unlink_safe_witness:
  "\<exists>r c'. xmp_unlink demo_os ''/g'' demo_filled = Some (r, c') \<and> r \<le> 0 \<and> mem_safe c'"
  using xmp_unlink_safe [OF demo_filled_os demo_filled_counters, of "''/g''"] by auto

theorem xmp_unlink_removes_witness:
  "\<exists>c'. xmp_unlink demo_os ''/f'' demo_filled = Some (0, c') \<and> abs_fs dk_view c' = Map.empty"
proof -
  obtain c' where run: "xmp_unlink demo_os ''/f'' demo_filled = Some (0, c')" using demo_unlink_run by blast
  have "(abs_fs dk_view demo_filled)(''/f'' := None) = Map.empty"
    by (auto simp: abs_fs_def demo_filled_state fun_eq_iff)
  with xmp_unlink_removes [OF demo_filled_os(1) demo_filled_ok(1) demo_filled_counters run] run
  show ?thesis by auto
qed

theorem xmp_unlink_reclaims_witness:
  "\<exists>c'. xmp_unlink demo_os ''/f'' demo_filled = Some (0, c') \<and> set (freeList c') = {0, 4096}"
proof -
  obtain c' where run: "xmp_unlink demo_os ''/f'' demo_filled = Some (0, c')" "heap c' = Map.empty"
    using demo_unlink_run by blast
  have "boff demo_filled ` dom (heap demo_filled) = {0, 4096}"
    by (auto simp: boff_def demo_filled_state image_def)
  with xmp_unlink_reclaims [OF demo_filled_os(1) demo_filled_ok(1) demo_filled_counters run(1)] run
  show ?thesis by (simp add: demo_filled_state)
qed

end
