(* ===== verification/Persistence.thy ===== *)
theory Persistence
  imports Demo_Store "HOL-Library.Monad_Syntax"
begin

text \<open>
  \<^verbatim>\<open>codededup/persistance.c\<close>, and the two handlers of \<^verbatim>\<open>codededup/passthrough.c\<close> that call it:
  \<^verbatim>\<open>xmp_init\<close> loads the metadata file \<^verbatim>\<open>/backend/.metadata\<close>, \<^verbatim>\<open>xmp_destroy\<close> saves it.

  A file is the list of its bytes. A writer appends to it; the disk has room for \<open>cap\<close> bytes, so
  that a \<^verbatim>\<open>fwrite\<close> that does not fit writes what fits and fails, after which every function of
  the file returns without writing further. The order in which GLib's hash tables are traversed
  is a parameter: \<open>bs\<close> lists the blocks and \<open>fs\<close> the files as the two
  \<^verbatim>\<open>g_hash_table_foreach\<close> meet them. A loader works on the context as the code does, entry by entry,
  and may stop anywhere; \<open>None\<close> stands for undefined behaviour, here that of inserting a digest
  or a path twice (the table would keep a key that was freed).
\<close>

section \<open>Reading and writing values\<close>

definition byte_of_char :: "char \<Rightarrow> byte" where
  "byte_of_char ch = of_nat (of_char ch)"

definition char_of_byte :: "byte \<Rightarrow> char" where
  "char_of_byte b = char_of (unat b)"

lemma char_of_byte_of_char [simp]: "char_of_byte (byte_of_char ch) = ch"
proof -
  have "of_char ch < (256 :: nat)" by (rule nat_of_char_less_256)
  then have "unat (of_nat (of_char ch) :: byte) = of_char ch" by (simp add: unat_of_nat)
  then show ?thesis by (simp add: char_of_byte_def byte_of_char_def)
qed

type_synonym writer = "byte list \<Rightarrow> (bool \<times> byte list) option"

definition fwrite :: "nat \<Rightarrow> byte list \<Rightarrow> writer" where
  "fwrite cap bs out = Some (length out + length bs \<le> cap, take cap (out @ bs))"

text \<open>Go on with the second writer only when the first reported success.\<close>

definition and_then :: "writer \<Rightarrow> writer \<Rightarrow> writer" where
  "and_then w1 w2 out =
     (case w1 out of None \<Rightarrow> None | Some (ok, out') \<Rightarrow> if ok then w2 out' else Some (False, out'))"

definition write_nothing :: "writer" where
  "write_nothing out = Some (True, out)"

definition write_uint64 :: "nat \<Rightarrow> int \<Rightarrow> writer" where
  "write_uint64 cap v = fwrite cap (le_bytes 8 (nat (u64 v)))"

definition write_int64 :: "nat \<Rightarrow> int \<Rightarrow> writer" where
  "write_int64 cap v = fwrite cap (le_bytes 8 (nat (u64 v)))"

definition write_bytes :: "nat \<Rightarrow> byte list \<Rightarrow> writer" where
  "write_bytes cap buf = fwrite cap buf"

definition write_string :: "nat \<Rightarrow> string \<Rightarrow> writer" where
  "write_string cap s =
     (let len = int (length s)
      in and_then (write_uint64 cap len)
           (if len > 0 then write_bytes cap (map byte_of_char s) else write_nothing))"

definition write_hash :: "nat \<Rightarrow> hash \<Rightarrow> writer" where
  "write_hash cap h = write_bytes cap (take 64 h)"

definition read_bytes :: "nat \<Rightarrow> byte list \<Rightarrow> (byte list \<times> byte list) option" where
  "read_bytes len f = (if len \<le> length f then Some (take len f, drop len f) else None)"

definition read_uint64 :: "byte list \<Rightarrow> (int \<times> byte list) option" where
  "read_uint64 f = do { (bs, f) \<leftarrow> read_bytes 8 f; Some (int (le_val bs), f) }"

definition read_int64 :: "byte list \<Rightarrow> (int \<times> byte list) option" where
  "read_int64 f = do { (bs, f) \<leftarrow> read_bytes 8 f; Some (s64 (int (le_val bs)), f) }"

text \<open>The result is a C string: it ends at the first NUL. The allocation of \<^verbatim>\<open>len + 1\<close> bytes is
  taken to succeed.\<close>

definition read_string :: "byte list \<Rightarrow> (string \<times> byte list) option" where
  "read_string f = do {
     (len, f) \<leftarrow> read_uint64 f;
     if len = 0 then Some ([], f)
     else do {
       (s, f) \<leftarrow> read_bytes (nat len) f;
       Some (map char_of_byte (takeWhile (\<lambda>b. b \<noteq> 0) s), f)
     } }"

definition read_hash :: "byte list \<Rightarrow> (hash \<times> byte list) option" where
  "read_hash f = read_bytes 64 f"

section \<open>Saving\<close>

definition save_block_entry :: "nat \<Rightarrow> 'k Context \<Rightarrow> addr \<Rightarrow> writer" where
  "save_block_entry cap c a =
     (case heap c a of
        None \<Rightarrow> (\<lambda>out. None)
      | Some bm \<Rightarrow>
          and_then (write_hash cap (block_id bm))
         (and_then (write_uint64 cap (block_size bm))
         (and_then (write_int64 cap (block_offset bm))
                   (write_uint64 cap (counter bm)))))"

fun save_block_ids :: "nat \<Rightarrow> 'k Context \<Rightarrow> addr list \<Rightarrow> writer" where
  "save_block_ids cap c [] = write_nothing"
| "save_block_ids cap c (a # as) =
     (case heap c a of
        None \<Rightarrow> (\<lambda>out. None)
      | Some bm \<Rightarrow> and_then (write_hash cap (block_id bm)) (save_block_ids cap c as))"

definition save_file_entry :: "nat \<Rightarrow> 'k Context \<Rightarrow> filemeta \<Rightarrow> writer" where
  "save_file_entry cap c fm =
     and_then (write_string cap (file_id fm))
    (and_then (write_int64 cap (realSize fm))
    (and_then (write_int64 cap (logicalSize fm))
    (and_then (write_uint64 cap (int (length (blockList fm))))
              (save_block_ids cap c (blockList fm)))))"

text \<open>\<^verbatim>\<open>g_hash_table_foreach\<close>: once an entry has failed, the callback returns at once.\<close>

fun write_each :: "('a \<Rightarrow> writer) \<Rightarrow> 'a list \<Rightarrow> writer" where
  "write_each w [] = write_nothing"
| "write_each w (x # xs) = and_then (w x) (write_each w xs)"

text \<open>The contents of the file afterwards; \<open>opened\<close> is whether \<^verbatim>\<open>fopen\<close> succeeded, which
  empties the file.\<close>

definition save_metadata ::
  "bool \<Rightarrow> nat \<Rightarrow> addr list \<Rightarrow> filemeta list \<Rightarrow> 'k Context \<Rightarrow> byte list option \<Rightarrow> byte list option option" where
  "save_metadata opened cap bs fs c old =
     (if \<not> opened then Some old
      else map_option (\<lambda>(ok, out). Some out)
        (and_then (write_int64 cap (next_free_offset c))
        (and_then (write_uint64 cap (int (length bs)))
        (and_then (write_each (save_block_entry cap c) bs)
        (and_then (write_uint64 cap (int (length fs)))
        (and_then (write_each (save_file_entry cap c) fs)
        (and_then (write_uint64 cap (int (length (freeList c))))
                  (write_each (write_int64 cap) (freeList c))))))) []))"

section \<open>Loading\<close>

definition read_block_entry :: "byte list \<Rightarrow> (blockmeta \<times> byte list) option" where
  "read_block_entry f = do {
     (i, f) \<leftarrow> read_hash f;
     (bsize, f) \<leftarrow> read_uint64 f;
     (boffset, f) \<leftarrow> read_int64 f;
     (bcounter, f) \<leftarrow> read_uint64 f;
     Some (\<lparr>block_offset = boffset, block_id = i, block_size = bsize, counter = s32 bcounter\<rparr>, f) }"

text \<open>The result of a loop: \<open>None\<close> is undefined; the first part of the pair is the rest of the
  file, or \<open>None\<close> when the loader gives up, keeping what it has inserted so far.\<close>

fun load_blocks :: "nat \<Rightarrow> byte list \<Rightarrow> 'k Context \<Rightarrow> (byte list option \<times> 'k Context) option" where
  "load_blocks 0 f c = Some (Some f, c)"
| "load_blocks (Suc n) f c =
     (case read_block_entry f of
        None \<Rightarrow> Some (None, c)
      | Some (bm, f') \<Rightarrow>
          if blockIndex c (block_id bm) \<noteq> None then None
          else load_blocks n f'
            (c\<lparr>blockIndex := (blockIndex c)(block_id bm \<mapsto> next_addr c),
               heap := (heap c)(next_addr c \<mapsto> bm), next_addr := Suc (next_addr c)\<rparr>))"

fun read_block_ids :: "'k Context \<Rightarrow> nat \<Rightarrow> byte list \<Rightarrow> (addr list \<times> byte list) option" where
  "read_block_ids c 0 f = Some ([], f)"
| "read_block_ids c (Suc n) f = do {
     (h, f) \<leftarrow> read_hash f;
     a \<leftarrow> blockIndex c h;
     (as, f) \<leftarrow> read_block_ids c n f;
     Some (a # as, f) }"

definition read_file_entry :: "'k Context \<Rightarrow> byte list \<Rightarrow> (filemeta \<times> byte list) option" where
  "read_file_entry c f = do {
     (i, f) \<leftarrow> read_string f;
     (rsize, f) \<leftarrow> read_int64 f;
     (lsize, f) \<leftarrow> read_int64 f;
     (nfile_blocks, f) \<leftarrow> read_uint64 f;
     (bl, f) \<leftarrow> read_block_ids c (nat nfile_blocks) f;
     Some (\<lparr>file_id = i, realSize = rsize, logicalSize = lsize, blockList = bl\<rparr>, f) }"

fun load_files :: "nat \<Rightarrow> byte list \<Rightarrow> 'k Context \<Rightarrow> (byte list option \<times> 'k Context) option" where
  "load_files 0 f c = Some (Some f, c)"
| "load_files (Suc n) f c =
     (case read_file_entry c f of
        None \<Rightarrow> Some (None, c)
      | Some (fm, f') \<Rightarrow>
          if fileIndex c (file_id fm) \<noteq> None then None
          else load_files n f' (c\<lparr>fileIndex := (fileIndex c)(file_id fm \<mapsto> fm)\<rparr>))"

fun load_free :: "nat \<Rightarrow> byte list \<Rightarrow> 'k Context \<Rightarrow> 'k Context" where
  "load_free 0 f c = c"
| "load_free (Suc n) f c =
     (case read_int64 f of
        None \<Rightarrow> c
      | Some (off, f') \<Rightarrow> load_free n f' (c\<lparr>freeList := freeList c @ [off]\<rparr>))"

definition load_tables :: "byte list \<Rightarrow> 'k Context \<Rightarrow> 'k Context option" where
  "load_tables f c =
     (case read_uint64 f of
        None \<Rightarrow> Some c
      | Some (nblocks, f) \<Rightarrow> do {
          (f, c) \<leftarrow> load_blocks (nat nblocks) f c;
          (case f of None \<Rightarrow> Some c | Some f \<Rightarrow>
           case read_uint64 f of None \<Rightarrow> Some c | Some (nfiles, f) \<Rightarrow> do {
             (f, c) \<leftarrow> load_files (nat nfiles) f c;
             (case f of None \<Rightarrow> Some c | Some f \<Rightarrow>
              case read_uint64 f of None \<Rightarrow> Some c
              | Some (nfree, f) \<Rightarrow> Some (load_free (nat nfree) f c)) }) })"

definition load_metadata :: "byte list option \<Rightarrow> 'k Context \<Rightarrow> 'k Context option" where
  "load_metadata meta c =
     (case meta of
        None \<Rightarrow> Some c
      | Some f \<Rightarrow>
          (case read_int64 f of
             None \<Rightarrow> Some c
           | Some (saved_offset, f) \<Rightarrow> load_tables f (c\<lparr>next_free_offset := saved_offset\<rparr>)))"

section \<open>Mounting and unmounting\<close>

text \<open>\<open>fd\<close> is what opening the data file returned, \<open>st_size\<close> its size (\<open>None\<close>: \<^verbatim>\<open>fstat\<close>
  failed); \<open>junk\<close> is the indeterminate value that \<^verbatim>\<open>next_free_offset\<close> keeps when the data file
  could not be opened.\<close>

definition xmp_init :: "int \<Rightarrow> int option \<Rightarrow> int \<Rightarrow> byte list option \<Rightarrow> 'k \<Rightarrow> 'k Context option" where
  "xmp_init fd st_size junk meta k =
     load_metadata meta (fresh_context fd
       (if fd \<noteq> -1 then (case st_size of Some s \<Rightarrow> s | None \<Rightarrow> 0) else junk) k)"

text \<open>What is left of the context after unmounting is the metadata file.\<close>

definition xmp_destroy ::
  "bool \<Rightarrow> nat \<Rightarrow> addr list \<Rightarrow> filemeta list \<Rightarrow> 'k Context \<Rightarrow> byte list option \<Rightarrow> byte list option option" where
  "xmp_destroy opened cap bs fs c meta = save_metadata opened cap bs fs c meta"

section \<open>Codecs\<close>

text \<open>What encoding and decoding promise each other: decoding what was encoded gives the
  value back and leaves what follows, and no proper prefix of an encoding is accepted.\<close>

locale byte_codec =
  fixes enc :: "'a \<Rightarrow> byte list"
    and dec :: "byte list \<Rightarrow> ('a \<times> byte list) option"
    and good :: "'a \<Rightarrow> bool"
  assumes dec_enc: "good x \<Longrightarrow> dec (enc x @ r) = Some (x, r)"
    and dec_short: "good x \<Longrightarrow> n < length (enc x) \<Longrightarrow> dec (take n (enc x)) = None"
begin

lemma dec_take:
  assumes "good x"
  shows "dec (take n (enc x @ r)) = (if n < length (enc x) then None else Some (x, take (n - length (enc x)) r))"
  using dec_short [OF assms, of n] dec_enc [OF assms] by simp

end

definition enc_u64 :: "int \<Rightarrow> byte list" where
  "enc_u64 v = le_bytes 8 (nat (u64 v))"

lemma length_enc_u64 [simp]: "length (enc_u64 v) = 8"
  by (simp add: enc_u64_def)

lemma u64_enc: "int (le_val (enc_u64 v)) = u64 v"
proof -
  have "nat (u64 v) < 256 ^ 8" using u64_range [of v] by (simp add: nat_less_iff)
  then show ?thesis using u64_range(1) [of v] by (simp add: enc_u64_def le_val_le_bytes)
qed

interpretation uint64_codec: byte_codec enc_u64 read_uint64 "\<lambda>v. 0 \<le> v \<and> v < 2 ^ 64"
  by unfold_locales (auto simp: read_uint64_def read_bytes_def u64_enc u64_id)

interpretation int64_codec: byte_codec enc_u64 read_int64 "\<lambda>v. - (2 ^ 63) \<le> v \<and> v < 2 ^ 63"
  by unfold_locales (auto simp: read_int64_def read_bytes_def u64_enc s64_id)

interpretation hash_codec: byte_codec "\<lambda>h :: hash. h" read_hash "\<lambda>h. length h = 64"
  by unfold_locales (auto simp: read_hash_def read_bytes_def)

definition enc_string :: "string \<Rightarrow> byte list" where
  "enc_string s = enc_u64 (int (length s)) @ map byte_of_char s"

text \<open>A path is a C string: no NUL in it.\<close>

definition c_string :: "string \<Rightarrow> bool" where
  "c_string s \<longleftrightarrow> length s < 2 ^ 64 \<and> (\<forall>ch\<in>set s. byte_of_char ch \<noteq> 0)"

interpretation string_codec: byte_codec enc_string read_string c_string
proof (unfold_locales, goal_cases)
  case (1 s r)
  have "takeWhile (\<lambda>b. b \<noteq> 0) (map byte_of_char s) = map byte_of_char s"
    using 1 by (auto simp: c_string_def takeWhile_eq_all_conv)
  then have "map char_of_byte (takeWhile (\<lambda>b. b \<noteq> 0) (map byte_of_char s)) = s"
    by (simp only: map_map) (simp add: comp_def)
  moreover have "read_uint64 (enc_u64 (int (length s)) @ x) = Some (int (length s), x)" for x
    using 1 by (intro uint64_codec.dec_enc) (simp add: c_string_def)
  ultimately show ?case
    by (simp add: read_string_def enc_string_def read_bytes_def comp_def)
next
  case (2 s n)
  have "read_uint64 (take n (enc_u64 (int (length s)) @ map byte_of_char s)) =
      (if n < 8 then None else Some (int (length s), take (n - 8) (map byte_of_char s)))"
    using 2(1) by (subst uint64_codec.dec_take) (simp_all add: c_string_def)
  then show ?case using 2(2) by (auto simp: read_string_def enc_string_def read_bytes_def)
qed

definition enc_block :: "blockmeta \<Rightarrow> byte list" where
  "enc_block bm = block_id bm @ enc_u64 (block_size bm) @ enc_u64 (block_offset bm) @ enc_u64 (counter bm)"

definition block_fits :: "blockmeta \<Rightarrow> bool" where
  "block_fits bm \<longleftrightarrow> length (block_id bm) = 64 \<and> 0 \<le> block_size bm \<and> block_size bm < 2 ^ 64 \<and>
     - (2 ^ 63) \<le> block_offset bm \<and> block_offset bm < 2 ^ 63 \<and> 0 \<le> counter bm \<and> counter bm < 2 ^ 31"

interpretation block_codec: byte_codec enc_block read_block_entry block_fits
proof (unfold_locales, goal_cases)
  case (1 bm r)
  then have "s32 (counter bm) = counter bm" by (intro s32_id) (simp_all add: block_fits_def)
  with 1 show ?case
    by (simp add: block_fits_def read_block_entry_def enc_block_def hash_codec.dec_enc
        uint64_codec.dec_enc int64_codec.dec_enc)
next
  case (2 bm n)
  have g: "length (block_id bm) = 64" "0 \<le> block_size bm \<and> block_size bm < 2 ^ 64"
    "- (2 ^ 63) \<le> block_offset bm \<and> block_offset bm < 2 ^ 63" "0 \<le> counter bm \<and> counter bm < 2 ^ 64"
    using 2(1) by (simp_all add: block_fits_def)
  note d = hash_codec.dec_take [OF g(1)] uint64_codec.dec_take [OF g(2)] int64_codec.dec_take [OF g(3)]
    uint64_codec.dec_take [OF g(4), where r = "[]", unfolded append_Nil2]
  have "n < 88" using 2(2) g(1) by (simp add: enc_block_def)
  then show ?case unfolding read_block_entry_def enc_block_def
    by (auto simp: d g(1) simp del: take_append)
qed


section \<open>What is saved\<close>

definition enc_ids :: "'k Context \<Rightarrow> addr list \<Rightarrow> byte list" where
  "enc_ids c as = concat (map (\<lambda>a. block_id (the (heap c a))) as)"

definition enc_file :: "'k Context \<Rightarrow> filemeta \<Rightarrow> byte list" where
  "enc_file c fm = enc_string (file_id fm) @ enc_u64 (realSize fm) @ enc_u64 (logicalSize fm) @
     enc_u64 (int (length (blockList fm))) @ enc_ids c (blockList fm)"

definition enc_tables :: "addr list \<Rightarrow> filemeta list \<Rightarrow> 'k Context \<Rightarrow> byte list" where
  "enc_tables bs fs c =
     enc_u64 (int (length bs)) @ concat (map (\<lambda>a. enc_block (the (heap c a))) bs) @
     enc_u64 (int (length fs)) @ concat (map (enc_file c) fs) @
     enc_u64 (int (length (freeList c))) @ concat (map enc_u64 (freeList c))"

definition encode_metadata :: "addr list \<Rightarrow> filemeta list \<Rightarrow> 'k Context \<Rightarrow> byte list" where
  "encode_metadata bs fs c = enc_u64 (next_free_offset c) @ enc_tables bs fs c"

text \<open>\<open>writes cap w x\<close>: the writer \<open>w\<close> appends \<open>x\<close>, or as much of it as fits.\<close>

definition writes :: "nat \<Rightarrow> writer \<Rightarrow> byte list \<Rightarrow> bool" where
  "writes cap w x \<longleftrightarrow>
     (\<forall>out. length out \<le> cap \<longrightarrow> w out = Some (length out + length x \<le> cap, take cap (out @ x)))"

lemma writes_nothing [intro]: "writes cap write_nothing []"
  by (simp add: writes_def write_nothing_def)

lemma writes_fwrite [intro]: "writes cap (fwrite cap x) x"
  by (simp add: writes_def fwrite_def)

lemma writes_and_then [intro]:
  assumes "writes cap w1 x1" and "writes cap w2 x2"
  shows "writes cap (and_then w1 w2) (x1 @ x2)"
  using assms unfolding writes_def and_then_def by (auto simp: add.assoc)

lemma writes_each:
  "(\<And>x. x \<in> set xs \<Longrightarrow> writes cap (w x) (g x)) \<Longrightarrow> writes cap (write_each w xs) (concat (map g xs))"
  by (induction xs) auto

lemma writes_values [intro]:
  "writes cap (write_uint64 cap v) (enc_u64 v)" "writes cap (write_int64 cap v) (enc_u64 v)"
  "length h = 64 \<Longrightarrow> writes cap (write_hash cap h) h"
  by (auto simp: write_uint64_def write_int64_def write_hash_def write_bytes_def enc_u64_def)

lemma writes_string [intro]: "writes cap (write_string cap s) (enc_string s)"
proof (cases "s = []")
  case True
  then show ?thesis
    using writes_and_then [OF writes_values(1) writes_nothing, of cap 0]
    by (simp add: write_string_def enc_string_def)
next
  case False
  then show ?thesis unfolding write_string_def enc_string_def write_bytes_def Let_def by auto
qed

lemma writes_ids:
  "\<forall>a\<in>set as. \<exists>b. heap c a = Some b \<and> length (block_id b) = 64 \<Longrightarrow>
     writes cap (save_block_ids cap c as) (enc_ids c as)"
proof (induction as)
  case (Cons a as)
  then obtain b where "heap c a = Some b" "length (block_id b) = 64" by auto
  with Cons show ?case by (auto simp: enc_ids_def)
qed (auto simp: enc_ids_def)

text \<open>The lists hold the entries of the two tables, in the order of the traversal.\<close>

definition traverses :: "addr list \<Rightarrow> filemeta list \<Rightarrow> 'k Context \<Rightarrow> bool" where
  "traverses bs fs c \<longleftrightarrow> distinct bs \<and> set bs = ran (blockIndex c) \<and> distinct (map file_id fs) \<and>
     (\<forall>p f. fileIndex c p = Some f \<longleftrightarrow> f \<in> set fs \<and> file_id f = p)"

definition file_fits :: "filemeta \<Rightarrow> bool" where
  "file_fits f \<longleftrightarrow> c_string (file_id f) \<and> - (2 ^ 63) \<le> realSize f \<and> realSize f < 2 ^ 63 \<and>
     - (2 ^ 63) \<le> logicalSize f \<and> logicalSize f < 2 ^ 63 \<and> length (blockList f) < 2 ^ 64"

text \<open>What the C types of the fields guarantee, and that paths and digests have their form.\<close>

definition persist_fits :: "'k Context \<Rightarrow> bool" where
  "persist_fits c \<longleftrightarrow> (\<forall>a b. heap c a = Some b \<longrightarrow> block_fits b) \<and>
     (\<forall>p f. fileIndex c p = Some f \<longrightarrow> file_fits f) \<and>
     next_free_offset c < 2 ^ 63 \<and> card (dom (heap c)) < 2 ^ 64 \<and> card (dom (fileIndex c)) < 2 ^ 64 \<and>
     length (freeList c) < 2 ^ 64"

lemma traverses_live:
  assumes safe: "mem_safe c" and tr: "traverses bs fs c"
  shows "set bs = dom (heap c)" and "distinct bs"
    and "f \<in> set fs \<Longrightarrow> fileIndex c (file_id f) = Some f"
    and "f \<in> set fs \<Longrightarrow> set (blockList f) \<subseteq> set bs"
    and "length bs = card (dom (heap c))" and "length fs = card (dom (fileIndex c))"
proof -
  have ix: "index_ok c" using safe by (simp add: mem_safe_def)
  have "ran (blockIndex c) = dom (heap c)"
    using index_okD1 [OF ix] index_okD2(1) [OF ix] by (fastforce simp: ran_def)
  then show bs: "set bs = dom (heap c)" using tr by (simp add: traverses_def)
  show d: "distinct bs" using tr by (simp add: traverses_def)
  show f: "f \<in> set fs \<Longrightarrow> fileIndex c (file_id f) = Some f" for f using tr by (simp add: traverses_def)
  show "f \<in> set fs \<Longrightarrow> set (blockList f) \<subseteq> set bs" using mem_safe_block_live [OF safe f] bs by blast
  show "length bs = card (dom (heap c))" using distinct_card [OF d] bs by simp
  have "dom (fileIndex c) = file_id ` set fs" using tr by (auto simp: traverses_def)
  then show "length fs = card (dom (fileIndex c))"
    using tr distinct_card [of "map file_id fs"] by (simp add: traverses_def)
qed

lemma save_eq:
  assumes safe: "mem_safe c" and fits: "persist_fits c" and tr: "traverses bs fs c"
  shows "save_metadata True cap bs fs c old = Some (Some (take cap (encode_metadata bs fs c)))"
proof -
  note live = traverses_live [OF safe tr]
  have blk: "\<exists>b. heap c a = Some b \<and> block_fits b" if "a \<in> set bs" for a
    using that live(1) fits by (auto simp: persist_fits_def)
  have ids: "\<forall>a\<in>set as. \<exists>b. heap c a = Some b \<and> length (block_id b) = 64" if "set as \<subseteq> set bs" for as
    using blk that by (force simp: block_fits_def)
  have b: "writes cap (save_block_entry cap c a) (enc_block (the (heap c a)))" if a: "a \<in> set bs" for a
  proof -
    obtain b where "heap c a = Some b" "length (block_id b) = 64" using blk [OF a] by (auto simp: block_fits_def)
    then show ?thesis by (auto simp: save_block_entry_def enc_block_def)
  qed
  have f: "writes cap (save_file_entry cap c f) (enc_file c f)" if "f \<in> set fs" for f
    unfolding save_file_entry_def enc_file_def
    by (intro writes_and_then writes_string writes_values(1,2) writes_ids ids live(4) that)
  have "writes cap (and_then (write_int64 cap (next_free_offset c))
        (and_then (write_uint64 cap (int (length bs)))
        (and_then (write_each (save_block_entry cap c) bs)
        (and_then (write_uint64 cap (int (length fs)))
        (and_then (write_each (save_file_entry cap c) fs)
        (and_then (write_uint64 cap (int (length (freeList c))))
                  (write_each (write_int64 cap) (freeList c)))))))) (encode_metadata bs fs c)"
    unfolding encode_metadata_def enc_tables_def
    by (intro writes_and_then writes_values(1,2) writes_each b f)
  then show ?thesis by (simp add: save_metadata_def writes_def)
qed

section \<open>What is loaded\<close>

definition renamed :: "addr list \<Rightarrow> filemeta \<Rightarrow> filemeta" where
  "renamed bs f = f\<lparr>blockList := map (\<lambda>a. length (takeWhile (\<lambda>x. x \<noteq> a) bs)) (blockList f)\<rparr>"

lemma position:
  assumes "distinct bs" and "i < length bs"
  shows "length (takeWhile (\<lambda>x. x \<noteq> bs ! i) bs) = i"
proof -
  have "takeWhile (\<lambda>x. x \<noteq> bs ! i) bs = take i bs"
    using assms by (intro takeWhile_eq_take_P_nth) (auto simp: nth_eq_iff_index_eq)
  then show ?thesis using assms(2) by simp
qed

text \<open>The context into which blocks, files and free slots have been loaded: block number \<open>i\<close>
  of the list gets the address \<open>i\<close>.\<close>

definition with_blocks :: "'k Context \<Rightarrow> blockmeta list \<Rightarrow> 'k Context" where
  "with_blocks c0 bms = c0\<lparr>heap := (\<lambda>a. if a < length bms then Some (bms ! a) else None),
     blockIndex := map_of (zip (map block_id bms) [0..<length bms]), next_addr := length bms\<rparr>"

definition with_files :: "filemeta list \<Rightarrow> 'k Context \<Rightarrow> 'k Context" where
  "with_files fs c = c\<lparr>fileIndex := map_of (map (\<lambda>f. (file_id f, f)) fs)\<rparr>"

lemma single_map_add: "m k = None \<Longrightarrow> [k \<mapsto> v] ++ m = m(k \<mapsto> v)"
  by (rule ext) (simp add: map_add_def split: option.split)

lemma with_blocks_snoc:
  assumes "distinct (map block_id (bms @ [bm]))"
  shows "(with_blocks c0 bms)\<lparr>blockIndex := (blockIndex (with_blocks c0 bms))(block_id bm \<mapsto> length bms),
     heap := (heap (with_blocks c0 bms))(length bms \<mapsto> bm), next_addr := Suc (length bms)\<rparr>
    = with_blocks c0 (bms @ [bm])"
    and "blockIndex (with_blocks c0 bms) (block_id bm) = None"
    and "next_addr (with_blocks c0 bms) = length bms"
proof -
  show n: "blockIndex (with_blocks c0 bms) (block_id bm) = None"
    using assms by (auto simp: with_blocks_def map_of_eq_None_iff dest: set_zip_leftD)
  have z: "zip (map block_id (bms @ [bm])) [0..<length (bms @ [bm])]
      = zip (map block_id bms) [0..<length bms] @ [(block_id bm, length bms)]" by simp
  have "map_of (zip (map block_id (bms @ [bm])) [0..<length (bms @ [bm])])
      = (map_of (zip (map block_id bms) [0..<length bms]))(block_id bm \<mapsto> length bms)"
    unfolding z map_of_append map_of.simps fst_conv snd_conv
    by (rule single_map_add) (use n in \<open>simp add: with_blocks_def\<close>)
  then show "(with_blocks c0 bms)\<lparr>blockIndex := (blockIndex (with_blocks c0 bms))(block_id bm \<mapsto> length bms),
     heap := (heap (with_blocks c0 bms))(length bms \<mapsto> bm), next_addr := Suc (length bms)\<rparr>
    = with_blocks c0 (bms @ [bm])"
    by (auto simp: with_blocks_def nth_append fun_eq_iff)
qed (simp add: with_blocks_def)

lemma load_blocks_take:
  assumes "distinct (map block_id (bms0 @ bms))" and "\<forall>bm\<in>set bms. block_fits bm"
  shows "\<exists>m. load_blocks (length bms) (take n (concat (map enc_block bms) @ r)) (with_blocks c0 bms0) =
     (if n < length (concat (map enc_block bms)) then Some (None, with_blocks c0 (bms0 @ take m bms))
      else Some (Some (take (n - length (concat (map enc_block bms))) r), with_blocks c0 (bms0 @ bms)))"
  using assms
proof (induction bms arbitrary: bms0 n)
  case (Cons bm bms)
  let ?rest = "concat (map enc_block bms) @ r"
  have g: "block_fits bm" and d: "distinct (map block_id (bms0 @ [bm]))" using Cons.prems by auto
  have rd: "read_block_entry (take n (enc_block bm @ ?rest)) =
      (if n < length (enc_block bm) then None else Some (bm, take (n - length (enc_block bm)) ?rest))"
    by (rule block_codec.dec_take [OF g])
  show ?case
  proof (cases "n < length (enc_block bm)")
    case True
    then show ?thesis using rd by (intro exI [of _ 0]) simp
  next
    case False
    then have "load_blocks (length (bm # bms)) (take n (concat (map enc_block (bm # bms)) @ r)) (with_blocks c0 bms0)
        = load_blocks (length bms) (take (n - length (enc_block bm)) ?rest) (with_blocks c0 (bms0 @ [bm]))"
      using rd with_blocks_snoc [OF d, of c0] by (simp del: take_append)
    moreover have "\<exists>m. load_blocks (length bms) (take (n - length (enc_block bm)) ?rest) (with_blocks c0 (bms0 @ [bm])) =
       (if n - length (enc_block bm) < length (concat (map enc_block bms))
        then Some (None, with_blocks c0 ((bms0 @ [bm]) @ take m bms))
        else Some (Some (take (n - length (enc_block bm) - length (concat (map enc_block bms))) r),
               with_blocks c0 ((bms0 @ [bm]) @ bms)))"
      using Cons.prems by (intro Cons.IH) auto
    then obtain m where "load_blocks (length bms) (take (n - length (enc_block bm)) ?rest) (with_blocks c0 (bms0 @ [bm])) =
       (if n - length (enc_block bm) < length (concat (map enc_block bms))
        then Some (None, with_blocks c0 ((bms0 @ [bm]) @ take m bms))
        else Some (Some (take (n - length (enc_block bm) - length (concat (map enc_block bms))) r),
               with_blocks c0 ((bms0 @ [bm]) @ bms)))" ..
    ultimately show ?thesis using False by (intro exI [of _ "Suc m"]) auto
  qed
qed simp


text \<open>The block pointers of a file are found again under their digests.\<close>

definition finds :: "'k Context \<Rightarrow> 'k Context \<Rightarrow> (addr \<Rightarrow> addr) \<Rightarrow> addr list \<Rightarrow> bool" where
  "finds c d ren as \<longleftrightarrow> (\<forall>a\<in>set as. \<exists>b. heap c a = Some b \<and> length (block_id b) = 64 \<and>
     blockIndex d (block_id b) = Some (ren a))"

lemma read_block_ids_take:
  "finds c d ren as \<Longrightarrow> read_block_ids d (length as) (take n (enc_ids c as @ r)) =
     (if n < length (enc_ids c as) then None else Some (map ren as, take (n - length (enc_ids c as)) r))"
proof (induction as arbitrary: n)
  case (Cons a as)
  then obtain b where b: "heap c a = Some b" "length (block_id b) = 64" "blockIndex d (block_id b) = Some (ren a)"
    by (auto simp: finds_def)
  have tl: "finds c d ren as" using Cons.prems by (simp add: finds_def)
  have e: "enc_ids c (a # as) @ r = block_id b @ (enc_ids c as @ r)" using b by (simp add: enc_ids_def)
  have l: "length (enc_ids c (a # as)) = 64 + length (enc_ids c as)" using b by (simp add: enc_ids_def)
  show ?case
    unfolding e l using b Cons.IH [OF tl, of "n - 64"]
    by (simp add: hash_codec.dec_take del: take_append) auto
qed (simp add: enc_ids_def)

lemma read_file_entry_take:
  assumes fi: "finds c d ren (blockList f)" and g: "file_fits f"
  shows "read_file_entry d (take n (enc_file c f @ r)) =
    (if n < length (enc_file c f) then None
     else Some (f\<lparr>blockList := map ren (blockList f)\<rparr>, take (n - length (enc_file c f)) r))"
proof -
  let ?s = "enc_string (file_id f)" and ?h = "enc_ids c (blockList f)"
  have gs: "c_string (file_id f)" "- (2 ^ 63) \<le> realSize f \<and> realSize f < 2 ^ 63"
    "- (2 ^ 63) \<le> logicalSize f \<and> logicalSize f < 2 ^ 63"
    "0 \<le> int (length (blockList f)) \<and> int (length (blockList f)) < 2 ^ 64"
    using g by (simp_all add: file_fits_def)
  have e: "enc_file c f @ r = ?s @ enc_u64 (realSize f) @ enc_u64 (logicalSize f) @
      enc_u64 (int (length (blockList f))) @ ?h @ r" by (simp add: enc_file_def)
  have l: "length (enc_file c f) = length ?s + (8 + (8 + (8 + length ?h)))" by (simp add: enc_file_def)
  show ?thesis
    unfolding e l read_file_entry_def
    by (simp add: string_codec.dec_take [OF gs(1)] int64_codec.dec_take [OF gs(2)] int64_codec.dec_take [OF gs(3)]
        uint64_codec.dec_take [OF gs(4)] read_block_ids_take [OF fi] del: take_append)
      (auto simp: diff_diff_add add_ac)
qed

lemma with_files_snoc:
  assumes "distinct (map file_id (fs @ [f]))"
  shows "(with_files fs c)\<lparr>fileIndex := (fileIndex (with_files fs c))(file_id f \<mapsto> f)\<rparr> = with_files (fs @ [f]) c"
    and "fileIndex (with_files fs c) (file_id f) = None"
proof -
  have n: "map_of (map (\<lambda>f. (file_id f, f)) fs) (file_id f) = None"
    using assms by (auto simp: map_of_eq_None_iff)
  have "map_of (map (\<lambda>f. (file_id f, f)) (fs @ [f])) = (map_of (map (\<lambda>f. (file_id f, f)) fs))(file_id f \<mapsto> f)"
    unfolding map_append map_of_append list.map map_of.simps fst_conv snd_conv by (rule single_map_add) (rule n)
  then show "(with_files fs c)\<lparr>fileIndex := (fileIndex (with_files fs c))(file_id f \<mapsto> f)\<rparr> = with_files (fs @ [f]) c"
    by (simp add: with_files_def)
qed (use assms in \<open>auto simp: with_files_def map_of_eq_None_iff\<close>)

lemma finds_with_files [simp]: "finds c (with_files fs d) ren as = finds c d ren as"
  by (simp add: finds_def with_files_def)

lemma load_files_take:
  assumes "distinct (map file_id (fs0 @ fs))"
    and "\<forall>f\<in>set fs. file_fits f \<and> finds c d ren (blockList f)"
  defines "re \<equiv> (\<lambda>f. f\<lparr>blockList := map ren (blockList f)\<rparr>)"
  shows "\<exists>m. load_files (length fs) (take n (concat (map (enc_file c) fs) @ r)) (with_files (map re fs0) d) =
     (if n < length (concat (map (enc_file c) fs)) then Some (None, with_files (map re (fs0 @ take m fs)) d)
      else Some (Some (take (n - length (concat (map (enc_file c) fs))) r), with_files (map re (fs0 @ fs)) d))"
  using assms(1,2)
proof (induction fs arbitrary: fs0 n)
  case (Cons f fs)
  let ?rest = "concat (map (enc_file c) fs) @ r" and ?l = "length (enc_file c f)"
  have g: "file_fits f" "finds c (with_files (map re fs0) d) ren (blockList f)" using Cons.prems by auto
  have "map file_id (map re fs0 @ [re f]) = map file_id (fs0 @ [f])" by (simp add: re_def)
  then have d: "distinct (map file_id (map re fs0 @ [re f]))" using Cons.prems by (simp only:) simp
  have rd: "read_file_entry (with_files (map re fs0) d) (take n (enc_file c f @ ?rest)) =
      (if n < ?l then None else Some (re f, take (n - ?l) ?rest))"
    unfolding re_def using g(2,1) unfolding re_def by (rule read_file_entry_take)
  show ?case
  proof (cases "n < ?l")
    case True
    then show ?thesis using rd by (intro exI [of _ 0]) simp
  next
    case False
    then have step: "load_files (length (f # fs)) (take n (concat (map (enc_file c) (f # fs)) @ r)) (with_files (map re fs0) d)
        = load_files (length fs) (take (n - ?l) ?rest) (with_files (map re (fs0 @ [f])) d)"
      using rd with_files_snoc [OF d, of d] by (simp del: take_append)
    have "\<exists>m. load_files (length fs) (take (n - ?l) ?rest) (with_files (map re (fs0 @ [f])) d) =
       (if n - ?l < length (concat (map (enc_file c) fs))
        then Some (None, with_files (map re ((fs0 @ [f]) @ take m fs)) d)
        else Some (Some (take (n - ?l - length (concat (map (enc_file c) fs))) r),
               with_files (map re ((fs0 @ [f]) @ fs)) d))"
      using Cons.prems by (intro Cons.IH) auto
    then obtain m where "load_files (length fs) (take (n - ?l) ?rest) (with_files (map re (fs0 @ [f])) d) =
       (if n - ?l < length (concat (map (enc_file c) fs))
        then Some (None, with_files (map re ((fs0 @ [f]) @ take m fs)) d)
        else Some (Some (take (n - ?l - length (concat (map (enc_file c) fs))) r),
               with_files (map re ((fs0 @ [f]) @ fs)) d))" ..
    then show ?thesis using False unfolding step by (intro exI [of _ "Suc m"]) auto
  qed
qed simp

lemma load_free_take:
  assumes "\<forall>off\<in>set fl. - (2 ^ 63) \<le> off \<and> off < 2 ^ 63"
  shows "\<exists>m. load_free (length fl) (take n (concat (map enc_u64 fl))) c = c\<lparr>freeList := freeList c @ take m fl\<rparr> \<and>
     (length (concat (map enc_u64 fl)) \<le> n \<longrightarrow> take m fl = fl)"
  using assms
proof (induction fl arbitrary: n c)
  case (Cons off fl)
  have g: "- (2 ^ 63) \<le> off \<and> off < 2 ^ 63" using Cons.prems by simp
  note rd = int64_codec.dec_take [OF g, of n "concat (map enc_u64 fl)"]
  show ?case
  proof (cases "n < 8")
    case True
    then show ?thesis using rd by (intro exI [of _ 0]) simp
  next
    case False
    let ?c = "c\<lparr>freeList := freeList c @ [off]\<rparr>"
    obtain m where "load_free (length fl) (take (n - 8) (concat (map enc_u64 fl))) ?c = ?c\<lparr>freeList := freeList ?c @ take m fl\<rparr>"
      "length (concat (map enc_u64 fl)) \<le> n - 8 \<longrightarrow> take m fl = fl"
      using Cons.IH [of "n - 8" ?c] Cons.prems by auto
    then show ?thesis using rd False by (intro exI [of _ "Suc m"]) (simp del: take_append)
  qed
qed simp


definition restored ::
  "'k Context \<Rightarrow> 'k Context \<Rightarrow> int \<Rightarrow> addr list \<Rightarrow> addr list \<Rightarrow> filemeta list \<Rightarrow> int list \<Rightarrow> 'k Context" where
  "restored c0 c off bs bs1 fs1 fl1 =
     (with_files (map (renamed bs) fs1)
       (with_blocks (c0\<lparr>next_free_offset := off\<rparr>) (map (\<lambda>a. the (heap c a)) bs1)))\<lparr>freeList := fl1\<rparr>"

lemma with_nothing: "with_files [] (with_blocks (fresh_context fd off k) []) = fresh_context fd off k"
  by (simp add: with_files_def with_blocks_def fresh_context_def)

lemma fresh_offset: "(fresh_context fd st k)\<lparr>next_free_offset := off\<rparr> = fresh_context fd off k"
  by (simp add: fresh_context_def)

lemma restored_eq:
  "restored (fresh_context fd st k) c off bs bs1 fs1 [] =
     with_files (map (renamed bs) fs1) (with_blocks (fresh_context fd off k) (map (\<lambda>a. the (heap c a)) bs1))"
  by (simp add: restored_def fresh_offset) (simp add: with_files_def with_blocks_def fresh_context_def)

lemma restored_free:
  "(restored (fresh_context fd st k) c off bs bs1 fs1 fl)\<lparr>freeList := fl'\<rparr> = restored (fresh_context fd st k) c off bs bs1 fs1 fl'"
  by (simp add: restored_def)

lemma finds_after_load:
  assumes safe: "mem_safe c" and fits: "persist_fits c" and tr: "traverses bs fs c" and f: "f \<in> set fs"
  shows "finds c (with_blocks c0 (map (\<lambda>a. the (heap c a)) bs)) (\<lambda>a. length (takeWhile (\<lambda>x. x \<noteq> a) bs)) (blockList f)"
  unfolding finds_def
proof
  note live = traverses_live [OF safe tr]
  have ix: "index_ok c" using safe by (simp add: mem_safe_def)
  let ?ids = "map block_id (map (\<lambda>a. the (heap c a)) bs)"
  have inj: "inj_on (\<lambda>a. block_id (the (heap c a))) (set bs)"
  proof (rule inj_onI)
    fix x y assume xy: "x \<in> set bs" "y \<in> set bs" "block_id (the (heap c x)) = block_id (the (heap c y))"
    then obtain bx "by" where "heap c x = Some bx" "heap c y = Some by" using live(1) by blast
    with xy(3) show "x = y" using index_ok_inj [OF ix] by simp
  qed
  then have d: "distinct ?ids" using live(2) by (simp add: distinct_map comp_def)
  fix a assume "a \<in> set (blockList f)"
  then have a: "a \<in> set bs" using live(4) [OF f] by blast
  then obtain i where i: "i < length bs" "bs ! i = a" by (auto simp: in_set_conv_nth)
  obtain b where b: "heap c a = Some b" using a live(1) by blast
  have "map_of (zip ?ids [0..<length ?ids]) (?ids ! i) = Some ([0..<length ?ids] ! i)"
    using d i by (intro map_of_zip_nth) simp_all
  then have "blockIndex (with_blocks c0 (map (\<lambda>a. the (heap c a)) bs)) (block_id b) = Some i"
    using i b by (simp add: with_blocks_def comp_def)
  moreover have "length (takeWhile (\<lambda>x. x \<noteq> a) bs) = i" using position [OF live(2) i(1)] i(2) by simp
  moreover have "length (block_id b) = 64" using fits b by (simp add: persist_fits_def block_fits_def)
  ultimately show "\<exists>b. heap c a = Some b \<and> length (block_id b) = 64 \<and>
      blockIndex (with_blocks c0 (map (\<lambda>a. the (heap c a)) bs)) (block_id b)
        = Some (length (takeWhile (\<lambda>x. x \<noteq> a) bs))" using b by blast
qed

lemma distinct_ids:
  assumes safe: "mem_safe c" and tr: "traverses bs fs c"
  shows "distinct (map block_id (map (\<lambda>a. the (heap c a)) bs))"
proof -
  note live = traverses_live [OF safe tr]
  have ix: "index_ok c" using safe by (simp add: mem_safe_def)
  have "inj_on (\<lambda>a. block_id (the (heap c a))) (set bs)"
    by (rule inj_onI) (use live(1) index_ok_inj [OF ix] in \<open>force simp: dom_def set_eq_iff\<close>)
  then show ?thesis using live(2) by (simp add: distinct_map comp_def)
qed

text \<open>Loading the first \<open>n\<close> bytes of a saved file restores a part of the tables: blocks first, files
  only once all blocks are there, free slots last; all of it when the file is complete.\<close>

definition load_result ::
  "'k Context \<Rightarrow> 'k Context \<Rightarrow> addr list \<Rightarrow> filemeta list \<Rightarrow> int \<Rightarrow> bool \<Rightarrow> 'k Context \<Rightarrow> bool" where
  "load_result c0 c bs fs st full c' \<longleftrightarrow> (\<exists>off m1 m2 m3.
     c' = restored c0 c off bs (take m1 bs) (take m2 fs) (take m3 (freeList c)) \<and>
     (off = next_free_offset c \<or> off = st \<and> take m1 bs = [] \<and> take m3 (freeList c) = []) \<and>
     (take m2 fs = [] \<or> take m1 bs = bs) \<and>
     (full \<longrightarrow> off = next_free_offset c \<and> take m1 bs = bs \<and> take m2 fs = fs \<and>
        take m3 (freeList c) = freeList c))"

lemma load_resultI:
  "c' = restored c0 c (next_free_offset c) bs (take m1 bs) (take m2 fs) (take m3 (freeList c)) \<Longrightarrow>
   take m2 fs = [] \<or> take m1 bs = bs \<Longrightarrow>
   full \<longrightarrow> take m1 bs = bs \<and> take m2 fs = fs \<and> take m3 (freeList c) = freeList c \<Longrightarrow>
   load_result c0 c bs fs st full c'"
  unfolding load_result_def by blast

lemma stages:
  fixes a b d x y z :: nat
  shows "(a < x \<Longrightarrow> P) \<Longrightarrow> (x \<le> a \<Longrightarrow> b < y \<Longrightarrow> P) \<Longrightarrow> (x \<le> a \<Longrightarrow> y \<le> b \<Longrightarrow> d < z \<Longrightarrow> P) \<Longrightarrow>
    (x \<le> a \<Longrightarrow> y \<le> b \<Longrightarrow> z \<le> d \<Longrightarrow> P) \<Longrightarrow> P"
  by (meson not_le)

lemma load_tables_take:
  assumes safe: "mem_safe c" and fits: "persist_fits c" and tr: "traverses bs fs c"
    and off: "off = next_free_offset c" and c0: "c0 = fresh_context fd st k"
  shows "\<exists>c'. load_tables (take n (enc_tables bs fs c)) (fresh_context fd off k) = Some c' \<and>
    load_result c0 c bs fs st (length (enc_tables bs fs c) \<le> n) c'"
proof -
  note live = traverses_live [OF safe tr]
  let ?bms = "map (\<lambda>a. the (heap c a)) bs" and ?fr = "fresh_context fd off k"
  let ?B = "concat (map enc_block ?bms)" and ?F = "concat (map (enc_file c) fs)"
  let ?L = "concat (map enc_u64 (freeList c))"
  let ?r3 = "enc_u64 (int (length (freeList c))) @ ?L"
  let ?r2 = "enc_u64 (int (length fs)) @ ?F @ ?r3"
  have lens: "length bs < 2 ^ 64" "length fs < 2 ^ 64" "length (freeList c) < 2 ^ 64"
    using live(5,6) fits by (simp_all add: persist_fits_def)
  have tabs: "enc_tables bs fs c = enc_u64 (int (length bs)) @ ?B @ ?r2"
    by (simp add: enc_tables_def comp_def)
  have lt: "length (enc_tables bs fs c) = 8 + (length ?B + (8 + (length ?F + (8 + length ?L))))"
    by (simp add: tabs)
  have bf: "\<forall>bm\<in>set ?bms. block_fits bm"
    using live(1) fits by (force simp: persist_fits_def)
  have ff: "\<forall>f\<in>set fs. file_fits f \<and> finds c (with_blocks ?fr ?bms) (\<lambda>a. length (takeWhile (\<lambda>x. x \<noteq> a) bs)) (blockList f)"
    using finds_after_load [OF safe fits tr] live(3) fits unfolding persist_fits_def by blast
  have fl: "\<forall>x\<in>set (freeList c). - (2 ^ 63) \<le> x \<and> x < 2 ^ 63"
  proof
    fix x assume "x \<in> set (freeList c)"
    then have "slot_ok c x" using safe by (simp add: mem_safe_def layout_ok_def)
    then show "- (2 ^ 63) \<le> x \<and> x < 2 ^ 63" using fits by (auto simp: slot_ok_def persist_fits_def)
  qed
  have u: "read_uint64 (take n (enc_u64 (int (length xs)) @ r)) =
      (if n < 8 then None else Some (int (length xs), take (n - 8) r))" if "length xs < 2 ^ 64" for xs :: "'x list" and n r
    using that by (subst uint64_codec.dec_take) auto
  have empty: "restored c0 c off bs [] [] [] = ?fr" by (simp add: c0 restored_eq with_nothing)
  have re: "map (\<lambda>f. f\<lparr>blockList := map (\<lambda>a. length (takeWhile (\<lambda>x. x \<noteq> a) bs)) (blockList f)\<rparr>) = map (renamed bs)"
    by (simp add: renamed_def fun_eq_iff)
  have fr0: "with_blocks ?fr [] = ?fr" by (simp add: with_blocks_def fresh_context_def)
  have wf0: "with_files [] (with_blocks ?fr x) = with_blocks ?fr x" for x
    by (simp add: with_files_def with_blocks_def fresh_context_def)
  consider "n < 8" | "8 \<le> n" "n - 8 < length ?B" | "8 \<le> n" "length ?B \<le> n - 8" by linarith
  then show ?thesis
  proof cases
    case 1
    then have "load_tables (take n (enc_tables bs fs c)) ?fr = Some ?fr"
      unfolding load_tables_def tabs u [OF lens(1)] by simp
    moreover have nf: "\<not> length (enc_tables bs fs c) \<le> n" using 1 lt by linarith
    ultimately show ?thesis using empty off
      by (intro exI [of _ ?fr] conjI load_resultI [where ?m1.0 = 0 and ?m2.0 = 0 and ?m3.0 = 0]) simp_all
  next
    case 2
    obtain m where "load_blocks (length ?bms) (take (n - 8) (?B @ ?r2)) ?fr = Some (None, with_blocks ?fr (take m ?bms))"
      using load_blocks_take [of "[]" ?bms "n - 8" ?r2 ?fr] distinct_ids [OF safe tr] bf 2(2) by (auto simp: fr0 simp del: take_append)
    then have "load_tables (take n (enc_tables bs fs c)) ?fr = Some (restored c0 c off bs (take m bs) [] [])"
      using 2(1) unfolding load_tables_def tabs u [OF lens(1)] c0 restored_eq
      by (simp add: wf0 fr0 take_map del: take_append)
    moreover have nf: "\<not> length (enc_tables bs fs c) \<le> n" using 2 lt by linarith
    ultimately show ?thesis using off
      by (intro exI conjI load_resultI [where ?m1.0 = m and ?m2.0 = 0 and ?m3.0 = 0]) simp_all
  next
    case 3
    let ?n2 = "n - 8 - length ?B"
    have b: "load_blocks (length bs) (take (n - 8) (?B @ ?r2)) ?fr = Some (Some (take ?n2 ?r2), with_files [] (with_blocks ?fr ?bms))"
      using load_blocks_take [of "[]" ?bms "n - 8" ?r2 ?fr] distinct_ids [OF safe tr] bf 3(2)
      by (simp add: fr0 wf0 del: take_append)
    obtain m where f: "load_files (length fs) (take (?n2 - 8) (?F @ ?r3)) (with_files [] (with_blocks ?fr ?bms)) =
      (if ?n2 - 8 < length ?F then Some (None, with_files (map (renamed bs) (take m fs)) (with_blocks ?fr ?bms))
       else Some (Some (take (?n2 - 8 - length ?F) ?r3), with_files (map (renamed bs) fs) (with_blocks ?fr ?bms)))"
      using load_files_take [OF _ ff, of "[]" "?n2 - 8" ?r3, unfolded append_Nil list.map(1) re] tr
      unfolding traverses_def by blast
    have start: "load_tables (take n (enc_tables bs fs c)) ?fr =
        (case read_uint64 (take ?n2 ?r2) of None \<Rightarrow> Some (with_files [] (with_blocks ?fr ?bms))
         | Some (nfiles, f) \<Rightarrow> do {
             (f, c) \<leftarrow> load_files (nat nfiles) f (with_files [] (with_blocks ?fr ?bms));
             (case f of None \<Rightarrow> Some c | Some f \<Rightarrow>
              case read_uint64 f of None \<Rightarrow> Some c
              | Some (nfree, f) \<Rightarrow> Some (load_free (nat nfree) f c)) })"
    proof -
      have "\<not> n < 8" using 3(1) by simp
      then show ?thesis
        by (simp only: load_tables_def tabs u [OF lens(1)] b if_False option.case prod.case nat_int Option.bind.bind_lunit)
    qed
    note whole = restored_eq [of fd st k c off bs bs, folded c0, symmetric]
    consider "?n2 < 8" | "8 \<le> ?n2" "?n2 - 8 < length ?F" | "8 \<le> ?n2" "length ?F \<le> ?n2 - 8" "?n2 - 8 - length ?F < 8"
      | "8 \<le> ?n2" "length ?F \<le> ?n2 - 8" "8 \<le> ?n2 - 8 - length ?F"
      by (rule stages)
    then show ?thesis
    proof cases
      case 1
      then have "load_tables (take n (enc_tables bs fs c)) ?fr = Some (restored c0 c off bs bs [] [])"
        unfolding start u [OF lens(2)] using whole [of "[]"] by simp
      moreover have nf: "\<not> length (enc_tables bs fs c) \<le> n" using 1 \<open>8 \<le> n\<close> \<open>length ?B \<le> n - 8\<close> lt by linarith
      ultimately show ?thesis using off
        by (intro exI conjI load_resultI [where ?m1.0 = "length bs" and ?m2.0 = 0 and ?m3.0 = 0]) simp_all
    next
      case 2
      then have a: "\<not> ?n2 < 8" by (simp only: not_less)
      have f': "load_files (length fs) (take (?n2 - 8) (?F @ ?r3)) (with_files [] (with_blocks ?fr ?bms)) =
        Some (None, restored c0 c off bs bs (take m fs) [])"
        using f by (simp only: 2(2) if_True whole)
      have "load_tables (take n (enc_tables bs fs c)) ?fr = Some (restored c0 c off bs bs (take m fs) [])"
        by (simp only: start u [OF lens(2)] a f' if_False option.case prod.case nat_int Option.bind.bind_lunit)
      moreover have nf: "\<not> length (enc_tables bs fs c) \<le> n" using 2 \<open>8 \<le> n\<close> \<open>length ?B \<le> n - 8\<close> lt by linarith
      ultimately show ?thesis using off
        by (intro exI conjI load_resultI [where ?m1.0 = "length bs" and ?m2.0 = m and ?m3.0 = 0]) simp_all
    next
      case 3
      note n3 = this
      then have a: "\<not> ?n2 < 8" "\<not> ?n2 - 8 < length ?F" by (simp_all only: not_less)
      have f': "load_files (length fs) (take (?n2 - 8) (?F @ ?r3)) (with_files [] (with_blocks ?fr ?bms)) =
        Some (Some (take (?n2 - 8 - length ?F) ?r3), restored c0 c off bs bs fs [])"
        using f by (simp only: a if_False whole)
      have "load_tables (take n (enc_tables bs fs c)) ?fr = Some (restored c0 c off bs bs fs [])"
        by (simp only: start u [OF lens(2)] u [OF lens(3)] a n3(3) f' if_False if_True option.case prod.case
            nat_int Option.bind.bind_lunit)
      moreover have nf: "\<not> length (enc_tables bs fs c) \<le> n" using n3 \<open>8 \<le> n\<close> \<open>length ?B \<le> n - 8\<close> lt by linarith
      ultimately show ?thesis using off
        by (intro exI conjI load_resultI [where ?m1.0 = "length bs" and ?m2.0 = "length fs" and ?m3.0 = 0]) simp_all
    next
      case 4
      let ?n5 = "?n2 - 8 - length ?F - 8"
      obtain m3 where free: "load_free (length (freeList c)) (take ?n5 ?L) (restored c0 c off bs bs fs []) =
          (restored c0 c off bs bs fs [])\<lparr>freeList := freeList (restored c0 c off bs bs fs []) @ take m3 (freeList c)\<rparr>"
        "length ?L \<le> ?n5 \<longrightarrow> take m3 (freeList c) = freeList c"
        using load_free_take [OF fl, of ?n5 "restored c0 c off bs bs fs []"] by blast
      have a: "\<not> ?n2 < 8" "\<not> ?n2 - 8 < length ?F" "\<not> ?n2 - 8 - length ?F < 8"
        using 4 by (simp_all only: not_less)
      have f': "load_files (length fs) (take (?n2 - 8) (?F @ ?r3)) (with_files [] (with_blocks ?fr ?bms)) =
        Some (Some (take (?n2 - 8 - length ?F) ?r3), restored c0 c off bs bs fs [])"
        using f by (simp only: a if_False whole)
      have "load_tables (take n (enc_tables bs fs c)) ?fr =
          Some ((restored c0 c off bs bs fs [])\<lparr>freeList := freeList (restored c0 c off bs bs fs []) @ take m3 (freeList c)\<rparr>)"
        by (simp only: start u [OF lens(2)] u [OF lens(3)] a f' free(1) if_False option.case prod.case
            nat_int Option.bind.bind_lunit)
      then have "load_tables (take n (enc_tables bs fs c)) ?fr = Some (restored c0 c off bs bs fs (take m3 (freeList c)))"
        by (simp add: restored_def)
      moreover have "take m3 (freeList c) = freeList c" if "length (enc_tables bs fs c) \<le> n"
      proof -
        have "length ?L \<le> ?n5" using that lt by linarith
        then show ?thesis using free(2) by simp
      qed
      ultimately show ?thesis using off
        by (intro exI conjI load_resultI [where ?m1.0 = "length bs" and ?m2.0 = "length fs" and ?m3.0 = m3]) simp_all
    qed
  qed
qed


section \<open>The invariants after loading\<close>

lemma restored_fields [simp]:
  "backend_fd (restored (fresh_context fd st k) c off bs bs1 fs1 fl1) = fd"
  "kern (restored (fresh_context fd st k) c off bs bs1 fs1 fl1) = k"
  "freeList (restored (fresh_context fd st k) c off bs bs1 fs1 fl1) = fl1"
  "next_free_offset (restored (fresh_context fd st k) c off bs bs1 fs1 fl1) = off"
  "next_addr (restored (fresh_context fd st k) c off bs bs1 fs1 fl1) = length bs1"
  by (simp_all add: restored_def with_files_def with_blocks_def fresh_context_def)

lemma restored_heap:
  "heap (restored c0 c off bs bs1 fs1 fl1) i = (if i < length bs1 then Some (the (heap c (bs1 ! i))) else None)"
  by (simp add: restored_def with_files_def with_blocks_def)

lemma restored_blockIndex:
  "blockIndex (restored c0 c off bs bs1 fs1 fl1) =
     map_of (zip (map block_id (map (\<lambda>a. the (heap c a)) bs1)) [0..<length bs1])"
  by (simp add: restored_def with_files_def with_blocks_def)

lemma renamed_fields [simp]:
  "file_id (renamed bs f) = file_id f" "realSize (renamed bs f) = realSize f"
  "logicalSize (renamed bs f) = logicalSize f" "length (blockList (renamed bs f)) = length (blockList f)"
  by (simp_all add: renamed_def)

lemma restored_fileIndex:
  assumes "distinct (map file_id fs1)"
  shows "fileIndex (restored c0 c off bs bs1 fs1 fl1) p = Some g \<longleftrightarrow>
    (\<exists>f\<in>set fs1. file_id f = p \<and> g = renamed bs f)"
proof -
  have "fileIndex (restored c0 c off bs bs1 fs1 fl1) = map_of (map (\<lambda>f. (file_id f, renamed bs f)) fs1)"
    by (simp add: restored_def with_files_def comp_def)
  moreover have "distinct (map fst (map (\<lambda>f. (file_id f, renamed bs f)) fs1))" using assms by (simp add: comp_def)
  ultimately show ?thesis by (auto simp: map_of_eq_Some_iff)
qed

text \<open>A part of the tables of \<open>c\<close> that a load can have brought back.\<close>

definition partial_load ::
  "'k Context \<Rightarrow> addr list \<Rightarrow> filemeta list \<Rightarrow> addr list \<Rightarrow> filemeta list \<Rightarrow> int list \<Rightarrow> int \<Rightarrow> int \<Rightarrow> int \<Rightarrow> 'k
   \<Rightarrow> 'k Context \<Rightarrow> bool" where
  "partial_load c bs fs bs1 fs1 fl1 off st fd k c' \<longleftrightarrow>
     mem_safe c \<and> traverses bs fs c \<and> bs1 = take (length bs1) bs \<and> fs1 = take (length fs1) fs \<and>
     fl1 = take (length fl1) (freeList c) \<and> (fs1 = [] \<or> bs1 = bs) \<and>
     (off = next_free_offset c \<or> off = st \<and> bs1 = [] \<and> fl1 = []) \<and> 4096 dvd st \<and> 0 \<le> st \<and>
     c' = restored (fresh_context fd st k) c off bs bs1 fs1 fl1"

lemma partial_parts:
  assumes "partial_load c bs fs bs1 fs1 fl1 off st fd k c'"
  shows "mem_safe c" "traverses bs fs c" "bs1 = take (length bs1) bs" "fs1 = take (length fs1) fs"
    "fl1 = take (length fl1) (freeList c)" "fs1 = [] \<or> bs1 = bs"
    "off = next_free_offset c \<or> off = st \<and> bs1 = [] \<and> fl1 = []" "4096 dvd st" "0 \<le> st"
    "c' = restored (fresh_context fd st k) c off bs bs1 fs1 fl1"
  using assms by (simp_all add: partial_load_def)

lemma partial_fields:
  assumes P: "partial_load c bs fs bs1 fs1 fl1 off st fd k c'"
  shows "backend_fd c' = fd" "kern c' = k" "freeList c' = fl1" "next_free_offset c' = off" "next_addr c' = length bs1"
    "heap c' i = (if i < length bs1 then Some (the (heap c (bs1 ! i))) else None)"
    "blockIndex c' = map_of (zip (map block_id (map (\<lambda>a. the (heap c a)) bs1)) [0..<length bs1])"
  by (simp_all add: partial_parts(10) [OF P] restored_heap restored_blockIndex)

lemma pl_live:
  assumes P: "partial_load c bs fs bs1 fs1 fl1 off st fd k c'"
  shows "set bs = dom (heap c)" "distinct bs" "f \<in> set fs \<Longrightarrow> fileIndex c (file_id f) = Some f"
    "f \<in> set fs \<Longrightarrow> set (blockList f) \<subseteq> set bs"
  using traverses_live [OF partial_parts(1,2) [OF P]] by blast+

lemma pl_ids:
  assumes P: "partial_load c bs fs bs1 fs1 fl1 off st fd k c'"
  shows "distinct (map file_id fs1)" "f \<in> set fs1 \<Longrightarrow> f \<in> set fs"
proof -
  have "distinct (map file_id fs)" using partial_parts(2) [OF P] by (simp add: traverses_def)
  then have "distinct (map file_id (take (length fs1) fs))" by (simp add: take_map [symmetric])
  then show "distinct (map file_id fs1)" using partial_parts(4) [OF P] by simp
  show "f \<in> set fs1 \<Longrightarrow> f \<in> set fs" using partial_parts(4) [OF P] in_set_takeD by metis
qed

lemma pl_fin: "partial_load c bs fs bs1 fs1 fl1 off st fd k c' \<Longrightarrow> finite (dom (fileIndex c))"
  by (simp add: partial_load_def mem_safe_def files_ok_def)

lemma pl_nth:
  assumes P: "partial_load c bs fs bs1 fs1 fl1 off st fd k c'"
  shows "i < length bs1 \<Longrightarrow> bs1 ! i = bs ! i" "length bs1 \<le> length bs"
  using partial_parts(3) [OF P] by (metis nth_take, metis length_take min.cobounded1)

lemma pl_heap_old:
  assumes P: "partial_load c bs fs bs1 fs1 fl1 off st fd k c'"
  shows "i < length bs \<Longrightarrow> \<exists>b. heap c (bs ! i) = Some b"
  using pl_live(1) [OF P] nth_mem [of i bs] by auto

lemma pl_heap:
  assumes P: "partial_load c bs fs bs1 fs1 fl1 off st fd k c'"
  shows "heap c' i = Some b \<longleftrightarrow> i < length bs1 \<and> heap c (bs ! i) = Some b"
  using pl_nth [OF P] pl_heap_old [OF P, of i] by (auto simp: partial_fields [OF P])

lemma pl_dom:
  assumes P: "partial_load c bs fs bs1 fs1 fl1 off st fd k c'"
  shows "dom (heap c') = {..<length bs1}"
  by (auto simp: partial_fields [OF P] split: if_splits)

lemma pl_position:
  assumes P: "partial_load c bs fs bs1 fs1 fl1 off st fd k c'"
  shows "i < length bs \<Longrightarrow> length (takeWhile (\<lambda>x. x \<noteq> bs ! i) bs) = i"
  using pl_live(2) [OF P] by (rule position)

lemma pl_count:
  assumes P: "partial_load c bs fs bs1 fs1 fl1 off st fd k c'" and "set bl \<subseteq> set bs" and "i < length bs"
  shows "count_list (map (\<lambda>a. length (takeWhile (\<lambda>x. x \<noteq> a) bs)) bl) i = count_list bl (bs ! i)"
  using assms(2)
proof (induction bl)
  case (Cons a bl)
  then obtain j where "j < length bs" "bs ! j = a" by (auto simp: in_set_conv_nth)
  then show ?case
    using Cons pl_position [OF P, of j] assms(3) pl_live(2) [OF P] by (auto simp: nth_eq_iff_index_eq)
qed simp

lemma pl_index_ok:
  assumes P: "partial_load c bs fs bs1 fs1 fl1 off st fd k c'"
  shows "index_ok c'"
proof -
  have ix: "index_ok c" using partial_parts(1) [OF P] by (simp add: mem_safe_def)
  let ?ids = "map block_id (map (\<lambda>a. the (heap c a)) bs1)"
  have "?ids = take (length bs1) (map block_id (map (\<lambda>a. the (heap c a)) bs))"
    by (subst partial_parts(3) [OF P]) (simp add: take_map)
  then have d: "distinct ?ids" using distinct_ids [OF partial_parts(1) [OF P] partial_parts(2) [OF P]] by simp
  have at: "blockIndex c' h = Some i \<longleftrightarrow> i < length bs1 \<and> ?ids ! i = h" for h i
  proof
    assume "blockIndex c' h = Some i"
    then have "(h, i) \<in> set (zip ?ids [0..<length bs1])" unfolding partial_fields(7) [OF P] by (rule map_of_SomeD)
    then show "i < length bs1 \<and> ?ids ! i = h" by (auto simp: in_set_zip)
  next
    assume "i < length bs1 \<and> ?ids ! i = h"
    moreover have "map_of (zip ?ids [0..<length bs1]) (?ids ! i) = Some ([0..<length bs1] ! i)" if "i < length bs1"
      using d that by (intro map_of_zip_nth) simp_all
    ultimately show "blockIndex c' h = Some i" by (auto simp: partial_fields(7) [OF P])
  qed
  have "\<exists>b. heap c' i = Some b \<and> block_id b = h" if "blockIndex c' h = Some i" for h i
    using that unfolding at by (auto simp: partial_fields(6) [OF P])
  moreover have "blockIndex c' (block_id b) = Some i \<and> i < next_addr c' \<and> block_size b = 4096 \<and> 0 < counter b"
    if "heap c' i = Some b" for i b
  proof -
    have i: "i < length bs1" "heap c (bs ! i) = Some b" using that pl_heap [OF P] by auto
    then have "?ids ! i = block_id b" using pl_nth(1) [OF P] by simp
    then show ?thesis using i at index_okD2 [OF ix i(2)] partial_fields(5) [OF P] by simp
  qed
  ultimately show ?thesis by (simp add: index_ok_def)
qed

lemma pl_files:
  assumes P: "partial_load c bs fs bs1 fs1 fl1 off st fd k c'"
  shows "fileIndex c' p = Some g \<longleftrightarrow> (\<exists>f\<in>set fs1. file_id f = p \<and> g = renamed bs f)"
  unfolding partial_parts(10) [OF P] by (rule restored_fileIndex [OF pl_ids(1) [OF P]])

lemma pl_dom_files:
  assumes P: "partial_load c bs fs bs1 fs1 fl1 off st fd k c'"
  shows "dom (fileIndex c') = file_id ` set fs1" "dom (fileIndex c') \<subseteq> dom (fileIndex c)"
proof -
  show d: "dom (fileIndex c') = file_id ` set fs1" using pl_files [OF P] by (auto simp: dom_def)
  show "dom (fileIndex c') \<subseteq> dom (fileIndex c)" unfolding d using pl_live(3) [OF P] pl_ids(2) [OF P] by blast
qed

lemma pl_file:
  assumes P: "partial_load c bs fs bs1 fs1 fl1 off st fd k c'" and "p \<in> dom (fileIndex c')"
  obtains f where "fileIndex c p = Some f" "fileIndex c' p = Some (renamed bs f)" "f \<in> set fs1"
proof -
  obtain f where f: "f \<in> set fs1" "file_id f = p" using assms(2) pl_dom_files(1) [OF P] by auto
  then have "fileIndex c' p = Some (renamed bs f)" using pl_files [OF P] by blast
  then show ?thesis using that f pl_live(3) [OF P, OF pl_ids(2) [OF P, OF f(1)]] by simp
qed

lemma pl_refs:
  assumes P: "partial_load c bs fs bs1 fs1 fl1 off st fd k c'" and "i < length bs"
  shows "refs (fileIndex c') i = (\<Sum>p\<in>dom (fileIndex c'). count_list (blockList (the (fileIndex c p))) (bs ! i))"
  unfolding refs_def
proof (rule sum.cong [OF refl])
  fix p assume "p \<in> dom (fileIndex c')"
  then obtain f where f: "fileIndex c p = Some f" "fileIndex c' p = Some (renamed bs f)" "f \<in> set fs1" by (rule pl_file [OF P])
  then show "count_list (blockList (the (fileIndex c' p))) i = count_list (blockList (the (fileIndex c p))) (bs ! i)"
    using pl_count [OF P, OF pl_live(4) [OF P, OF pl_ids(2) [OF P f(3)]] assms(2)] by (simp add: renamed_def)
qed

lemma pl_refs_le:
  assumes P: "partial_load c bs fs bs1 fs1 fl1 off st fd k c'"
  shows "i < length bs \<Longrightarrow> refs (fileIndex c') i \<le> refs (fileIndex c) (bs ! i)"
  unfolding refs_def [of "fileIndex c"] by (subst pl_refs [OF P], assumption)
    (simp add: sum_mono2 [OF pl_fin [OF P] pl_dom_files(2) [OF P]])

lemma pl_refs_eq:
  assumes P: "partial_load c bs fs bs1 fs1 fl1 off st fd k c'"
  shows "fs1 = fs \<Longrightarrow> i < length bs \<Longrightarrow> refs (fileIndex c') i = refs (fileIndex c) (bs ! i)"
proof -
  assume "fs1 = fs" "i < length bs"
  moreover have "dom (fileIndex c) = file_id ` set fs" using partial_parts(2) [OF P] by (auto simp: traverses_def)
  ultimately show "refs (fileIndex c') i = refs (fileIndex c) (bs ! i)"
    using pl_refs [OF P] pl_dom_files(1) [OF P] by (simp add: refs_def)
qed

lemma pl_refs_outside:
  assumes P: "partial_load c bs fs bs1 fs1 fl1 off st fd k c'" and "\<not> i < length bs1"
  shows "refs (fileIndex c') i = 0"
proof -
  have "count_list (blockList (the (fileIndex c' p))) i = 0" if "p \<in> dom (fileIndex c')" for p
  proof -
    obtain f where f: "fileIndex c' p = Some (renamed bs f)" "f \<in> set fs1" using \<open>p \<in> dom (fileIndex c')\<close> by (rule pl_file [OF P])
    then have b: "bs1 = bs" using partial_parts(6) [OF P] by auto
    have "length (takeWhile (\<lambda>x. x \<noteq> a) bs) < length bs" if "a \<in> set (blockList f)" for a
    proof -
      have "a \<in> set bs" using that pl_live(4) [OF P, OF pl_ids(2) [OF P, OF f(2)]] by blast
      then obtain j where "j < length bs" "bs ! j = a" by (auto simp: in_set_conv_nth)
      then show ?thesis using pl_position [OF P] by force
    qed
    then have "i \<notin> set (blockList (renamed bs f))" using assms(2) b by (auto simp: renamed_def)
    then show ?thesis using f(1) by (simp add: count_list_0_iff)
  qed
  then show ?thesis by (simp add: refs_def)
qed

lemma pl_ctr:
  assumes P: "partial_load c bs fs bs1 fs1 fl1 off st fd k c'"
  shows "ctr (heap c') i = (if i < length bs1 then ctr (heap c) (bs ! i) else 0)"
proof (cases "i < length bs1")
  case True
  then obtain b where "heap c (bs ! i) = Some b" using pl_heap_old [OF P, of i] pl_nth(2) [OF P] by auto
  with True pl_heap [OF P, of i b] show ?thesis by simp
qed (simp add: partial_fields(6) [OF P] ctr_def)

lemma pl_boff:
  assumes P: "partial_load c bs fs bs1 fs1 fl1 off st fd k c'"
  shows "i < length bs1 \<Longrightarrow> boff c' i = boff c (bs ! i)"
proof -
  assume i: "i < length bs1"
  then obtain b where "heap c (bs ! i) = Some b" using pl_heap_old [OF P, of i] pl_nth(2) [OF P] by auto
  with i pl_heap [OF P, of i b] show "boff c' i = boff c (bs ! i)" by simp
qed

lemma pl_layout:
  assumes P: "partial_load c bs fs bs1 fs1 fl1 off st fd k c'"
  shows "layout_ok c' (dom (heap c'))"
proof -
  have lay: "layout_ok c (dom (heap c))" using partial_parts(1) [OF P] by (simp add: mem_safe_def)
  have sub: "boff c' ` dom (heap c') \<subseteq> boff c ` dom (heap c)"
  proof
    fix x assume "x \<in> boff c' ` dom (heap c')"
    then obtain i where i: "i < length bs1" "x = boff c' i" unfolding pl_dom [OF P] by blast
    then have "bs ! i \<in> dom (heap c)" using pl_heap_old [OF P, of i] pl_nth(2) [OF P] by auto
    then show "x \<in> boff c ` dom (heap c)" using i pl_boff [OF P] by simp
  qed
  have fl: "set fl1 \<subseteq> set (freeList c)" "distinct fl1"
    using partial_parts(5) [OF P] lay set_take_subset distinct_take by (metis, metis layout_ok_def)
  have "inj_on (boff c') (dom (heap c'))"
  proof (rule inj_onI)
    fix i j assume "i \<in> dom (heap c')" "j \<in> dom (heap c')" "boff c' i = boff c' j"
    then have ij: "i < length bs1" "j < length bs1" "boff c (bs ! i) = boff c (bs ! j)"
      unfolding pl_dom [OF P] using pl_boff [OF P] by simp_all
    moreover have "bs ! i \<in> dom (heap c)" "bs ! j \<in> dom (heap c)"
      using ij pl_heap_old [OF P, of i] pl_heap_old [OF P, of j] pl_nth(2) [OF P] by auto
    moreover have "inj_on (boff c) (dom (heap c))" using lay by (simp add: layout_ok_def)
    ultimately have "bs ! i = bs ! j" by (simp add: inj_onD)
    then show "i = j" using ij pl_nth(2) [OF P] pl_live(2) [OF P] by (simp add: nth_eq_iff_index_eq)
  qed
  moreover have "boff c' ` dom (heap c') \<inter> set (freeList c') = {}"
  proof -
    have "boff c ` dom (heap c) \<inter> set (freeList c) = {}" using lay by (simp add: layout_ok_def)
    moreover have "boff c' ` dom (heap c') \<inter> set fl1 \<subseteq> boff c ` dom (heap c) \<inter> set (freeList c)"
      using sub fl(1) by (rule Int_mono)
    ultimately show ?thesis by (simp only: partial_fields(3) [OF P] subset_empty)
  qed
  moreover have "\<forall>x \<in> boff c' ` dom (heap c') \<union> set (freeList c'). slot_ok c' x"
  proof
    fix x assume x: "x \<in> boff c' ` dom (heap c') \<union> set (freeList c')"
    then have "off = next_free_offset c" using partial_parts(7) [OF P] by (auto simp: pl_dom [OF P] partial_fields(3) [OF P])
    moreover have "x \<in> boff c ` dom (heap c) \<union> set (freeList c)"
      using x sub fl(1) unfolding partial_fields(3) [OF P] by blast
    then have "slot_ok c x" using lay unfolding layout_ok_def by blast
    ultimately show "slot_ok c' x" by (simp add: slot_ok_def partial_fields(4) [OF P])
  qed
  moreover have "4096 dvd off \<and> 0 \<le> off" using partial_parts(7) [OF P] partial_parts(8,9) [OF P] lay by (auto simp: layout_ok_def)
  ultimately show ?thesis using fl(2) by (simp add: layout_ok_def partial_fields(3,4) [OF P])
qed

lemma pl_mem_safe:
  assumes P: "partial_load c bs fs bs1 fs1 fl1 off st fd k c'"
  shows "mem_safe c'"
proof -
  have "refs_ok c' []"
    unfolding refs_ok_def
  proof
    fix i
    show "int (refs (fileIndex c') i + count_list [] i) \<le> ctr (heap c') i"
    proof (cases "i < length bs1")
      case True
      have "int (refs (fileIndex c) (bs ! i)) \<le> ctr (heap c) (bs ! i)"
        using partial_parts(1) [OF P] by (simp add: mem_safe_def refs_ok_def)
      with True pl_refs_le [OF P, of i] pl_nth(2) [OF P] show ?thesis by (simp add: pl_ctr [OF P])
    qed (simp add: pl_ctr [OF P] pl_refs_outside [OF P])
  qed
  moreover have "files_ok c'"
    unfolding files_ok_def
  proof (intro conjI allI impI)
    show "finite (dom (fileIndex c'))" using pl_dom_files(2) [OF P] pl_fin [OF P] by (rule finite_subset)
    fix p g assume "fileIndex c' p = Some g"
    then obtain f where f: "f \<in> set fs1" "file_id f = p" "g = renamed bs f" using pl_files [OF P] by auto
    then have "fileIndex c p = Some f" using pl_live(3) [OF P] pl_ids(2) [OF P] by blast
    then have "0 \<le> logicalSize f" "logicalSize f \<le> 4096 * int (length (blockList f))"
      using partial_parts(1) [OF P] by (simp_all add: mem_safe_def files_ok_def)
    then show "file_id g = p" "0 \<le> logicalSize g" "logicalSize g \<le> 4096 * int (length (blockList g))"
      using f by simp_all
  qed
  ultimately show ?thesis using pl_index_ok [OF P] pl_layout [OF P] by (simp add: mem_safe_def)
qed

lemma pl_block_data:
  assumes P: "partial_load c bs fs bs1 fs1 fl1 off st fd k c'" and "view k = view (kern c)" and "i < length bs1"
  shows "block_data view c' i = block_data view c (bs ! i)"
  using assms(2) pl_boff [OF P, OF assms(3)] partial_fields(2) [OF P] by (simp add: block_data_def)

lemma pl_store_ok:
  assumes P: "partial_load c bs fs bs1 fs1 fl1 off st fd k c'" and ok: "store_ok E view c" and v: "view k = view (kern c)" and fd: "fd \<noteq> -1"
    and all: "bs1 = bs" "fs1 = fs"
  shows "store_ok E view c'" and "abs_fs view c' = abs_fs view c"
proof -
  have exact: "exact_store c" and cont: "content_ok E view c (dom (heap c))" using ok by (simp_all add: store_ok_def)
  have "refs_exact c' []"
    unfolding refs_exact_def
  proof
    fix i
    have "ctr (heap c) (bs ! i) = int (refs (fileIndex c) (bs ! i))"
      using exact by (simp add: exact_store_def refs_exact_def)
    then show "ctr (heap c') i = int (refs (fileIndex c') i + count_list [] i)"
      using pl_refs_eq [OF P, OF all(2), of i] pl_refs_outside [OF P, of i] pl_ctr [OF P, of i] all(1)
      by (cases "i < length bs") simp_all
  qed
  moreover have "sizes_ok c'"
    unfolding sizes_ok_def
  proof (intro allI impI)
    fix p g assume "fileIndex c' p = Some g"
    then obtain f where f: "f \<in> set fs1" "file_id f = p" "g = renamed bs f" using pl_files [OF P] by auto
    then have "fileIndex c p = Some f" using pl_live(3) [OF P] pl_ids(2) [OF P] by blast
    then show "logicalSize g = 4096 * int (length (blockList g))"
      using exact f by (simp add: exact_store_def sizes_ok_def)
  qed
  moreover have "content_ok E view c' (dom (heap c'))"
    unfolding content_ok_def
  proof
    fix i assume "i \<in> dom (heap c')"
    then obtain b where b: "heap c' i = Some b" by blast
    then have h: "heap c (bs ! i) = Some b" using pl_heap [OF P] by blast
    from cont h have "\<exists>d. view (kern c) (block_offset b) = Some d \<and> length d = 4096 \<and> sha512 E d = block_id b"
      unfolding content_ok_def by (metis domI option.inject)
    then show "\<exists>b d. heap c' i = Some b \<and> view (kern c') (block_offset b) = Some d \<and> length d = 4096 \<and> sha512 E d = block_id b"
      using b v partial_fields(2) [OF P] by simp
  qed
  ultimately show "store_ok E view c'"
    using pl_mem_safe [OF P] fd partial_fields(1) [OF P] by (simp add: store_ok_def exact_store_def)
  show "abs_fs view c' = abs_fs view c"
  proof
    fix p
    have doms: "dom (fileIndex c') = dom (fileIndex c)"
      using pl_dom_files(1) [OF P] all(2) partial_parts(2) [OF P] by (auto simp: traverses_def)
    show "abs_fs view c' p = abs_fs view c p"
    proof (cases "p \<in> dom (fileIndex c')")
      case True
      then obtain f where f: "fileIndex c p = Some f" "fileIndex c' p = Some (renamed bs f)" "f \<in> set fs1" by (rule pl_file [OF P])
      have "block_data view c' (length (takeWhile (\<lambda>x. x \<noteq> a) bs)) = block_data view c a"
        if "a \<in> set (blockList f)" for a
      proof -
        have "a \<in> set bs" using that pl_live(4) [OF P, OF pl_ids(2) [OF P, OF f(3)]] by blast
        then obtain j where j: "j < length bs" "bs ! j = a" by (auto simp: in_set_conv_nth)
        then show ?thesis using pl_position [OF P, OF j(1)] pl_block_data [OF P, where view = view, OF v, of j] all(1) by simp
      qed
      then have "file_data view c' (renamed bs f) = file_data view c f"
        by (simp add: file_data_def renamed_def comp_def cong: map_cong)
      then show ?thesis using f by (simp add: abs_fs_def)
    next
      case False
      moreover from this have "p \<notin> dom (fileIndex c)" using doms by simp
      ultimately show ?thesis by (simp add: abs_fs_def domIff)
    qed
  qed
qed

section \<open>Unmounting and mounting again\<close>

lemma fresh_backend [simp]: "backend_fd (fresh_context fd st k) = fd" "next_free_offset (fresh_context fd st k) = st"
  by (simp_all add: fresh_context_def)

lemma load_outcome:
  assumes safe: "mem_safe c" and fits: "persist_fits c" and tr: "traverses bs fs c"
  obtains c' where "load_metadata (Some (take n (encode_metadata bs fs c))) (fresh_context fd st k) = Some c'"
    "load_result (fresh_context fd st k) c bs fs st (length (encode_metadata bs fs c) \<le> n) c'"
proof -
  let ?fr = "fresh_context fd st k"
  have g: "- (2 ^ 63) \<le> next_free_offset c \<and> next_free_offset c < 2 ^ 63"
    using safe fits by (simp add: mem_safe_def layout_ok_def persist_fits_def)
  have rd: "read_int64 (take n (encode_metadata bs fs c)) =
      (if n < 8 then None else Some (next_free_offset c, take (n - 8) (enc_tables bs fs c)))"
    unfolding encode_metadata_def using int64_codec.dec_take [OF g] by simp
  have len: "length (encode_metadata bs fs c) = 8 + length (enc_tables bs fs c)" by (simp add: encode_metadata_def)
  show ?thesis
  proof (cases "n < 8")
    case True
    then have "load_metadata (Some (take n (encode_metadata bs fs c))) ?fr = Some ?fr"
      by (simp add: load_metadata_def rd)
    moreover have "?fr = restored ?fr c st bs (take 0 bs) (take 0 fs) (take 0 (freeList c))"
      by (simp add: restored_eq with_nothing)
    then have "load_result ?fr c bs fs st (length (encode_metadata bs fs c) \<le> n) ?fr"
      using True len unfolding load_result_def
      by (intro exI [of _ st] exI [of _ 0] conjI) simp_all
    ultimately show ?thesis using that [of ?fr] by blast
  next
    case False
    obtain c' where "load_tables (take (n - 8) (enc_tables bs fs c)) (fresh_context fd (next_free_offset c) k) = Some c'"
      "load_result ?fr c bs fs st (length (enc_tables bs fs c) \<le> n - 8) c'"
      using load_tables_take [OF safe fits tr refl refl, of "n - 8" fd k st] by blast
    moreover have "length (encode_metadata bs fs c) \<le> n \<longleftrightarrow> length (enc_tables bs fs c) \<le> n - 8"
      using False len by linarith
    ultimately show ?thesis using that False rd by (simp add: load_metadata_def fresh_offset)
  qed
qed

lemma load_result_partial:
  assumes safe: "mem_safe c" and tr: "traverses bs fs c" and st: "4096 dvd st" "0 \<le> st"
    and res: "load_result (fresh_context fd st k) c bs fs st full c'"
  obtains off bs1 fs1 fl1 where "partial_load c bs fs bs1 fs1 fl1 off st fd k c'"
    "full \<Longrightarrow> off = next_free_offset c \<and> bs1 = bs \<and> fs1 = fs \<and> fl1 = freeList c"
proof -
  obtain off m1 m2 m3 where m: "c' = restored (fresh_context fd st k) c off bs (take m1 bs) (take m2 fs) (take m3 (freeList c))"
    "off = next_free_offset c \<or> off = st \<and> take m1 bs = [] \<and> take m3 (freeList c) = []"
    "take m2 fs = [] \<or> take m1 bs = bs"
    "full \<longrightarrow> off = next_free_offset c \<and> take m1 bs = bs \<and> take m2 fs = fs \<and> take m3 (freeList c) = freeList c"
    using res unfolding load_result_def by blast
  have t: "take m xs = take (length (take m xs)) xs" for m and xs :: "'x list" by (simp add: min_def)
  have "partial_load c bs fs (take m1 bs) (take m2 fs) (take m3 (freeList c)) off st fd k c'"
    unfolding partial_load_def 
    by (intro conjI) (fact safe, fact tr, rule t, rule t, rule t, fact m(3), fact m(2), fact st(1), fact st(2), fact m(1))
  then show ?thesis using that m(4) by blast
qed

lemma restored_any_size:
  "restored (fresh_context fd st k) c off bs bs1 fs1 fl1 = restored (fresh_context fd 0 k) c off bs bs1 fs1 fl1"
  unfolding restored_def by (simp add: fresh_offset)

lemma load_result_any_size:
  "load_result (fresh_context fd st k) c bs fs st True c' \<Longrightarrow> load_result (fresh_context fd 0 k) c bs fs 0 True c'"
  unfolding load_result_def restored_any_size [of fd st] by auto

lemma remount:
  assumes ok: "store_ok E view c" and fits: "persist_fits c" and tr: "traverses bs fs c"
    and cap: "length (encode_metadata bs fs c) \<le> cap" and fd: "fd \<noteq> -1" and v: "view k = view (kern c)"
  shows "\<exists>meta c'. xmp_destroy True cap bs fs c old = Some (Some meta) \<and>
    xmp_init fd st_size junk (Some meta) k = Some c' \<and> store_ok E view c' \<and> abs_fs view c' = abs_fs view c \<and>
    freeList c' = freeList c \<and> next_free_offset c' = next_free_offset c"
proof -
  have safe: "mem_safe c" using ok by (simp add: store_ok_def)
  let ?st = "case st_size of Some s \<Rightarrow> s | None \<Rightarrow> 0"
  obtain c' where c': "load_metadata (Some (take cap (encode_metadata bs fs c))) (fresh_context fd ?st k) = Some c'"
    "load_result (fresh_context fd ?st k) c bs fs ?st True c'"
    using load_outcome [OF safe fits tr, of cap fd ?st k] cap by auto
  from load_result_any_size [OF c'(2)] obtain off bs1 fs1 fl1 where
    P: "partial_load c bs fs bs1 fs1 fl1 off 0 fd k c'"
    and all: "off = next_free_offset c" "bs1 = bs" "fs1 = fs" "fl1 = freeList c"
    by (rule load_result_partial [OF safe tr, rotated 2]) simp_all
  have "xmp_init fd st_size junk (Some (take cap (encode_metadata bs fs c))) k = Some c'"
    using c'(1) fd by (simp add: xmp_init_def)
  then show ?thesis
    using save_eq [OF safe fits tr, of cap old] pl_store_ok [OF P ok v fd all(2,3)] partial_fields(3,4) [OF P] all(1,4)
    by (simp add: xmp_destroy_def)
qed

lemma remount_safe:
  fixes c :: "'k Context" and k :: 'k
  assumes safe: "mem_safe c" and fits: "persist_fits c" and tr: "traverses bs fs c"
    and fd: "fd \<noteq> -1" and st: "4096 dvd st" "0 \<le> st"
  shows "\<exists>meta c'. xmp_destroy True cap bs fs c old = Some (Some meta) \<and>
    xmp_init fd (Some st) junk (Some (take n meta)) k = Some c' \<and> mem_safe c' \<and>
    (\<forall>p g. fileIndex c' p = Some g \<longrightarrow> (\<exists>f. fileIndex c p = Some f \<and> logicalSize g = logicalSize f))"
proof -
  let ?n = "min n cap"
  obtain c' where c': "load_metadata (Some (take ?n (encode_metadata bs fs c))) (fresh_context fd st k) = Some c'"
    "load_result (fresh_context fd st k) c bs fs st (length (encode_metadata bs fs c) \<le> ?n) c'"
    by (rule load_outcome [OF safe fits tr])
  obtain off bs1 fs1 fl1 where P: "partial_load c bs fs bs1 fs1 fl1 off st fd k c'"
    by (rule load_result_partial [OF safe tr st c'(2)])
  have "\<exists>f. fileIndex c p = Some f \<and> logicalSize g = logicalSize f" if "fileIndex c' p = Some g" for p g
    using that pl_live(3) [OF P pl_ids(2) [OF P]] unfolding pl_files [OF P] by auto
  then show ?thesis
    using save_eq [OF safe fits tr, of cap old] c'(1) pl_mem_safe [OF P] fd
    by (auto simp: xmp_destroy_def xmp_init_def)
qed

text \<open>C5. Unmounting and mounting again loses nothing: if the metadata file fits on the disk, then
  whatever order the hash tables are traversed in, the next mount has the same files with the same bytes, the same free
  list and the same end of the data file, and is consistent again. \<open>k\<close> is the kernel's state
  at the next mount; the data file has kept its contents.\<close>

theorem remount_preserves_files:
  assumes "store_ok E view c" and "persist_fits c" and "traverses bs fs c"
    and "length (encode_metadata bs fs c) \<le> cap" and "fd \<noteq> -1" and "view k = view (kern c)"
  shows "\<exists>meta c'. xmp_destroy True cap bs fs c old = Some (Some meta) \<and>
    xmp_init fd st_size junk (Some meta) k = Some c' \<and> store_ok E view c' \<and> abs_fs view c' = abs_fs view c \<and>
    freeList c' = freeList c \<and> next_free_offset c' = next_free_offset c"
  using assms by (rule remount)

text \<open>C15. A metadata file that was cut short, by a full disk while it was saved or by a crash
  afterwards, at any byte, is loaded without harm: the mount comes up with a sound index (no
  dangling block, no reference count too small, no slot used twice), in which each file is one of
  those saved, with its size.\<close>

theorem remount_after_cut_safe:
  fixes c :: "'k Context" and k :: 'k
  assumes "mem_safe c" and "persist_fits c" and "traverses bs fs c"
    and "fd \<noteq> -1" and "4096 dvd st" and "0 \<le> st"
  shows "\<exists>meta c'. xmp_destroy True cap bs fs c old = Some (Some meta) \<and>
    xmp_init fd (Some st) junk (Some (take n meta)) k = Some c' \<and> mem_safe c' \<and>
    (\<forall>p g. fileIndex c' p = Some g \<longrightarrow> (\<exists>f. fileIndex c p = Some f \<and> logicalSize g = logicalSize f))"
  using assms by (rule remount_safe)

section \<open>The properties on a concrete store\<close>

definition demo_file :: "filemeta" where
  "demo_file = \<lparr>file_id = ''/f'', realSize = 8192, logicalSize = 12288, blockList = [0, 1, 0]\<rparr>"

lemma demo_traverses: "traverses [1, 0] [demo_file] demo_filled"
proof -
  have "index_ok demo_filled" using demo_filled_ok(1) by (simp add: store_ok_def mem_safe_def)
  then have "ran (blockIndex demo_filled) = dom (heap demo_filled)"
    using index_okD1 index_okD2(1) by (fastforce simp: ran_def)
  then show ?thesis by (auto simp: traverses_def demo_filled_state demo_file_def)
qed

lemma demo_persist_fits: "persist_fits demo_filled"
  by (auto simp: persist_fits_def demo_filled_state block_fits_def file_fits_def c_string_def byte_of_char_def
      split: if_splits)

theorem remount_preserves_files_witness:
  "\<exists>cap meta c'. xmp_destroy True cap [1, 0] [demo_file] demo_filled None = Some (Some meta) \<and>
     xmp_init 4 (Some 8192) 0 (Some meta) (kern demo_filled) = Some c' \<and>
     abs_fs dk_view c' ''/f'' = Some (blockA @ blockB @ blockA)"
proof -
  obtain meta c' where "xmp_destroy True (length (encode_metadata [1, 0] [demo_file] demo_filled)) [1, 0] [demo_file]
      demo_filled None = Some (Some meta)"
    "xmp_init 4 (Some 8192) 0 (Some meta) (kern demo_filled) = Some c'" "abs_fs dk_view c' = abs_fs dk_view demo_filled"
    using remount_preserves_files [OF demo_filled_ok(1) demo_persist_fits demo_traverses order_refl,
        of 4 "kern demo_filled" None "Some 8192" 0] by auto
  with demo_filled_ok(2) show ?thesis by metis
qed

theorem remount_after_cut_safe_witness:
  "\<exists>meta c'. xmp_destroy True 100 [1, 0] [demo_file] demo_filled None = Some (Some meta) \<and>
     xmp_init 4 (Some 8192) 0 (Some (take 90 meta)) (kern demo_filled) = Some c' \<and> mem_safe c'"
proof -
  have "mem_safe demo_filled" using demo_filled_ok(1) by (simp add: store_ok_def)
  from remount_after_cut_safe [OF this demo_persist_fits demo_traverses,
      of 4 8192 100 None 0 90 "kern demo_filled"]
  show ?thesis by auto
qed

end
