(* ===== verification/Store_Service.thy ===== *)
theory Store_Service
  imports Dedup_Read Dedup_Unlink Persistence
begin

text \<open>
  The store as a whole. \<open>run_ops\<close> serves a sequence of writes, reads, unlinks and remounts with the handlers of
  \<^verbatim>\<open>codededup/passthrough.c\<close>; \<open>fs_run\<close> is the file system its users are promised, in which a file is a list of
  bytes and there are no blocks, digests or slots. The locale \<open>service\<close> turns a simulation of single operations into
  one of sequences; its interpretation on the handlers rests on what the other theories show of each.
\<close>

section \<open>Operations and histories\<close>

text \<open>\<open>Remount fd cap bs fs\<close> unmounts and mounts again: \<open>fd\<close> is the descriptor of the data file from then on, \<open>cap\<close> the room
  for the metadata file, and \<open>bs\<close>, \<open>fs\<close> are the orders in which the tables are traversed while it is saved.\<close>

datatype op =
    Write string "byte list" int
  | Read string int int
  | Unlink string
  | Remount int nat "addr list" "filemeta list"

fun store_op :: "'k os \<Rightarrow> op \<Rightarrow> 'k Context \<Rightarrow> ((int \<times> byte list) \<times> 'k Context) option" where
  "store_op E (Write path buf off) c = map_option (\<lambda>(r, c'). ((r, []), c')) (xmp_write E path buf off c)"
| "store_op E (Read path sz off) c = map_option (\<lambda>(r, out, c'). ((r, out), c')) (xmp_read E path sz off c)"
| "store_op E (Unlink path) c = map_option (\<lambda>(r, c'). ((r, []), c')) (xmp_unlink E path c)"
| "store_op E (Remount fd cap bs fs) c = (case xmp_destroy True cap bs fs c None of
      None \<Rightarrow> None
    | Some meta \<Rightarrow> map_option (Pair (0, [])) (xmp_init fd (Some (next_free_offset c)) 0 meta (kern c)))"

fun run_ops :: "('o \<Rightarrow> 's \<Rightarrow> ('r \<times> 's) option) \<Rightarrow> 'o list \<Rightarrow> 's \<Rightarrow> ('r list \<times> 's) option" where
  "run_ops step [] c = Some ([], c)"
| "run_ops step (op # ops) c = (case step op c of
      None \<Rightarrow> None
    | Some (r, c1) \<Rightarrow> map_option (\<lambda>(rs, c'). (r # rs, c')) (run_ops step ops c1))"

text \<open>The guard of every operation holds when its turn comes.\<close>

fun all_fit :: "('o \<Rightarrow> 's \<Rightarrow> ('r \<times> 's) option) \<Rightarrow> ('o \<Rightarrow> 's \<Rightarrow> bool) \<Rightarrow> 'o list \<Rightarrow> 's \<Rightarrow> bool" where
  "all_fit step fits [] c \<longleftrightarrow> True"
| "all_fit step fits (op # ops) c \<longleftrightarrow> fits op c \<and> (case step op c of
      None \<Rightarrow> True
    | Some (r, c1) \<Rightarrow> all_fit step fits ops c1)"

text \<open>The sizes, counters and offsets that the integer types of the code can hold.\<close>

fun op_fits :: "op \<Rightarrow> 'k Context \<Rightarrow> bool" where
  "op_fits (Write path buf off) c \<longleftrightarrow> write_room c path buf"
| "op_fits (Read path sz off) c \<longleftrightarrow> read_fits c path sz off"
| "op_fits (Unlink path) c \<longleftrightarrow> counters_fit c"
| "op_fits (Remount fd cap bs fs) c \<longleftrightarrow>
     persist_fits c \<and> traverses bs fs c \<and> length (encode_metadata bs fs c) \<le> cap \<and> fd \<noteq> - 1"

section \<open>The promised file system\<close>

type_synonym files = "string \<Rightarrow> byte list option"

definition bytes_of :: "files \<Rightarrow> string \<Rightarrow> byte list" where
  "bytes_of fs p = (case fs p of None \<Rightarrow> [] | Some d \<Rightarrow> d)"

inductive fs_step :: "files \<Rightarrow> op \<Rightarrow> int \<times> byte list \<Rightarrow> files \<Rightarrow> bool" where
  fs_write: "4096 dvd length buf \<Longrightarrow> off = int (length (bytes_of fs p)) \<Longrightarrow>
    fs_step fs (Write p buf off) (int (length buf), []) (fs(p \<mapsto> bytes_of fs p @ buf))"
| fs_write_size: "\<not> 4096 dvd length buf \<Longrightarrow> fs_step fs (Write p buf off) (- EINVAL, []) fs"
| fs_write_offset: "4096 dvd length buf \<Longrightarrow> off \<noteq> int (length (bytes_of fs p)) \<Longrightarrow>
    fs_step fs (Write p buf off) (- ENOTSUP, []) (fs(p \<mapsto> bytes_of fs p))"
| fs_read: "4096 dvd sz \<Longrightarrow> fs p = Some data \<Longrightarrow> out = take (nat sz) (drop (nat off) data) \<Longrightarrow>
    fs_step fs (Read p sz off) (int (length out), out) fs"
| fs_read_missing: "4096 dvd sz \<Longrightarrow> fs p = None \<Longrightarrow> fs_step fs (Read p sz off) (- ENOENT, []) fs"
| fs_read_size: "\<not> 4096 dvd sz \<Longrightarrow> fs_step fs (Read p sz off) (- EINVAL, []) fs"
| fs_unlink: "p \<in> dom fs \<Longrightarrow> fs_step fs (Unlink p) (0, []) (fs(p := None))"
| fs_unlink_fails: "r < 0 \<Longrightarrow> fs_step fs (Unlink p) (r, []) fs"
| fs_remount: "fs_step fs (Remount fd cap bs fls) (0, []) fs"

inductive_cases fs_unlink_cases: "fs_step fs (Unlink p) r fs'"
inductive_simps fs_read_simps: "fs_step fs (Read p sz off) r fs'"
inductive_simps fs_write_simps: "fs_step fs (Write p buf off) r fs'"

inductive spec_run :: "('a \<Rightarrow> 'o \<Rightarrow> 'r \<Rightarrow> 'a \<Rightarrow> bool) \<Rightarrow> 'a \<Rightarrow> 'o list \<Rightarrow> 'r list \<Rightarrow> 'a \<Rightarrow> bool" for spec where
  spec_done: "spec_run spec a [] [] a"
| spec_more: "spec a op r a1 \<Longrightarrow> spec_run spec a1 ops rs a' \<Longrightarrow> spec_run spec a (op # ops) (r # rs) a'"

section \<open>From operations to histories\<close>

text \<open>\<open>step\<close> serves operations on a state that meets \<open>inv\<close>; \<open>view\<close> is what of the state its users see, and \<open>spec\<close> what they
  are promised.\<close>

locale service =
  fixes step :: "'o \<Rightarrow> 's \<Rightarrow> ('r \<times> 's) option" and fits :: "'o \<Rightarrow> 's \<Rightarrow> bool"
    and inv :: "'o set \<Rightarrow> 's \<Rightarrow> bool" and seen :: "'s \<Rightarrow> 'a" and spec :: "'a \<Rightarrow> 'o \<Rightarrow> 'r \<Rightarrow> 'a \<Rightarrow> bool"
  assumes served: "inv P c \<Longrightarrow> op \<in> P \<Longrightarrow> fits op c \<Longrightarrow>
    \<exists>r c'. step op c = Some (r, c') \<and> spec (seen c) op r (seen c') \<and> inv P c'"
begin

lemma served_all:
  "inv P c \<Longrightarrow> set ops \<subseteq> P \<Longrightarrow> all_fit step fits ops c \<Longrightarrow>
     \<exists>rs c'. run_ops step ops c = Some (rs, c') \<and> spec_run spec (seen c) ops rs (seen c') \<and> inv P c'"
proof (induction ops arbitrary: c)
  case Nil
  then show ?case by (auto intro: spec_done)
next
  case (Cons op ops)
  obtain r c1 where 1: "step op c = Some (r, c1)" "spec (seen c) op r (seen c1)" "inv P c1"
    using served [of P c op] Cons.prems by auto
  moreover obtain rs c' where "run_ops step ops c1 = Some (rs, c')" "spec_run spec (seen c1) ops rs (seen c')" "inv P c'"
    using Cons.IH [OF 1(3)] Cons.prems 1(1) by auto
  ultimately show ?case by (auto intro: spec_more)
qed

end

section \<open>The handlers as a service\<close>

text \<open>What the device and the heap must do: transfers of whole blocks neither fail nor are cut short.\<close>

definition steady :: "'k os \<Rightarrow> ('k \<Rightarrow> int \<Rightarrow> byte list option) \<Rightarrow> bool" where
  "steady E view \<longleftrightarrow> (\<forall>fd. io_ok E fd view) \<and> (\<forall>k. fst (memalign E k)) \<and>
     (\<forall>fd off k. \<exists>b. fst (sys_pread E fd 4096 off k) = SysOk b) \<and>
     (\<forall>fd b off k. length b = 4096 \<longrightarrow> (\<exists>n. fst (sys_pwrite E fd b off k) = SysOk n))"

fun op_blocks :: "op \<Rightarrow> byte list set" where
  "op_blocks (Write path buf off) = set (blocks_of buf)"
| "op_blocks _ = {}"

definition fs_blocks :: "files \<Rightarrow> byte list set" where
  "fs_blocks fs = (\<Union>d \<in> ran fs. set (blocks_of d))"

text \<open>The store is consistent and no two blocks that it holds, or that the operations of \<open>P\<close> bring, collide.\<close>

definition service_inv :: "'k os \<Rightarrow> ('k \<Rightarrow> int \<Rightarrow> byte list option) \<Rightarrow> op set \<Rightarrow> 'k Context \<Rightarrow> bool" where
  "service_inv E view P c \<longleftrightarrow> store_ok E view c \<and> steady E view \<and>
     (\<exists>U. inj_on (sha512 E) U \<and> fs_blocks (abs_fs view c) \<subseteq> U \<and> (\<Union>op \<in> P. op_blocks op) \<subseteq> U)"

lemma stored_fs_blocks:
  assumes ok: "store_ok E view c"
  shows "stored view c \<subseteq> fs_blocks (abs_fs view c)"
proof
  fix d
  assume "d \<in> stored view c"
  then obtain a b where a: "heap c a = Some b" "d = block_data view c a" by (auto simp: stored_def)
  have "index_ok c" "refs_exact c []" using ok by (simp_all add: store_ok_def mem_safe_def exact_store_def)
  then have "refs (fileIndex c) a \<noteq> 0" using a index_okD2(4) [of c a b] by (auto simp: refs_exact_def ctr_def split: option.splits)
  then obtain p f where f: "fileIndex c p = Some f" "a \<in> set (blockList f)"
    unfolding refs_def by (metis (no_types, lifting) count_notin domD option.sel sum.neutral)
  have "blocks_of (file_data view c f) = map (block_data view c) (blockList f)"
    unfolding file_data_def by (rule blocks_of_concat) (rule file_blocks(1) [OF ok f(1)])
  moreover have "file_data view c f \<in> ran (abs_fs view c)" using f(1) by (auto simp: abs_fs_def ran_def)
  ultimately show "d \<in> fs_blocks (abs_fs view c)" using f(2) a(2) by (force simp: fs_blocks_def)
qed

lemma file_length:
  assumes "store_ok E view c"
  shows "logicalSize (file_of c p) = int (length (bytes_of (abs_fs view c) p))"
    "4096 dvd length (bytes_of (abs_fs view c) p)"
proof -
  show "logicalSize (file_of c p) = int (length (bytes_of (abs_fs view c) p))"
    using file_blocks(3) [OF assms]
    by (cases "fileIndex c p") (simp_all add: file_of_simps abs_fs_def bytes_of_def new_file_def)
  show "4096 dvd length (bytes_of (abs_fs view c) p)"
    using file_blocks(2) [OF assms] by (cases "fileIndex c p") (simp_all add: abs_fs_def bytes_of_def)
qed

lemma blocks_of_append: "4096 dvd length a \<Longrightarrow> 4096 dvd length b \<Longrightarrow> blocks_of (a @ b) = blocks_of a @ blocks_of b"
  using blocks_of_concat [of "blocks_of a @ blocks_of b"] length_in_blocks_of by (fastforce simp: concat_blocks_of)

lemma fs_blocks_mono:
  "fs_blocks (fs(p := None)) \<subseteq> fs_blocks fs" 
  "fs_blocks (fs(p \<mapsto> d)) \<subseteq> fs_blocks fs \<union> set (blocks_of d)"
  "set (blocks_of (bytes_of fs p)) \<subseteq> fs_blocks fs"
  by (auto simp: fs_blocks_def ran_def bytes_of_def split: if_splits option.splits)

lemma ensure_file_ok:
  fixes c :: "'k Context" and p :: string
  assumes ok: "store_ok E view c"
  defines "c' \<equiv> c\<lparr>fileIndex := (fileIndex c)(p \<mapsto> file_of c p)\<rparr>"
  shows "store_ok E view c'" "abs_fs view c' = (abs_fs view c)(p \<mapsto> bytes_of (abs_fs view c) p)"
proof -
  have fin: "finite (dom (fileIndex c))" and ms: "mem_safe c" using ok by (simp_all add: store_ok_def mem_safe_def files_ok_def)
  have "mem_safe c'" unfolding c'_def by (rule mem_safe_ensure_file [OF ms])
  moreover have "refs (fileIndex c') a = refs (fileIndex c) a" for a
    using refs_file_of [OF fin, of p "file_of c p" a] by (simp add: c'_def)
  then have "refs_exact c' []" using ok by (simp add: store_ok_def exact_store_def refs_exact_def c'_def)
  moreover have "sizes_ok c'"
    using ok by (cases "fileIndex c p") (auto simp: store_ok_def exact_store_def sizes_ok_def c'_def file_of_simps new_file_def)
  moreover have "content_ok E view c' (dom (heap c'))" "backend_fd c' \<noteq> -1"
    using ok by (simp_all add: store_ok_def content_ok_def c'_def)
  ultimately show "store_ok E view c'" by (simp add: store_ok_def exact_store_def)
  have d: "file_data view c' = file_data view c" by (intro ext file_data_cong) (simp add: c'_def block_data_def boff_def)
  have "file_data view c (file_of c p) = bytes_of (abs_fs view c) p" by (simp add: file_data_ensure bytes_of_def)
  then show "abs_fs view c' = (abs_fs view c)(p \<mapsto> bytes_of (abs_fs view c) p)"
    by (intro ext) (simp add: abs_fs_def [of view c'] abs_fs_def [of view c] d, simp add: c'_def)
qed

lemma service_invD:
  assumes "service_inv E view P c"
  shows "store_ok E view c" "mem_safe c" "io_ok E fd view" "os_ok E fd view" "\<forall>k. fst (memalign E k)"
    "\<forall>off k. \<exists>b. fst (sys_pread E fd 4096 off k) = SysOk b"
    "\<forall>b off k. length b = 4096 \<longrightarrow> (\<exists>n. fst (sys_pwrite E fd b off k) = SysOk n)"
  using assms io_ok_os [of E fd view] by (auto simp: service_inv_def steady_def store_ok_def)

lemma service_inv_step:
  assumes inv: "service_inv E view P c" and ok: "store_ok E view c'" and op: "op \<in> P"
    and blocks: "fs_blocks (abs_fs view c') \<subseteq> fs_blocks (abs_fs view c) \<union> op_blocks op"
  shows "service_inv E view P c'"
proof -
  obtain U where U: "inj_on (sha512 E) U" "fs_blocks (abs_fs view c) \<subseteq> U" "(\<Union>op \<in> P. op_blocks op) \<subseteq> U"
    and st: "steady E view" using inv unfolding service_inv_def by blast
  have "op_blocks op \<subseteq> U" using U(3) op by fast
  with blocks U(2) have "fs_blocks (abs_fs view c') \<subseteq> U" by blast
  with U(1,3) show ?thesis unfolding service_inv_def by (intro conjI exI [of _ U] ok st)
qed

lemma write_served:
  assumes inv: "service_inv E view P c" and P: "Write p buf off \<in> P" and room: "write_room c p buf"
  shows "\<exists>r c'. store_op E (Write p buf off) c = Some (r, c') \<and>
    fs_step (abs_fs view c) (Write p buf off) r (abs_fs view c') \<and> service_inv E view P c'"
proof -
  note i = service_invD [OF inv]
  let ?fs = "abs_fs view c"
  consider "\<not> 4096 dvd length buf" | "4096 dvd length buf" "off \<noteq> int (length (bytes_of ?fs p))"
    | "4096 dvd length buf" "off = int (length (bytes_of ?fs p))" by blast
  then show ?thesis
  proof cases
    case 1
    then have "xmp_write E p buf off c = Some (- EINVAL, c)" by (simp add: write_rejected)
    then show ?thesis using fs_write_size [OF 1] inv by auto
  next
    case 2
    let ?c = "c\<lparr>fileIndex := (fileIndex c)(p \<mapsto> file_of c p)\<rparr>"
    have "xmp_write E p buf off c = Some (- ENOTSUP, ?c)"
      using 2 by (simp add: write_rejected file_length(1) [OF i(1)])
    moreover have "service_inv E view P ?c"
      by (rule service_inv_step [OF inv ensure_file_ok(1) [OF i(1)] P])
        (use fs_blocks_mono(2,3) in \<open>fastforce simp: ensure_file_ok(2) [OF i(1)]\<close>)
    ultimately show ?thesis using fs_write_offset [OF 2] ensure_file_ok(2) [OF i(1)] by auto
  next
    case 3
    have "off = logicalSize (file_of c p)" using 3 by (simp add: file_length(1) [OF i(1)])
    from write_succeeds [OF i(4,2) room 3(1) this _ i(7)] i(5) obtain c' where
      run: "xmp_write E p buf off c = Some (int (length buf), c')" by blast
    from inv obtain U where U: "inj_on (sha512 E) U" "fs_blocks ?fs \<subseteq> U" "(\<Union>op \<in> P. op_blocks op) \<subseteq> U"
      unfolding service_inv_def by blast
    have "set (blocks_of buf) \<subseteq> U" using U(3) P by fastforce
    then have "stored view c \<union> set (blocks_of buf) \<subseteq> U" using stored_fs_blocks [OF i(1)] U(2) by blast
    from write_appends [OF i(3,1) room inj_on_subset [OF U(1) this] run]
    have w: "store_ok E view c'" "abs_fs view c' = ?fs(p \<mapsto> bytes_of ?fs p @ buf)" by (simp_all add: bytes_of_def)
    have "fs_blocks (abs_fs view c') \<subseteq> fs_blocks ?fs \<union> set (blocks_of (bytes_of ?fs p @ buf))"
      unfolding w(2) by (rule fs_blocks_mono(2))
    then have "fs_blocks (abs_fs view c') \<subseteq> fs_blocks ?fs \<union> op_blocks (Write p buf off)"
      using fs_blocks_mono(3) [of ?fs p] by (auto simp: blocks_of_append [OF file_length(2) [OF i(1)] 3(1)])
    from service_inv_step [OF inv w(1) P this] show ?thesis using run fs_write [OF 3] w(2) by auto
  qed
qed

lemma read_served:
  assumes inv: "service_inv E view P c" and P: "Read p sz off \<in> P" and fits: "read_fits c p sz off"
  shows "\<exists>r c'. store_op E (Read p sz off) c = Some (r, c') \<and>
    fs_step (abs_fs view c) (Read p sz off) r (abs_fs view c') \<and> service_inv E view P c'"
proof -
  note i = service_invD [OF inv]
  consider "\<not> 4096 dvd sz" | "4096 dvd sz" "abs_fs view c p = None" | data where "4096 dvd sz" "abs_fs view c p = Some data" by auto
  then show ?thesis
  proof cases
    case 1
    then have "xmp_read E p sz off c = Some (- EINVAL, [], c)" by (simp add: xmp_read_def dvd_eq_mod_eq_0)
    then show ?thesis using fs_read_size [OF 1] inv by auto
  next
    case 2
    then have "xmp_read E p sz off c = Some (- ENOENT, [], c)" by (simp add: xmp_read_def abs_fs_def dvd_eq_mod_eq_0)
    then show ?thesis using fs_read_missing [of sz "abs_fs view c" p off, OF 2] inv by auto
  next
    case 3
    from read_succeeds [OF i(3,1) fits 3 i(5,6)] obtain c' where
      run: "xmp_read E p sz off c = (let out = take (nat sz) (drop (nat off) data) in Some (int (length out), out, c'))" by blast
    with read_returns_data [OF i(3,1) fits _ _ 3(2), of "int (length (take (nat sz) (drop (nat off) data)))" _ c']
    have same: "store_ok E view c'" "abs_fs view c' = abs_fs view c" by (simp_all add: Let_def)
    have "service_inv E view P c'" by (rule service_inv_step [OF inv same(1) P]) (simp add: same(2))
    then show ?thesis using run fs_read [of sz "abs_fs view c" p data _ off, OF 3 refl] same(2) by (auto simp: Let_def)
  qed
qed

lemma unlink_served:
  assumes inv: "service_inv E view P c" and P: "Unlink p \<in> P" and fits: "counters_fit c"
  shows "\<exists>r c'. store_op E (Unlink p) c = Some (r, c') \<and>
    fs_step (abs_fs view c) (Unlink p) r (abs_fs view c') \<and> service_inv E view P c'"
proof -
  note i = service_invD [OF inv]
  show ?thesis
  proof (cases rule: unlink_cases [OF i(4,2) fits, of p])
    case (1 r c')
    note same = kern_only_store [OF 1(3)]
    have "service_inv E view P c'" by (rule service_inv_step [OF inv _ P]) (simp_all add: same i(1))
    then show ?thesis using 1 fs_unlink_fails [OF 1(2)] same(2) by auto
  next
    case (2 f as k)
    from unlink_removes [OF i(4,1) fits 2(1)] have u: "store_ok E view (unlinked p f as k c)"
      "abs_fs view (unlinked p f as k c) = (abs_fs view c)(p := None)" "p \<in> dom (abs_fs view c)" by (auto simp: abs_fs_def)
    have "service_inv E view P (unlinked p f as k c)"
      by (rule service_inv_step [OF inv u(1) P]) (use fs_blocks_mono(1) u(2) in fastforce)
    then show ?thesis using 2(1) fs_unlink [OF u(3)] u(2) by auto
  qed
qed

lemma remount_served:
  assumes inv: "service_inv E view P c" and P: "Remount fd cap bs fs \<in> P" and fits: "op_fits (Remount fd cap bs fs) c"
  shows "\<exists>r c'. store_op E (Remount fd cap bs fs) c = Some (r, c') \<and>
    fs_step (abs_fs view c) (Remount fd cap bs fs) r (abs_fs view c') \<and> service_inv E view P c'"
proof -
  note i = service_invD [OF inv]
  obtain meta c' where m: "xmp_destroy True cap bs fs c None = Some (Some meta)"
    "xmp_init fd (Some (next_free_offset c)) 0 (Some meta) (kern c) = Some c'" "store_ok E view c'" "abs_fs view c' = abs_fs view c"
    using remount [OF i(1), of bs fs cap fd "kern c" None "Some (next_free_offset c)" 0] fits by auto
  have "service_inv E view P c'" by (rule service_inv_step [OF inv m(3) P]) (simp add: m(4))
  then show ?thesis using m fs_remount by auto
qed

interpretation store_service: service "store_op E" op_fits "service_inv E view" "abs_fs view" fs_step for E view
proof unfold_locales
  fix P c op
  assume a: "service_inv E view P c" "op \<in> P" "op_fits op c"
  show "\<exists>r c'. store_op E op c = Some (r, c') \<and> fs_step (abs_fs view c) op r (abs_fs view c') \<and> service_inv E view P c'"
  proof (cases op)
    case (Write p buf off)
    then show ?thesis using write_served [of E view P c p buf off] a by simp
  next
    case (Read p sz off)
    then show ?thesis using read_served [of E view P c p sz off] a by simp
  next
    case (Unlink p)
    then show ?thesis using unlink_served [of E view P c p] a by simp
  next
    case (Remount fd cap bs fs)
    then show ?thesis using remount_served [of E view P c fd cap bs fs] a by blast
  qed
qed

lemma store_refines:
  assumes "store_ok E view c" and "steady E view" and "all_fit (store_op E) op_fits ops c"
    and "inj_on (sha512 E) (fs_blocks (abs_fs view c) \<union> (\<Union>op \<in> set ops. op_blocks op))"
  shows "\<exists>rs c'. run_ops (store_op E) ops c = Some (rs, c') \<and> spec_run fs_step (abs_fs view c) ops rs (abs_fs view c') \<and>
    store_ok E view c'"
proof -
  have "service_inv E view (set ops) c" using assms(1,2,4) unfolding service_inv_def by blast
  from store_service.served_all [OF this order_refl assms(3)] show ?thesis by (auto simp: service_inv_def)
qed

end
