(* ===== verification/Posix.thy ===== *)
theory Posix
  imports Store_State "HOL-Library.State_Monad"
begin

unbundle bit_operations_syntax

text \<open>
  The system interface of the two FUSE programs, as they use it outside the block store. A \<open>'k posix\<close>
  bundles the system calls as functions of the kernel's state \<open>'k\<close>; a failing call is \<open>SysErr errno\<close>. Handlers
  are written in the state monad over \<open>'k proc\<close>, the process: the kernel, \<^verbatim>\<open>errno\<close>, which a failing call sets and
  the handlers read, and the number of opens that the skeleton counts. \<open>fd_contract\<close> states how the calls
  change the open descriptors, \<open>value_contract\<close> which values they return.
\<close>

section \<open>Flags and modes\<close>

definition O_RDONLY :: "32 word" where "O_RDONLY = 0"
definition O_WRONLY :: "32 word" where "O_WRONLY = 1"
definition O_CREAT :: "32 word" where "O_CREAT = 0x40"
definition O_EXCL :: "32 word" where "O_EXCL = 0x80"
definition O_DIRECT :: "32 word" where "O_DIRECT = 0x4000"
definition AT_FDCWD :: int where "AT_FDCWD = - 100"
definition AT_SYMLINK_NOFOLLOW :: "32 word" where "AT_SYMLINK_NOFOLLOW = 0x100"
definition EOPNOTSUPP :: int where "EOPNOTSUPP = 95"
definition FUSE_FILL_DIR_PLUS :: int where "FUSE_FILL_DIR_PLUS = 2"

definition mode_is :: "32 word \<Rightarrow> 32 word \<Rightarrow> bool" where
  "mode_is kind m \<longleftrightarrow> m AND 0xF000 = kind"

abbreviation "S_ISREG \<equiv> mode_is 0x8000"
abbreviation "S_ISDIR \<equiv> mode_is 0x4000"
abbreviation "S_ISLNK \<equiv> mode_is 0xA000"
abbreviation "S_ISFIFO \<equiv> mode_is 0x1000"

section \<open>Records of the system\<close>

record stat =
  st_ino :: "64 word"
  st_mode :: "32 word"
  st_size :: int
  st_blocks :: int
  st_blksize :: int

definition zero_stat :: stat where
  "zero_stat = \<lparr>st_ino = 0, st_mode = 0, st_size = 0, st_blocks = 0, st_blksize = 0\<rparr>"

record dirent =
  de_name :: string
  de_ino :: "64 word"
  de_type :: "8 word"

text \<open>\<^verbatim>\<open>struct fuse_file_info\<close>, as far as it is used; a NULL pointer is None.\<close>

record file_info =
  fi_flags :: "32 word"
  fi_fh :: int

text \<open>\<open>p_opendir\<close> gives the stream and the entries that \<^verbatim>\<open>readdir\<close> then delivers from it; \<open>p_memalign\<close> the
  return code of \<^verbatim>\<open>posix_memalign\<close> and the address; \<open>p_fallocate\<close> an error number, not through \<^verbatim>\<open>errno\<close>.
  \<open>p_pread\<close> and \<open>p_pwrite\<close> get the address of the buffer, since direct I/O depends on it.\<close>

record 'k posix =
  p_lstat :: "string \<Rightarrow> 'k \<Rightarrow> stat sysres \<times> 'k"
  p_access :: "string \<Rightarrow> int \<Rightarrow> 'k \<Rightarrow> unit sysres \<times> 'k"
  p_readlink :: "string \<Rightarrow> nat \<Rightarrow> 'k \<Rightarrow> byte list sysres \<times> 'k"
  p_opendir :: "string \<Rightarrow> 'k \<Rightarrow> (int \<times> dirent list) sysres \<times> 'k"
  p_closedir :: "int \<Rightarrow> 'k \<Rightarrow> unit sysres \<times> 'k"
  p_open :: "string \<Rightarrow> 32 word \<Rightarrow> 32 word \<Rightarrow> 'k \<Rightarrow> int sysres \<times> 'k"
  p_openat :: "int \<Rightarrow> string \<Rightarrow> 32 word \<Rightarrow> 32 word \<Rightarrow> 'k \<Rightarrow> int sysres \<times> 'k"
  p_close :: "int \<Rightarrow> 'k \<Rightarrow> unit sysres \<times> 'k"
  p_mkdirat :: "int \<Rightarrow> string \<Rightarrow> 32 word \<Rightarrow> 'k \<Rightarrow> unit sysres \<times> 'k"
  p_symlinkat :: "string \<Rightarrow> int \<Rightarrow> string \<Rightarrow> 'k \<Rightarrow> unit sysres \<times> 'k"
  p_mkfifoat :: "int \<Rightarrow> string \<Rightarrow> 32 word \<Rightarrow> 'k \<Rightarrow> unit sysres \<times> 'k"
  p_mknodat :: "int \<Rightarrow> string \<Rightarrow> 32 word \<Rightarrow> 64 word \<Rightarrow> 'k \<Rightarrow> unit sysres \<times> 'k"
  p_unlink :: "string \<Rightarrow> 'k \<Rightarrow> unit sysres \<times> 'k"
  p_symlink :: "string \<Rightarrow> string \<Rightarrow> 'k \<Rightarrow> unit sysres \<times> 'k"
  p_rename :: "string \<Rightarrow> string \<Rightarrow> 'k \<Rightarrow> unit sysres \<times> 'k"
  p_link :: "string \<Rightarrow> string \<Rightarrow> 'k \<Rightarrow> unit sysres \<times> 'k"
  p_chmod :: "string \<Rightarrow> 32 word \<Rightarrow> 'k \<Rightarrow> unit sysres \<times> 'k"
  p_lchown :: "string \<Rightarrow> 32 word \<Rightarrow> 32 word \<Rightarrow> 'k \<Rightarrow> unit sysres \<times> 'k"
  p_ftruncate :: "int \<Rightarrow> int \<Rightarrow> 'k \<Rightarrow> unit sysres \<times> 'k"
  p_truncate :: "string \<Rightarrow> int \<Rightarrow> 'k \<Rightarrow> unit sysres \<times> 'k"
  p_utimensat :: "int \<Rightarrow> string \<Rightarrow> (int \<times> int) \<times> (int \<times> int) \<Rightarrow> 32 word \<Rightarrow> 'k \<Rightarrow> unit sysres \<times> 'k"
  p_mkdir :: "string \<Rightarrow> 32 word \<Rightarrow> 'k \<Rightarrow> unit sysres \<times> 'k"
  p_rmdir :: "string \<Rightarrow> 'k \<Rightarrow> unit sysres \<times> 'k"
  p_statvfs :: "string \<Rightarrow> 'k \<Rightarrow> byte list sysres \<times> 'k"
  p_fsync :: "int \<Rightarrow> 'k \<Rightarrow> unit sysres \<times> 'k"
  p_fdatasync :: "int \<Rightarrow> 'k \<Rightarrow> unit sysres \<times> 'k"
  p_fallocate :: "int \<Rightarrow> int \<Rightarrow> int \<Rightarrow> 'k \<Rightarrow> int \<times> 'k"
  p_lsetxattr :: "string \<Rightarrow> string \<Rightarrow> byte list \<Rightarrow> int \<Rightarrow> 'k \<Rightarrow> unit sysres \<times> 'k"
  p_lgetxattr :: "string \<Rightarrow> string \<Rightarrow> nat \<Rightarrow> 'k \<Rightarrow> (int \<times> byte list) sysres \<times> 'k"
  p_llistxattr :: "string \<Rightarrow> nat \<Rightarrow> 'k \<Rightarrow> (int \<times> byte list) sysres \<times> 'k"
  p_lremovexattr :: "string \<Rightarrow> string \<Rightarrow> 'k \<Rightarrow> unit sysres \<times> 'k"
  p_copy_file_range :: "int \<Rightarrow> int \<Rightarrow> int \<Rightarrow> int \<Rightarrow> nat \<Rightarrow> int \<Rightarrow> 'k \<Rightarrow> int sysres \<times> 'k"
  p_lseek :: "int \<Rightarrow> int \<Rightarrow> int \<Rightarrow> 'k \<Rightarrow> int sysres \<times> 'k"
  p_getfl :: "int \<Rightarrow> 'k \<Rightarrow> 32 word sysres \<times> 'k"
  p_fstat :: "int \<Rightarrow> 'k \<Rightarrow> stat sysres \<times> 'k"
  p_pagesize :: "'k \<Rightarrow> int"
  p_memalign :: "nat \<Rightarrow> nat \<Rightarrow> 'k \<Rightarrow> (int \<times> nat) \<times> 'k"
  p_pread :: "int \<Rightarrow> nat \<Rightarrow> nat \<Rightarrow> int \<Rightarrow> 'k \<Rightarrow> byte list sysres \<times> 'k"
  p_pwrite :: "int \<Rightarrow> nat \<Rightarrow> byte list \<Rightarrow> int \<Rightarrow> 'k \<Rightarrow> int sysres \<times> 'k"

section \<open>The process\<close>

record 'k proc =
  errno :: int
  ctx_open :: "64 word"
  sysk :: 'k

type_synonym ('k, 'a) act = "('k proc, 'a) state"

abbreviation give :: "'a \<Rightarrow> ('k, 'a) act" where
  "give \<equiv> State_Monad.return"

text \<open>A system call that signals failure by -1 (None) and sets \<^verbatim>\<open>errno\<close>; one that does not use it.\<close>

definition sys :: "('k \<Rightarrow> 'a sysres \<times> 'k) \<Rightarrow> ('k, 'a option) act" where
  "sys f = State (\<lambda>s. case f (sysk s) of
      (SysErr e, k) \<Rightarrow> (None, s\<lparr>errno := e, sysk := k\<rparr>)
    | (SysOk v, k) \<Rightarrow> (Some v, s\<lparr>sysk := k\<rparr>))"

definition sys_code :: "('k \<Rightarrow> 'a \<times> 'k) \<Rightarrow> ('k, 'a) act" where
  "sys_code f = State (\<lambda>s. case f (sysk s) of (v, k) \<Rightarrow> (v, s\<lparr>sysk := k\<rparr>))"

definition neg_errno :: "('k, int) act" where
  "neg_errno = do { s \<leftarrow> State_Monad.get; give (- errno s) }"

text \<open>\<^verbatim>\<open>if (res == -1) return -errno; return 0;\<close> and \<^verbatim>\<open>... return res;\<close>\<close>

definition zero_or_errno :: "'a option \<Rightarrow> ('k, int) act" where
  "zero_or_errno res = (case res of None \<Rightarrow> neg_errno | Some _ \<Rightarrow> give 0)"

definition value_or_errno :: "int option \<Rightarrow> ('k, int) act" where
  "value_or_errno res = (case res of None \<Rightarrow> neg_errno | Some v \<Rightarrow> give v)"

definition minus_one :: "int option \<Rightarrow> int" where
  "minus_one res = (case res of None \<Rightarrow> - 1 | Some v \<Rightarrow> v)"

definition zero_or_minus_one :: "'a option \<Rightarrow> int" where
  "zero_or_minus_one res = (case res of None \<Rightarrow> - 1 | Some _ \<Rightarrow> 0)"

text \<open>\<^verbatim>\<open>fd = fi == NULL ? open(path, flags) : fi->fh\<close>, and \<^verbatim>\<open>if (fi == NULL) close(fd)\<close>.\<close>

definition fd_of :: "'k posix \<Rightarrow> string \<Rightarrow> 32 word \<Rightarrow> file_info option \<Rightarrow> ('k, int) act" where
  "fd_of E path flags fi = (case fi of
      None \<Rightarrow> do { r \<leftarrow> sys (p_open E path flags 0); give (minus_one r) }
    | Some f \<Rightarrow> give (fi_fh f))"

definition close_opened :: "'k posix \<Rightarrow> file_info option \<Rightarrow> int \<Rightarrow> ('k, unit) act" where
  "close_opened E fi fd = (case fi of
      None \<Rightarrow> do { _ \<leftarrow> sys (p_close E fd); give () }
    | Some _ \<Rightarrow> give ())"

section \<open>Contracts\<close>

definition keeps :: "('k \<Rightarrow> 'b) \<Rightarrow> ('k \<Rightarrow> 'a \<times> 'k) \<Rightarrow> bool" where
  "keeps v f \<longleftrightarrow> (\<forall>k. v (snd (f k)) = v k)"

definition opens :: "('k \<Rightarrow> int set) \<Rightarrow> ('a \<Rightarrow> int) \<Rightarrow> ('k \<Rightarrow> 'a sysres \<times> 'k) \<Rightarrow> bool" where
  "opens fds fd f \<longleftrightarrow> (\<forall>k. case f k of
      (SysErr _, k') \<Rightarrow> fds k' = fds k
    | (SysOk v, k') \<Rightarrow> 0 \<le> fd v \<and> fd v \<notin> fds k \<and> fds k' = insert (fd v) (fds k))"

text \<open>Only \<^verbatim>\<open>open\<close>, \<^verbatim>\<open>openat\<close> and \<^verbatim>\<open>opendir\<close> give a new descriptor; \<^verbatim>\<open>close\<close> and \<^verbatim>\<open>closedir\<close> release theirs even
  when they report an error, as Linux does; no other call changes the set.\<close>

definition fd_contract :: "'k posix \<Rightarrow> ('k \<Rightarrow> int set) \<Rightarrow> bool" where
  "fd_contract E fds \<longleftrightarrow>
     (\<forall>p fl md. opens fds (\<lambda>v. v) (p_open E p fl md)) \<and> (\<forall>d p fl md. opens fds (\<lambda>v. v) (p_openat E d p fl md)) \<and>
     (\<forall>p. opens fds fst (p_opendir E p)) \<and>
     (\<forall>fd k. fds (snd (p_close E fd k)) = fds k - {fd}) \<and> (\<forall>fd k. fds (snd (p_closedir E fd k)) = fds k - {fd}) \<and>
     (\<forall>p. keeps fds (p_lstat E p)) \<and> (\<forall>p m. keeps fds (p_access E p m)) \<and> (\<forall>p n. keeps fds (p_readlink E p n)) \<and>
     (\<forall>d p m. keeps fds (p_mkdirat E d p m)) \<and> (\<forall>l d p. keeps fds (p_symlinkat E l d p)) \<and>
     (\<forall>d p m. keeps fds (p_mkfifoat E d p m)) \<and> (\<forall>d p m r. keeps fds (p_mknodat E d p m r)) \<and>
     (\<forall>p. keeps fds (p_unlink E p)) \<and> (\<forall>p q. keeps fds (p_symlink E p q)) \<and> (\<forall>p q. keeps fds (p_rename E p q)) \<and>
     (\<forall>p q. keeps fds (p_link E p q)) \<and> (\<forall>p m. keeps fds (p_chmod E p m)) \<and> (\<forall>p u g. keeps fds (p_lchown E p u g)) \<and>
     (\<forall>fd n. keeps fds (p_ftruncate E fd n)) \<and> (\<forall>p n. keeps fds (p_truncate E p n)) \<and>
     (\<forall>d p ts fl. keeps fds (p_utimensat E d p ts fl)) \<and> (\<forall>p m. keeps fds (p_mkdir E p m)) \<and> (\<forall>p. keeps fds (p_rmdir E p)) \<and>
     (\<forall>p. keeps fds (p_statvfs E p)) \<and> (\<forall>fd. keeps fds (p_fsync E fd)) \<and> (\<forall>fd. keeps fds (p_fdatasync E fd)) \<and>
     (\<forall>fd a n. keeps fds (p_fallocate E fd a n)) \<and> (\<forall>p n v fl. keeps fds (p_lsetxattr E p n v fl)) \<and>
     (\<forall>p n sz. keeps fds (p_lgetxattr E p n sz)) \<and> (\<forall>p sz. keeps fds (p_llistxattr E p sz)) \<and>
     (\<forall>p n. keeps fds (p_lremovexattr E p n)) \<and> (\<forall>i oi fo oo n fl. keeps fds (p_copy_file_range E i oi fo oo n fl)) \<and>
     (\<forall>fd x w. keeps fds (p_lseek E fd x w)) \<and> (\<forall>fd. keeps fds (p_getfl E fd)) \<and> (\<forall>fd. keeps fds (p_fstat E fd)) \<and>
     (\<forall>al n. keeps fds (p_memalign E al n)) \<and> (\<forall>fd a n x. keeps fds (p_pread E fd a n x)) \<and>
     (\<forall>fd a b x. keeps fds (p_pwrite E fd a b x))"

text \<open>A call that returns a number returns it non-negative, and an error number is positive.\<close>

definition nonneg :: "('k \<Rightarrow> int sysres \<times> 'k) \<Rightarrow> bool" where
  "nonneg f \<longleftrightarrow> (\<forall>k v. fst (f k) = SysOk v \<longrightarrow> 0 \<le> v)"

definition value_contract :: "'k posix \<Rightarrow> bool" where
  "value_contract E \<longleftrightarrow> (\<forall>p fl md. nonneg (p_open E p fl md)) \<and> (\<forall>d p fl md. nonneg (p_openat E d p fl md)) \<and>
     (\<forall>p n sz k v. fst (p_lgetxattr E p n sz k) = SysOk v \<longrightarrow> 0 \<le> fst v) \<and>
     (\<forall>p sz k v. fst (p_llistxattr E p sz k) = SysOk v \<longrightarrow> 0 \<le> fst v) \<and>
     (\<forall>i oi fo oo n fl. nonneg (p_copy_file_range E i oi fo oo n fl)) \<and> (\<forall>fd x w. nonneg (p_lseek E fd x w)) \<and>
     (\<forall>fd a b x. nonneg (p_pwrite E fd a b x))"

section \<open>Reasoning about calls\<close>

lemma run_sys: "run_state (sys f) s = (case f (sysk s) of
      (SysErr e, k) \<Rightarrow> (None, s\<lparr>errno := e, sysk := k\<rparr>) | (SysOk v, k) \<Rightarrow> (Some v, s\<lparr>sysk := k\<rparr>))"
  by (simp add: sys_def)

lemma run_sys_code: "run_state (sys_code f) s = (case f (sysk s) of (v, k) \<Rightarrow> (v, s\<lparr>sysk := k\<rparr>))"
  by (simp add: sys_code_def)

lemma run_neg_errno [simp]: "run_state neg_errno s = (- errno s, s)"
  by (simp add: neg_errno_def)

lemma run_zero_or_errno [simp]:
  "run_state (zero_or_errno res) s = (case res of None \<Rightarrow> (- errno s, s) | Some _ \<Rightarrow> (0, s))"
  by (simp add: zero_or_errno_def split: option.splits)

lemma run_value_or_errno [simp]:
  "run_state (value_or_errno res) s = (case res of None \<Rightarrow> (- errno s, s) | Some v \<Rightarrow> (v, s))"
  by (simp add: value_or_errno_def split: option.splits)

text \<open>What a handler does to the descriptors: \<open>drops fds X\<close> relates the states before and after it, through
  \<open>state_io_rel\<close> of the monad, and says that the descriptors of \<open>X\<close> are closed and no others change.\<close>

definition drops :: "('k \<Rightarrow> int set) \<Rightarrow> int set \<Rightarrow> 'k proc \<Rightarrow> 'k proc \<Rightarrow> bool" where
  "drops fds X s s' \<longleftrightarrow> fds (sysk s') = fds (sysk s) - X"

lemma dropsI: "(\<And>s x s'. run_state m s = (x, s') \<Longrightarrow> fds (sysk s') = fds (sysk s) - X) \<Longrightarrow> state_io_rel (drops fds X) m"
  by (auto simp: drops_def)

lemma dropsD: "state_io_rel (drops fds X) m \<Longrightarrow> run_state m s = (x, s') \<Longrightarrow> fds (sysk s') = fds (sysk s) - X"
  by (auto simp: drops_def dest: state_io_relD)

lemma drops_bind:
  assumes "state_io_rel (drops fds X) m" and "\<And>x. state_io_rel (drops fds Y) (f x)"
  shows "state_io_rel (drops fds (X \<union> Y)) (State_Monad.bind m f)"
proof (rule dropsI)
  fix s y s'
  obtain x s1 where m: "run_state m s = (x, s1)" by (cases "run_state m s")
  assume "run_state (State_Monad.bind m f) s = (y, s')"
  then have "run_state (f x) s1 = (y, s')" using m by simp
  from dropsD [OF assms(2) this] dropsD [OF assms(1) m] show "fds (sysk s') = fds (sysk s) - (X \<union> Y)" by blast
qed

lemma drops_first: "state_io_rel (drops fds {}) m \<Longrightarrow> (\<And>x. state_io_rel (drops fds X) (f x)) \<Longrightarrow> state_io_rel (drops fds X) (State_Monad.bind m f)"
  using drops_bind [of fds "{}" m X f] by simp

lemma drops_last: "state_io_rel (drops fds X) m \<Longrightarrow> (\<And>x. state_io_rel (drops fds {}) (f x)) \<Longrightarrow> state_io_rel (drops fds X) (State_Monad.bind m f)"
  using drops_bind [of fds X m "{}" f] by simp

lemma drops_both: "state_io_rel (drops fds {a}) m \<Longrightarrow> (\<And>x. state_io_rel (drops fds X) (f x)) \<Longrightarrow> state_io_rel (drops fds (insert a X)) (State_Monad.bind m f)"
  using drops_bind [of fds "{a}" m X f] by simp

lemma drops_return: "state_io_rel (drops fds {}) (give x)"
  by (simp add: state_io_rel_def drops_def)

lemma drops_get: "state_io_rel (drops fds {}) State_Monad.get"
  by (simp add: state_io_rel_def drops_def)

lemma drops_sys:
  assumes "\<And>k. fds (snd (f k)) = fds k - X"
  shows "state_io_rel (drops fds X) (sys f)"
proof (rule dropsI)
  fix s x s'
  assume r: "run_state (sys f) s = (x, s')"
  obtain v k' where f: "f (sysk s) = (v, k')" by (cases "f (sysk s)")
  then have "sysk s' = k'" using r by (cases v) (auto simp: run_sys)
  then show "fds (sysk s') = fds (sysk s) - X" using assms [of "sysk s"] f by simp
qed

lemma drops_keeps: "keeps fds f \<Longrightarrow> state_io_rel (drops fds {}) (sys f)"
  by (rule drops_sys) (simp add: keeps_def)

lemma drops_sys_code: "keeps fds f \<Longrightarrow> state_io_rel (drops fds {}) (sys_code f)"
proof (rule dropsI)
  fix s x s'
  assume k: "keeps fds f" and r: "run_state (sys_code f) s = (x, s')"
  obtain v k' where f: "f (sysk s) = (v, k')" by (cases "f (sysk s)")
  have "fds (snd (f (sysk s))) = fds (sysk s)" using k by (simp add: keeps_def)
  moreover have "sysk s' = k'" using r by (simp add: run_sys_code f) auto
  ultimately show "fds (sysk s') = fds (sysk s) - {}" by (simp add: f)
qed

lemma drops_errno:
  "state_io_rel (drops fds {}) neg_errno" "state_io_rel (drops fds {}) (zero_or_errno res)"
  "state_io_rel (drops fds {}) (value_or_errno v)"
  by (simp_all add: state_io_rel_def drops_def split: option.splits)

lemma drops_if:
  "(b \<Longrightarrow> state_io_rel (drops fds X) m) \<Longrightarrow> (\<not> b \<Longrightarrow> state_io_rel (drops fds X) n) \<Longrightarrow> state_io_rel (drops fds X) (if b then m else n)"
  by simp

lemma drops_option:
  "state_io_rel (drops fds X) m \<Longrightarrow> (\<And>x. state_io_rel (drops fds X) (n x)) \<Longrightarrow> state_io_rel (drops fds X) (case r of None \<Rightarrow> m | Some x \<Rightarrow> n x)"
  by (cases r) simp_all

lemma drops_prod:
  "(\<And>x y. state_io_rel (drops fds X) (n x y)) \<Longrightarrow> state_io_rel (drops fds X) (case r of (x, y) \<Rightarrow> n x y)"
  by (cases r) simp_all

text \<open>A call that opens a descriptor, with the rest of the handler, which has to close it.\<close>

lemma drops_open:
  assumes o: "opens fds fd f" and none: "state_io_rel (drops fds X) m"
    and some: "\<And>v. 0 \<le> fd v \<Longrightarrow> state_io_rel (drops fds (insert (fd v) X)) (n v)"
  shows "state_io_rel (drops fds X) (do { r \<leftarrow> sys f; case r of None \<Rightarrow> m | Some v \<Rightarrow> n v })"
proof (rule dropsI)
  fix s x s'
  assume r: "run_state (do { r \<leftarrow> sys f; case r of None \<Rightarrow> m | Some v \<Rightarrow> n v }) s = (x, s')"
  obtain w k where f: "f (sysk s) = (w, k)" by (cases "f (sysk s)")
  show "fds (sysk s') = fds (sysk s) - X"
  proof (cases w)
    case (SysErr e)
    have "fds k = fds (sysk s)" using o f SysErr by (auto simp: opens_def dest: spec [of _ "sysk s"])
    moreover have "run_state m (s\<lparr>errno := e, sysk := k\<rparr>) = (x, s')" using r f SysErr by (simp add: run_sys)
    ultimately show ?thesis using dropsD [OF none] by fastforce
  next
    case (SysOk v)
    have v: "0 \<le> fd v" "fd v \<notin> fds (sysk s)" "fds k = insert (fd v) (fds (sysk s))"
      using o f SysOk by (auto simp: opens_def dest: spec [of _ "sysk s"])
    moreover have "run_state (n v) (s\<lparr>sysk := k\<rparr>) = (x, s')" using r f SysOk by (simp add: run_sys)
    ultimately show ?thesis using dropsD [OF some [OF v(1)]] by fastforce
  qed
qed

text \<open>The descriptor of a request: opened here when there is none, and then to be closed here.\<close>

definition own :: "file_info option \<Rightarrow> int \<Rightarrow> int set" where
  "own fi fd = (if fi = None then {fd} else {})"

lemma drops_close_opened:
  "(\<And>fd k. fds (snd (p_close E fd k)) = fds k - {fd}) \<Longrightarrow> state_io_rel (drops fds (own fi fd)) (close_opened E fi fd)"
  by (cases fi) (auto simp: close_opened_def own_def intro!: drops_last drops_sys drops_return)

lemma drops_fd_of:
  fixes E :: "'k posix"
  assumes o: "opens fds (\<lambda>v. v) (p_open E path fl 0)" and failed: "state_io_rel (drops fds X) failed"
    and body: "\<And>fd. state_io_rel (drops fds (own fi fd \<union> X)) (body fd)"
  shows "state_io_rel (drops fds X) (do { fd \<leftarrow> fd_of E path fl fi; if fd = - 1 then failed else body fd })"
proof (cases fi)
  case (Some f)
  then show ?thesis using body [of "fi_fh f"] failed by (simp add: fd_of_def own_def)
next
  case None
  have "do { fd \<leftarrow> fd_of E path fl fi; if fd = - 1 then failed else body fd } =
      do { r \<leftarrow> sys (p_open E path fl 0); case r of None \<Rightarrow> failed | Some fd \<Rightarrow> if fd = - 1 then failed else body fd }"
    by (rule state_ext) (auto simp: None fd_of_def minus_one_def split: option.splits prod.splits)
  moreover have "state_io_rel (drops fds X)
      (do { r \<leftarrow> sys (p_open E path fl 0); case r of None \<Rightarrow> failed | Some fd \<Rightarrow> if fd = - 1 then failed else body fd })"
    by (rule drops_open [OF o failed]) (use body None in \<open>auto simp: own_def\<close>)
  ultimately show ?thesis by simp
qed

text \<open>The usual shape: use the descriptor, close it if it was opened here, and return.\<close>

lemma drops_use:
  fixes E :: "'k posix"
  assumes o: "opens fds (\<lambda>v. v) (p_open E path fl 0)" and c: "\<And>fd k. fds (snd (p_close E fd k)) = fds k - {fd}"
    and failed: "state_io_rel (drops fds {}) failed" and body: "\<And>fd. state_io_rel (drops fds {}) (body fd)"
  shows "state_io_rel (drops fds {}) (do { fd \<leftarrow> fd_of E path fl fi; if fd = - 1 then failed
    else do { x \<leftarrow> body fd; _ \<leftarrow> close_opened E fi fd; give (g x) } })"
proof (rule drops_fd_of [OF o failed])
  fix fd
  have "state_io_rel (drops fds (own fi fd)) (do { x \<leftarrow> body fd; _ \<leftarrow> close_opened E fi fd; give (g x) })"
    by (intro drops_first [OF body] drops_last [OF drops_close_opened [OF c]] drops_return)
  then show "state_io_rel (drops fds (own fi fd \<union> {})) (do { x \<leftarrow> body fd; _ \<leftarrow> close_opened E fi fd; give (g x) })"
    by simp
qed

end
