(* ===== verification/Passthrough_Ops.thy ===== *)
theory Passthrough_Ops
  imports Posix Dedup_Read Dedup_Unlink
begin

text \<open>
  The handlers of \<^verbatim>\<open>codededup/passthrough.c\<close> that do not touch the store: they pass a request on to the system call,
  after some guards for the store's own files. \<open>xmp_getattr\<close> reads the file index for the logical sz.
  A handler is an action on the process (\<open>Posix\<close>); the optional ones are compiled only when their \<^verbatim>\<open>HAVE_\<close> macro
  is defined. The program takes these handlers from the skeleton (\<open>Skeleton\<close>).
\<close>

section \<open>Handlers\<close>

text \<open>The two files of the store itself, which some handlers refuse.\<close>

definition reserved_path :: "string \<Rightarrow> bool" where
  "reserved_path path \<longleftrightarrow> path = ''/backend/.metadata'' \<or> path = ''/backend/.sysdata''"

definition xmp_getattr :: "'k posix \<Rightarrow> (string \<Rightarrow> filemeta option) \<Rightarrow> string \<Rightarrow> ('k, int \<times> stat option) act" where
  "xmp_getattr E files path =
     (if reserved_path path then give (- ENOENT, None)
      else do {
        res \<leftarrow> sys (p_lstat E path);
        case res of
          None \<Rightarrow> do { e \<leftarrow> neg_errno; give (e, None) }
        | Some stbuf \<Rightarrow> give (0, Some (case files path of
            None \<Rightarrow> stbuf
          | Some file \<Rightarrow> stbuf\<lparr>st_size := logicalSize file, st_blocks := tdiv (logicalSize file + 511) 512\<rparr>)) })"

definition xmp_access :: "'k posix \<Rightarrow> string \<Rightarrow> int \<Rightarrow> ('k, int) act" where
  "xmp_access E path amode = do {
     res \<leftarrow> sys (p_access E path amode);
     zero_or_errno res }"

text \<open>The contents of the caller's buffer, with the terminating zero, come with the result.\<close>

definition xmp_readlink :: "'k posix \<Rightarrow> string \<Rightarrow> nat \<Rightarrow> ('k, int \<times> byte list) act" where
  "xmp_readlink E path sz = do {
     res \<leftarrow> sys (p_readlink E path (sz - 1));
     case res of
       None \<Rightarrow> do { e \<leftarrow> neg_errno; give (e, []) }
     | Some bs \<Rightarrow> give (0, bs @ [0]) }"


text \<open>The loop over the directory; \<open>filler\<close> is the callback of FUSE on its buffer, which is full when
  it does not return 0.\<close>

fun xmp_fill :: "('b \<Rightarrow> string \<Rightarrow> stat \<Rightarrow> int \<Rightarrow> int \<times> 'b) \<Rightarrow> int \<Rightarrow> dirent list \<Rightarrow> 'b \<Rightarrow> 'b" where
  "xmp_fill filler dirplus [] buf = buf"
| "xmp_fill filler dirplus (de # des) buf = (
     if de_name de = ''.metadata'' \<or> de_name de = ''.sysdata'' then xmp_fill filler dirplus des buf
     else let st = zero_stat\<lparr>st_ino := de_ino de, st_mode := push_bit 12 (ucast (de_type de))\<rparr>;
              (full, buf) = filler buf (de_name de) st dirplus
          in if full \<noteq> 0 then buf else xmp_fill filler dirplus des buf)"

definition xmp_readdir :: "'k posix \<Rightarrow> int \<Rightarrow> string \<Rightarrow> ('b \<Rightarrow> string \<Rightarrow> stat \<Rightarrow> int \<Rightarrow> int \<times> 'b) \<Rightarrow> 'b \<Rightarrow> ('k, int \<times> 'b) act" where
  "xmp_readdir E fill_dir_plus path filler buf = do {
     dp \<leftarrow> sys (p_opendir E path);
     case dp of
       None \<Rightarrow> do { e \<leftarrow> neg_errno; give (e, buf) }
     | Some (d, des) \<Rightarrow> do {
         _ \<leftarrow> sys (p_closedir E d);
         give (0, xmp_fill filler fill_dir_plus des buf) } }"


definition mknod_wrapper :: "'k posix \<Rightarrow> int \<Rightarrow> string \<Rightarrow> string option \<Rightarrow> 32 word \<Rightarrow> 64 word \<Rightarrow> ('k, int) act" where
  "mknod_wrapper E dirfd path lnk mode rdev =
     (if S_ISREG mode then do {
        res \<leftarrow> sys (p_openat E dirfd path (O_CREAT OR O_EXCL OR O_WRONLY OR O_DIRECT) mode);
        if minus_one res \<ge> 0 then do { res \<leftarrow> sys (p_close E (minus_one res)); give (zero_or_minus_one res) }
        else give (minus_one res) }
      else if S_ISDIR mode then do { res \<leftarrow> sys (p_mkdirat E dirfd path mode); give (zero_or_minus_one res) }
      else if S_ISLNK mode \<and> lnk \<noteq> None then do {
        res \<leftarrow> sys (p_symlinkat E (the lnk) dirfd path); give (zero_or_minus_one res) }
      else if S_ISFIFO mode then do { res \<leftarrow> sys (p_mkfifoat E dirfd path mode); give (zero_or_minus_one res) }
      else do { res \<leftarrow> sys (p_mknodat E dirfd path mode rdev); give (zero_or_minus_one res) })"

definition xmp_mknod :: "'k posix \<Rightarrow> string \<Rightarrow> 32 word \<Rightarrow> 64 word \<Rightarrow> ('k, int) act" where
  "xmp_mknod E path mode rdev = do {
     res \<leftarrow> mknod_wrapper E AT_FDCWD path None mode rdev;
     if res = - 1 then neg_errno else give 0 }"


definition xmp_symlink :: "'k posix \<Rightarrow> string \<Rightarrow> string \<Rightarrow> ('k, int) act" where
  "xmp_symlink E frm tgt = do {
     res \<leftarrow> sys (p_symlink E frm tgt);
     zero_or_errno res }"


definition xmp_rename :: "'k posix \<Rightarrow> string \<Rightarrow> string \<Rightarrow> 32 word \<Rightarrow> ('k, int) act" where
  "xmp_rename E frm tgt flags =
     (if reserved_path frm \<or> reserved_path tgt then give (- EPERM)
      else if flags \<noteq> 0 then give (- EINVAL)
      else do {
        res \<leftarrow> sys (p_rename E frm tgt);
        zero_or_errno res })"


definition xmp_link :: "'k posix \<Rightarrow> string \<Rightarrow> string \<Rightarrow> ('k, int) act" where
  "xmp_link E frm tgt = do {
     res \<leftarrow> sys (p_link E frm tgt);
     zero_or_errno res }"

definition xmp_chmod :: "'k posix \<Rightarrow> string \<Rightarrow> 32 word \<Rightarrow> ('k, int) act" where
  "xmp_chmod E path mode = do {
     res \<leftarrow> sys (p_chmod E path mode);
     zero_or_errno res }"

definition xmp_chown :: "'k posix \<Rightarrow> string \<Rightarrow> 32 word \<Rightarrow> 32 word \<Rightarrow> ('k, int) act" where
  "xmp_chown E path uid gid = do {
     res \<leftarrow> sys (p_lchown E path uid gid);
     zero_or_errno res }"

definition xmp_truncate :: "'k posix \<Rightarrow> string \<Rightarrow> int \<Rightarrow> file_info option \<Rightarrow> ('k, int) act" where
  "xmp_truncate E path sz fi = do {
     res \<leftarrow> (case fi of Some f \<Rightarrow> sys (p_ftruncate E (fi_fh f) sz) | None \<Rightarrow> sys (p_truncate E path sz));
     zero_or_errno res }"

definition xmp_utimens :: "'k posix \<Rightarrow> string \<Rightarrow> (int \<times> int) \<times> (int \<times> int) \<Rightarrow> ('k, int) act" where
  "xmp_utimens E path ts = do {
     res \<leftarrow> sys (p_utimensat E 0 path ts AT_SYMLINK_NOFOLLOW);
     zero_or_errno res }"


text \<open>\<^verbatim>\<open>fi->fh\<close> comes with the result. \<^verbatim>\<open>DEBUG\<close> is not defined in this program.\<close>

definition xmp_create :: "'k posix \<Rightarrow> string \<Rightarrow> 32 word \<Rightarrow> file_info \<Rightarrow> ('k, int \<times> file_info) act" where
  "xmp_create E path mode fi =
     (if reserved_path path then give (- EACCES, fi)
      else do {
        res \<leftarrow> sys (p_open E path (fi_flags fi OR O_DIRECT) mode);
        case res of
          None \<Rightarrow> do { e \<leftarrow> neg_errno; give (e, fi) }
        | Some fd \<Rightarrow> give (0, fi\<lparr>fi_fh := fd\<rparr>) })"

definition xmp_mkdir :: "'k posix \<Rightarrow> string \<Rightarrow> 32 word \<Rightarrow> ('k, int) act" where
  "xmp_mkdir E path mode = do {
     res \<leftarrow> sys (p_mkdir E path mode);
     zero_or_errno res }"

definition xmp_rmdir :: "'k posix \<Rightarrow> string \<Rightarrow> ('k, int) act" where
  "xmp_rmdir E path = do {
     res \<leftarrow> sys (p_rmdir E path);
     zero_or_errno res }"

definition xmp_open :: "'k posix \<Rightarrow> string \<Rightarrow> file_info \<Rightarrow> ('k, int \<times> file_info) act" where
  "xmp_open E path fi =
     (if reserved_path path then give (- EACCES, fi)
      else do {
        res \<leftarrow> sys (p_open E path (fi_flags fi OR O_DIRECT) 0);
        case res of
          None \<Rightarrow> do { e \<leftarrow> neg_errno; give (e, fi) }
        | Some fd \<Rightarrow> give (0, fi\<lparr>fi_fh := fd\<rparr>) })"


definition xmp_statfs :: "'k posix \<Rightarrow> string \<Rightarrow> ('k, int \<times> byte list option) act" where
  "xmp_statfs E path = do {
     res \<leftarrow> sys (p_statvfs E path);
     r \<leftarrow> zero_or_errno res;
     give (r, res) }"

definition xmp_release :: "'k posix \<Rightarrow> file_info \<Rightarrow> ('k, int) act" where
  "xmp_release E fi = do { res \<leftarrow> sys (p_close E (fi_fh fi)); give (zero_or_minus_one res) }"

definition xmp_fsync :: "'k posix \<Rightarrow> int \<Rightarrow> file_info \<Rightarrow> ('k, int) act" where
  "xmp_fsync E isdatasync fi =
     (if isdatasync = 0 then do { res \<leftarrow> sys (p_fsync E (fi_fh fi)); give (zero_or_minus_one res) }
      else do { res \<leftarrow> sys (p_fdatasync E (fi_fh fi)); give (zero_or_minus_one res) })"

definition xmp_fallocate :: "'k posix \<Rightarrow> string \<Rightarrow> int \<Rightarrow> int \<Rightarrow> int \<Rightarrow> file_info option \<Rightarrow> ('k, int) act" where
  "xmp_fallocate E path mode offset len fi =
     (if mode \<noteq> 0 then give (- EOPNOTSUPP)
      else do {
        fd \<leftarrow> fd_of E path (O_WRONLY OR O_DIRECT) fi;
        if fd = - 1 then neg_errno
        else do {
          res \<leftarrow> sys_code (p_fallocate E fd offset len);
          _ \<leftarrow> close_opened E fi fd;
          give (- res) } })"

definition xmp_setxattr :: "'k posix \<Rightarrow> string \<Rightarrow> string \<Rightarrow> byte list \<Rightarrow> int \<Rightarrow> ('k, int) act" where
  "xmp_setxattr E path name value flags = do {
     res \<leftarrow> sys (p_lsetxattr E path name value flags);
     zero_or_errno res }"

definition xmp_getxattr :: "'k posix \<Rightarrow> string \<Rightarrow> string \<Rightarrow> nat \<Rightarrow> ('k, int \<times> byte list) act" where
  "xmp_getxattr E path name sz = do {
     res \<leftarrow> sys (p_lgetxattr E path name sz);
     case res of
       None \<Rightarrow> do { e \<leftarrow> neg_errno; give (e, []) }
     | Some v \<Rightarrow> give v }"

definition xmp_listxattr :: "'k posix \<Rightarrow> string \<Rightarrow> nat \<Rightarrow> ('k, int \<times> byte list) act" where
  "xmp_listxattr E path sz = do {
     res \<leftarrow> sys (p_llistxattr E path sz);
     case res of
       None \<Rightarrow> do { e \<leftarrow> neg_errno; give (e, []) }
     | Some v \<Rightarrow> give v }"

definition xmp_removexattr :: "'k posix \<Rightarrow> string \<Rightarrow> string \<Rightarrow> ('k, int) act" where
  "xmp_removexattr E path name = do {
     res \<leftarrow> sys (p_lremovexattr E path name);
     zero_or_errno res }"

definition xmp_copy_file_range ::
  "'k posix \<Rightarrow> string \<Rightarrow> file_info option \<Rightarrow> int \<Rightarrow> string \<Rightarrow> file_info option \<Rightarrow> int \<Rightarrow> nat \<Rightarrow> int \<Rightarrow> ('k, int) act" where
  "xmp_copy_file_range E path_in fi_in offset_in path_out fi_out offset_out len flags = do {
     fd_in \<leftarrow> fd_of E path_in (O_RDONLY OR O_DIRECT) fi_in;
     if fd_in = - 1 then neg_errno
     else do {
       fd_out \<leftarrow> fd_of E path_out (O_WRONLY OR O_DIRECT) fi_out;
       if fd_out = - 1 then do { _ \<leftarrow> sys (p_close E fd_in); neg_errno }
       else do {
         r \<leftarrow> sys (p_copy_file_range E fd_in offset_in fd_out offset_out len flags);
         res \<leftarrow> value_or_errno r;
         _ \<leftarrow> close_opened E fi_out fd_out;
         _ \<leftarrow> close_opened E fi_in fd_in;
         give res } } }"

definition xmp_lseek :: "'k posix \<Rightarrow> string \<Rightarrow> int \<Rightarrow> int \<Rightarrow> file_info option \<Rightarrow> ('k, int) act" where
  "xmp_lseek E path off whence fi = do {
     fd \<leftarrow> fd_of E path (O_RDONLY OR O_DIRECT) fi;
     if fd = - 1 then neg_errno
     else do {
       res \<leftarrow> do { r \<leftarrow> sys (p_lseek E fd off whence); value_or_errno r };
       _ \<leftarrow> close_opened E fi fd;
       give res } }"

text \<open>\<^verbatim>\<open>main\<close> hands every argument but \<^verbatim>\<open>--plus\<close> on to FUSE, at most ten.\<close>

fun xmp_args :: "string list \<Rightarrow> string list \<Rightarrow> int \<Rightarrow> string list \<times> int" where
  "xmp_args [] new_argv dirplus = (new_argv, dirplus)"
| "xmp_args (a # as) new_argv dirplus =
     (if \<not> length new_argv < 10 then (new_argv, dirplus)
      else if a = ''--plus'' then xmp_args as new_argv FUSE_FILL_DIR_PLUS
      else xmp_args as (new_argv @ [a]) dirplus)"

text \<open>Two helpers of the header that no handler calls.\<close>

definition buf_add :: "int \<Rightarrow> byte list \<Rightarrow> byte list" where
  "buf_add value buf = map (\<lambda>b. b + of_int value) buf"

definition buf_sub :: "int \<Rightarrow> byte list \<Rightarrow> byte list" where
  "buf_sub value buf = map (\<lambda>b. b - of_int value) buf"

end
