(* ===== verification/Ticket_RWLock.thy ===== *)
theory Ticket_RWLock
  imports Prelude
begin

text \<open>
  \<^verbatim>\<open>codededup/ticket_rwlock.c\<close>: the fair readers-writer lock that every handler of the store
  takes. Each function runs under the lock's mutex from its start, or from the return of
  \<^verbatim>\<open>pthread_cond_wait\<close>, to its end or to the next wait, so such a stretch is one step of the
  system. A thread is idle, waits with its ticket on one of the two condition variables (asleep, or woken and
  about to look again), or holds the lock. Tickets are 64-bit and readers are counted in 32 bits,
  as declared; both wrap.

  The abstract lock is a queue of threads in the order of arrival, of which only the first can be
  let in. The theorems: every step of the code is one of the abstract lock (\<open>rwlock_refines_fifo\<close>),
  readers exclude writers and writers each other, threads are let in in the order in which
  they asked, and no wakeup is lost: as long as somebody waits, somebody can go on.
\<close>

section \<open>The code\<close>

datatype access = Reading | Writing

datatype phase = Idle | Waiting access "64 word" bool | Holding access

record ticket_rwlock =
  next_ticket :: "64 word"
  now_serving :: "64 word"
  readers_active :: "32 word"

record rwlock_sys =
  lock :: ticket_rwlock
  threads :: "phase list"

definition ticket_rwlock_init :: ticket_rwlock where
  "ticket_rwlock_init = \<lparr>next_ticket = 0, now_serving = 0, readers_active = 0\<rparr>"

text \<open>\<^verbatim>\<open>pthread_cond_broadcast\<close> on the condition variable that threads of one kind wait on.\<close>

fun wake :: "access \<Rightarrow> phase \<Rightarrow> phase" where
  "wake a (Waiting b t asleep) = Waiting b t (asleep \<and> b \<noteq> a)"
| "wake a p = p"

definition broadcast :: "access \<Rightarrow> rwlock_sys \<Rightarrow> rwlock_sys" where
  "broadcast a s = s\<lparr>threads := map (wake a) (threads s)\<rparr>"

definition set_phase :: "nat \<Rightarrow> phase \<Rightarrow> rwlock_sys \<Rightarrow> rwlock_sys" where
  "set_phase i p s = s\<lparr>threads := (threads s)[i := p]\<rparr>"

text \<open>The conditions of the two waiting loops, negated.\<close>

fun admitted :: "access \<Rightarrow> 64 word \<Rightarrow> ticket_rwlock \<Rightarrow> bool" where
  "admitted Reading t lk \<longleftrightarrow> t = now_serving lk"
| "admitted Writing t lk \<longleftrightarrow> t = now_serving lk \<and> \<not> readers_active lk > 0"

text \<open>One look at the condition, by thread \<open>i\<close> with ticket \<open>t\<close>: sleep, or leave the loop and finish.\<close>

fun try_enter :: "access \<Rightarrow> nat \<Rightarrow> 64 word \<Rightarrow> rwlock_sys \<Rightarrow> rwlock_sys" where
  "try_enter Reading i t s =
     (if \<not> admitted Reading t (lock s) then set_phase i (Waiting Reading t True) s
      else broadcast Reading (set_phase i (Holding Reading)
        (s\<lparr>lock := (lock s)\<lparr>readers_active := readers_active (lock s) + 1,
                         now_serving := now_serving (lock s) + 1\<rparr>\<rparr>)))"
| "try_enter Writing i t s =
     (if \<not> admitted Writing t (lock s) then set_phase i (Waiting Writing t True) s
      else set_phase i (Holding Writing) s)"

definition take_ticket :: "rwlock_sys \<Rightarrow> rwlock_sys" where
  "take_ticket s = s\<lparr>lock := (lock s)\<lparr>next_ticket := next_ticket (lock s) + 1\<rparr>\<rparr>"

definition ticket_rwlock_read_lock :: "nat \<Rightarrow> rwlock_sys \<Rightarrow> rwlock_sys" where
  "ticket_rwlock_read_lock i s = try_enter Reading i (next_ticket (lock s)) (take_ticket s)"

definition ticket_rwlock_write_lock :: "nat \<Rightarrow> rwlock_sys \<Rightarrow> rwlock_sys" where
  "ticket_rwlock_write_lock i s = try_enter Writing i (next_ticket (lock s)) (take_ticket s)"

definition ticket_rwlock_read_unlock :: "nat \<Rightarrow> rwlock_sys \<Rightarrow> rwlock_sys" where
  "ticket_rwlock_read_unlock i s =
     (let s1 = set_phase i Idle (s\<lparr>lock := (lock s)\<lparr>readers_active := readers_active (lock s) - 1\<rparr>\<rparr>)
      in if readers_active (lock s1) = 0 then broadcast Writing s1 else s1)"

definition ticket_rwlock_write_unlock :: "nat \<Rightarrow> rwlock_sys \<Rightarrow> rwlock_sys" where
  "ticket_rwlock_write_unlock i s =
     broadcast Writing (broadcast Reading
       (set_phase i Idle (s\<lparr>lock := (lock s)\<lparr>now_serving := now_serving (lock s) + 1\<rparr>\<rparr>)))"

text \<open>The steps of a system of threads. A thread locks only when it holds nothing of this lock, and
  unlocks what it holds; a wait may also end without a broadcast (POSIX allows it).\<close>

datatype event = Lock access nat | Retry nat | Spurious nat | Unlock nat

inductive step :: "rwlock_sys \<Rightarrow> event \<Rightarrow> rwlock_sys \<Rightarrow> bool" where
  read_lock: "i < length (threads s) \<Longrightarrow> threads s ! i = Idle \<Longrightarrow>
    step s (Lock Reading i) (ticket_rwlock_read_lock i s)"
| write_lock: "i < length (threads s) \<Longrightarrow> threads s ! i = Idle \<Longrightarrow>
    step s (Lock Writing i) (ticket_rwlock_write_lock i s)"
| retry: "i < length (threads s) \<Longrightarrow> threads s ! i = Waiting a t False \<Longrightarrow>
    step s (Retry i) (try_enter a i t s)"
| spurious: "i < length (threads s) \<Longrightarrow> threads s ! i = Waiting a t True \<Longrightarrow>
    step s (Spurious i) (set_phase i (Waiting a t False) s)"
| read_unlock: "i < length (threads s) \<Longrightarrow> threads s ! i = Holding Reading \<Longrightarrow>
    step s (Unlock i) (ticket_rwlock_read_unlock i s)"
| write_unlock: "i < length (threads s) \<Longrightarrow> threads s ! i = Holding Writing \<Longrightarrow>
    step s (Unlock i) (ticket_rwlock_write_unlock i s)"

inductive_cases step_LockE: "step s (Lock a i) s'"
inductive_cases step_RetryE: "step s (Retry i) s'"
inductive_cases step_SpuriousE: "step s (Spurious i) s'"
inductive_cases step_UnlockE: "step s (Unlock i) s'"

definition rwlock_start :: "nat \<Rightarrow> rwlock_sys" where
  "rwlock_start n = \<lparr>lock = ticket_rwlock_init, threads = replicate n Idle\<rparr>"

section \<open>The abstract lock\<close>

text \<open>Threads in the order in which they asked; \<open>writer_in\<close>: the first one is a writer and is
  in; \<open>readers\<close>: the readers that are in.\<close>

record fifo_lock =
  queue :: "(nat \<times> access) list"
  writer_in :: bool
  readers :: "nat set"

definition fifo_start :: fifo_lock where
  "fifo_start = \<lparr>queue = [], writer_in = False, readers = {}\<rparr>"

inductive fifo_step :: "fifo_lock \<Rightarrow> fifo_lock \<Rightarrow> bool" where
  join: "i \<notin> fst ` set (queue q) \<Longrightarrow> i \<notin> readers q \<Longrightarrow> fifo_step q (q\<lparr>queue := queue q @ [(i, a)]\<rparr>)"
| admit_reader: "queue q = (i, Reading) # w \<Longrightarrow>
    fifo_step q (q\<lparr>queue := w, readers := insert i (readers q)\<rparr>)"
| admit_writer: "queue q = (i, Writing) # w \<Longrightarrow> \<not> writer_in q \<Longrightarrow> readers q = {} \<Longrightarrow>
    fifo_step q (q\<lparr>writer_in := True\<rparr>)"
| leave_reader: "i \<in> readers q \<Longrightarrow> fifo_step q (q\<lparr>readers := readers q - {i}\<rparr>)"
| leave_writer: "queue q = (i, Writing) # w \<Longrightarrow> writer_in q \<Longrightarrow>
    fifo_step q (q\<lparr>queue := w, writer_in := False\<rparr>)"

text \<open>Forward simulation: a step of the concrete system is matched by steps of the abstract one.\<close>

locale simulation =
  fixes cstep :: "'s \<Rightarrow> 'e \<Rightarrow> 's \<Rightarrow> bool" and astep :: "'q \<Rightarrow> 'q \<Rightarrow> bool"
    and rel :: "'s \<Rightarrow> 'q \<Rightarrow> bool"
  assumes sim: "rel s q \<Longrightarrow> cstep s e s' \<Longrightarrow> \<exists>q'. astep\<^sup>*\<^sup>* q q' \<and> rel s' q'"
begin

lemma sim_run:
  assumes "(\<lambda>s s'. \<exists>e. cstep s e s')\<^sup>*\<^sup>* s s'" and "rel s q"
  shows "\<exists>q'. astep\<^sup>*\<^sup>* q q' \<and> rel s' q'"
  using assms
proof (induction rule: rtranclp_induct)
  case base
  then show ?case by blast
next
  case (step s1 s2)
  then obtain q1 e where "astep\<^sup>*\<^sup>* q q1" "rel s1 q1" "cstep s1 e s2" by blast
  with sim show ?case by (meson rtranclp_trans)
qed

end

section \<open>The simulation relation\<close>

definition waits :: "rwlock_sys \<Rightarrow> nat \<Rightarrow> access \<Rightarrow> 64 word \<Rightarrow> bool" where
  "waits s i a t \<longleftrightarrow> (\<exists>z. threads s ! i = Waiting a t z)"

text \<open>The \<open>k\<close>-th in the queue has the \<open>k\<close>-th ticket from \<open>now_serving\<close> on.\<close>

definition queue_rel :: "rwlock_sys \<Rightarrow> fifo_lock \<Rightarrow> bool" where
  "queue_rel s q \<longleftrightarrow>
     distinct (map fst (queue q)) \<and>
     next_ticket (lock s) = now_serving (lock s) + of_nat (length (queue q)) \<and>
     (\<forall>k<length (queue q). fst (queue q ! k) < length (threads s) \<and>
        (if k = 0 \<and> writer_in q
         then snd (queue q ! k) = Writing \<and> threads s ! fst (queue q ! k) = Holding Writing
         else waits s (fst (queue q ! k)) (snd (queue q ! k)) (now_serving (lock s) + of_nat k))) \<and>
     (\<forall>i<length (threads s). (\<exists>a t z. threads s ! i = Waiting a t z) \<longrightarrow> i \<in> fst ` set (queue q)) \<and>
     (\<forall>i<length (threads s). threads s ! i = Holding Writing \<longrightarrow>
        writer_in q \<and> (\<exists>w. queue q = (i, Writing) # w))"

definition readers_rel :: "rwlock_sys \<Rightarrow> fifo_lock \<Rightarrow> bool" where
  "readers_rel s q \<longleftrightarrow>
     readers q = {i. i < length (threads s) \<and> threads s ! i = Holding Reading} \<and>
     readers_active (lock s) = of_nat (card (readers q)) \<and>
     (writer_in q \<longrightarrow> queue q \<noteq> [] \<and> readers q = {})"

text \<open>Nobody sleeps who could go on.\<close>

definition no_lost_wakeup :: "rwlock_sys \<Rightarrow> bool" where
  "no_lost_wakeup s \<longleftrightarrow> (\<forall>i<length (threads s). \<forall>a t.
     threads s ! i = Waiting a t True \<longrightarrow> \<not> admitted a t (lock s))"

definition rwlock_rel :: "rwlock_sys \<Rightarrow> fifo_lock \<Rightarrow> bool" where
  "rwlock_rel s q \<longleftrightarrow> length (threads s) < 2 ^ 32 \<and> queue_rel s q \<and> readers_rel s q \<and> no_lost_wakeup s"


section \<open>Each step preserves the relation\<close>

definition core :: "rwlock_sys \<Rightarrow> fifo_lock \<Rightarrow> bool" where
  "core s q \<longleftrightarrow> length (threads s) < 2 ^ 32 \<and> queue_rel s q \<and> readers_rel s q"

lemma queue_relD:
  assumes "queue_rel s q"
  shows "distinct (map fst (queue q))"
    and "next_ticket (lock s) = now_serving (lock s) + of_nat (length (queue q))"
    and "k < length (queue q) \<Longrightarrow> fst (queue q ! k) < length (threads s)"
    and "k < length (queue q) \<Longrightarrow>
      if k = 0 \<and> writer_in q
      then snd (queue q ! k) = Writing \<and> threads s ! fst (queue q ! k) = Holding Writing
      else waits s (fst (queue q ! k)) (snd (queue q ! k)) (now_serving (lock s) + of_nat k)"
    and "i < length (threads s) \<Longrightarrow> threads s ! i = Waiting a t z \<Longrightarrow> i \<in> fst ` set (queue q)"
    and "i < length (threads s) \<Longrightarrow> threads s ! i = Holding Writing \<Longrightarrow>
      writer_in q \<and> (\<exists>w. queue q = (i, Writing) # w)"
  using assms unfolding queue_rel_def by blast+

lemma coreD:
  assumes "core s q"
  shows "length (threads s) < 2 ^ 32" "queue_rel s q" "readers_rel s q"
  using assms by (simp_all add: core_def)

lemma lock_simps [simp]:
  "lock (set_phase i p s) = lock s" "lock (broadcast a s) = lock s"
  "length (threads (set_phase i p s)) = length (threads s)" "length (threads (broadcast a s)) = length (threads s)"
  "threads (take_ticket s) = threads s" "now_serving (lock (take_ticket s)) = now_serving (lock s)"
  "readers_active (lock (take_ticket s)) = readers_active (lock s)"
  "next_ticket (lock (take_ticket s)) = next_ticket (lock s) + 1"
  by (simp_all add: set_phase_def broadcast_def take_ticket_def)

lemma threads_set_phase: "i < length (threads s) \<Longrightarrow> threads (set_phase i p s) ! j = (if j = i then p else threads s ! j)"
  by (simp add: set_phase_def nth_list_update)

lemma threads_broadcast: "j < length (threads s) \<Longrightarrow> threads (broadcast a s) ! j = wake a (threads s ! j)"
  by (simp add: broadcast_def)

lemma wake_Holding [simp]: "wake a p = Holding b \<longleftrightarrow> p = Holding b"
  by (cases p) auto

lemma wake_Waiting: "wake a p = Waiting b t z \<longleftrightarrow> (\<exists>z'. p = Waiting b t z' \<and> z = (z' \<and> b \<noteq> a))"
  by (cases p) auto

lemma waits_broadcast: "i < length (threads s) \<Longrightarrow> waits (broadcast a s) i b t = waits s i b t"
  by (auto simp: waits_def threads_broadcast wake_Waiting)

lemma core_broadcast:
  assumes c: "core s q"
  shows "core (broadcast a s) q"
proof -
  note Q = queue_relD [OF coreD(2) [OF c]]
  have "queue_rel (broadcast a s) q"
    unfolding queue_rel_def
  proof (intro conjI allI impI)
    fix k assume k: "k < length (queue q)"
    show "fst (queue q ! k) < length (threads (broadcast a s))" using Q(3) [OF k] by simp
    show "if k = 0 \<and> writer_in q
      then snd (queue q ! k) = Writing \<and> threads (broadcast a s) ! fst (queue q ! k) = Holding Writing
      else waits (broadcast a s) (fst (queue q ! k)) (snd (queue q ! k)) (now_serving (lock (broadcast a s)) + of_nat k)"
      using Q(3,4) [OF k] by (simp only: threads_broadcast waits_broadcast wake_Holding lock_simps)
  qed (use Q(1,2,5,6) in \<open>auto simp: threads_broadcast wake_Waiting\<close>)
  moreover have "{i. i < length (threads s) \<and> wake a (threads s ! i) = Holding Reading}
      = {i. i < length (threads s) \<and> threads s ! i = Holding Reading}" by simp
  then have "readers_rel (broadcast a s) q"
    using coreD(3) [OF c] by (simp add: readers_rel_def threads_broadcast cong: conj_cong)
  ultimately show ?thesis using coreD(1) [OF c] by (simp add: core_def)
qed

lemma queue_bound:
  assumes "core s q"
  shows "length (queue q) \<le> length (threads s)"
proof -
  have "set (map fst (queue q)) \<subseteq> {..<length (threads s)}"
    using queue_relD(3) [OF coreD(2) [OF assms]] by (force simp: in_set_conv_nth)
  moreover have "distinct (map fst (queue q))" by (rule queue_relD(1) [OF coreD(2) [OF assms]])
  ultimately have "length (map fst (queue q)) \<le> card {..<length (threads s)}"
    by (metis card_mono distinct_card finite_lessThan)
  then show ?thesis by simp
qed

lemma of_nat_inj64: "k < 2 ^ 32 \<Longrightarrow> l < 2 ^ 32 \<Longrightarrow> (of_nat k :: 64 word) = of_nat l \<longleftrightarrow> k = l"
  by (simp add: word_of_nat_eq_iff take_bit_nat_eq_self)

lemma of_nat_zero32: "k < 2 ^ 32 \<Longrightarrow> (of_nat k :: 32 word) = 0 \<longleftrightarrow> k = 0"
  by (auto simp: word_of_nat_eq_0_iff dest: dvd_imp_le)

lemma readers_rel_keep:
  assumes r: "readers_rel s q"
    and same: "{i. i < length (threads s') \<and> threads s' ! i = Holding Reading} =
      {i. i < length (threads s) \<and> threads s ! i = Holding Reading}"
    and "readers_active (lock s') = readers_active (lock s)" "queue q \<noteq> [] \<longrightarrow> queue q' \<noteq> []"
      "readers q' = readers q" "writer_in q' = writer_in q"
  shows "readers_rel s' q'"
  using r unfolding readers_rel_def same assms(3,5,6) using assms(4) by blast

text \<open>A queued thread that waits has the ticket of its place; the first place is the one served.\<close>

lemma waiting_place:
  assumes c: "core s q" and i: "i < length (threads s)" and w: "threads s ! i = Waiting a t z"
  obtains k where "k < length (queue q)" "queue q ! k = (i, a)" "t = now_serving (lock s) + of_nat k"
    "\<not> (k = 0 \<and> writer_in q)"
proof -
  note Q = queue_relD [OF coreD(2) [OF c]]
  have "i \<in> fst ` set (queue q)" by (rule Q(5) [OF i w])
  then obtain k where k: "k < length (queue q)" "fst (queue q ! k) = i" by (auto simp: in_set_conv_nth)
  have x: "if k = 0 \<and> writer_in q
         then snd (queue q ! k) = Writing \<and> threads s ! fst (queue q ! k) = Holding Writing
         else waits s (fst (queue q ! k)) (snd (queue q ! k)) (now_serving (lock s) + of_nat k)"
    by (rule Q(4) [OF k(1)])
  then have n: "\<not> (k = 0 \<and> writer_in q)" using w k(2) by (auto split: if_splits)
  then have "waits s i (snd (queue q ! k)) (now_serving (lock s) + of_nat k)" using x k(2) by auto
  then have "snd (queue q ! k) = a" "t = now_serving (lock s) + of_nat k" using w by (auto simp: waits_def)
  then show ?thesis using that k n by (metis prod.collapse)
qed

lemma served_first:
  assumes c: "core s q" and i: "i < length (threads s)" and w: "threads s ! i = Waiting a (now_serving (lock s)) z"
  obtains v where "queue q = (i, a) # v" "\<not> writer_in q"
proof -
  obtain k where k: "k < length (queue q)" "queue q ! k = (i, a)" "now_serving (lock s) = now_serving (lock s) + of_nat k"
    "\<not> (k = 0 \<and> writer_in q)"
    by (rule waiting_place [OF c i w])
  have "length (queue q) < 2 ^ 32" using queue_bound [OF c] c by (simp add: core_def)
  moreover have "(of_nat k :: 64 word) = of_nat 0" using k(3) by simp
  ultimately have "k = 0" using of_nat_inj64 [of k 0] k(1) by simp
  then show ?thesis using that k by (cases "queue q") auto
qed

lemma not_queued:
  assumes c: "core s q" and i: "i < length (threads s)" and w: "threads s ! i = Idle \<or> threads s ! i = Holding Reading"
  shows "i \<notin> fst ` set (queue q)"
proof
  assume "i \<in> fst ` set (queue q)"
  then obtain k where k: "k < length (queue q)" "fst (queue q ! k) = i" by (auto simp: in_set_conv_nth)
  then have "if k = 0 \<and> writer_in q then snd (queue q ! k) = Writing \<and> threads s ! i = Holding Writing
     else waits s i (snd (queue q ! k)) (now_serving (lock s) + of_nat k)"
    using queue_relD(4) [OF coreD(2) [OF c] k(1)] by (simp only: k(2))
  then show False using w by (auto simp: waits_def split: if_splits)
qed

lemma core_flag:
  assumes c: "core s q" and i: "i < length (threads s)" and w: "threads s ! i = Waiting a t z"
  shows "core (set_phase i (Waiting a t z') s) q"
proof -
  note Q = queue_relD [OF coreD(2) [OF c]]
  let ?s = "set_phase i (Waiting a t z') s"
  have ws: "waits ?s = waits s"
    using i w by (auto simp: waits_def threads_set_phase fun_eq_iff)
  have h: "threads ?s ! j = Holding b \<longleftrightarrow> threads s ! j = Holding b" for j b
    using i w by (auto simp: threads_set_phase)
  have "queue_rel ?s q"
    unfolding queue_rel_def
  proof (intro conjI allI impI)
    fix k assume k: "k < length (queue q)"
    show "fst (queue q ! k) < length (threads ?s)" using Q(3) [OF k] by simp
    show "if k = 0 \<and> writer_in q
      then snd (queue q ! k) = Writing \<and> threads ?s ! fst (queue q ! k) = Holding Writing
      else waits ?s (fst (queue q ! k)) (snd (queue q ! k)) (now_serving (lock ?s) + of_nat k)"
      using Q(4) [OF k] by (simp only: ws h lock_simps)
  next
    fix j assume "j < length (threads ?s)" "\<exists>a t z. threads ?s ! j = Waiting a t z"
    then show "j \<in> fst ` set (queue q)" using Q(5) [of j] i w by (auto simp: threads_set_phase split: if_splits)
  qed (use Q(1,2,6) in \<open>auto simp: h\<close>)
  moreover have "readers_rel ?s q" using coreD(3) [OF c] unfolding readers_rel_def h lock_simps .
  ultimately show ?thesis using coreD(1) [OF c] by (simp add: core_def)
qed

lemma core_join:
  assumes c: "core s q" and i: "i < length (threads s)" and idle: "threads s ! i = Idle"
  shows "core (set_phase i (Waiting a (next_ticket (lock s)) True) (take_ticket s)) (q\<lparr>queue := queue q @ [(i, a)]\<rparr>)"
    and "i \<notin> fst ` set (queue q)" and "i \<notin> readers q"
proof -
  let ?s = "set_phase i (Waiting a (next_ticket (lock s)) True) (take_ticket s)"
  let ?q = "q\<lparr>queue := queue q @ [(i, a)]\<rparr>"
  show nq: "i \<notin> fst ` set (queue q)" by (rule not_queued [OF c i]) (simp add: idle)
  show nr: "i \<notin> readers q" using c idle by (auto simp: core_def readers_rel_def)
  have th: "threads ?s ! j = (if j = i then Waiting a (next_ticket (lock s)) True else threads s ! j)" for j
    using i by (simp add: threads_set_phase)
  have Q: "queue_rel s q" using c by (simp add: core_def)
  have nt: "next_ticket (lock s) = now_serving (lock s) + of_nat (length (queue q))"
    using Q by (simp add: queue_rel_def)
  have old: "fst (queue q ! k) < length (threads s) \<and> fst (queue q ! k) \<noteq> i" if "k < length (queue q)" for k
    using queue_relD(3) [OF Q that] nq that by auto
  have place: "fst (queue ?q ! k) < length (threads ?s) \<and>
      (if k = 0 \<and> writer_in ?q
       then snd (queue ?q ! k) = Writing \<and> threads ?s ! fst (queue ?q ! k) = Holding Writing
       else waits ?s (fst (queue ?q ! k)) (snd (queue ?q ! k)) (now_serving (lock ?s) + of_nat k))"
    if k: "k < length (queue ?q)" for k
  proof (cases "k < length (queue q)")
    case True
    have "(if k = 0 \<and> writer_in q then snd (queue q ! k) = Writing \<and> threads s ! fst (queue q ! k) = Holding Writing
       else waits s (fst (queue q ! k)) (snd (queue q ! k)) (now_serving (lock s) + of_nat k))"
      by (rule queue_relD(4) [OF Q True])
    then show ?thesis using old [OF True] True by (auto simp: nth_append th waits_def)
  next
    case False
    then have [simp]: "k = length (queue q)" using k by simp
    have "\<not> (k = 0 \<and> writer_in q)" using c by (auto simp: core_def readers_rel_def)
    moreover have "threads ?s ! i = Waiting a (next_ticket (lock s)) True" using th [of i] by simp
    then have "waits ?s i a (now_serving (lock s) + of_nat k)" unfolding waits_def using nt by auto
    ultimately show ?thesis using i by auto
  qed
  have "queue_rel ?s ?q"
    unfolding queue_rel_def
  proof (intro conjI allI impI)
    show "distinct (map fst (queue ?q))" using Q nq by (simp add: queue_rel_def)
    show "next_ticket (lock ?s) = now_serving (lock ?s) + of_nat (length (queue ?q))" using nt by simp
  next
    fix j assume "j < length (threads ?s)" "\<exists>a t z. threads ?s ! j = Waiting a t z"
    then show "j \<in> fst ` set (queue ?q)" using queue_relD(5) [OF Q, of j] by (auto simp: th split: if_splits)
  next
    fix j assume "j < length (threads ?s)" "threads ?s ! j = Holding Writing"
    then have "writer_in q \<and> (\<exists>w. queue q = (j, Writing) # w)"
      using queue_relD(6) [OF Q, of j] by (auto simp: th split: if_splits)
    then show "writer_in ?q" "\<exists>w. queue ?q = (j, Writing) # w" by auto
  qed (use place in blast)+
  moreover have "readers_rel ?s ?q"
  proof -
    have "{j. j < length (threads ?s) \<and> threads ?s ! j = Holding Reading} = {j. j < length (threads s) \<and> threads s ! j = Holding Reading}"
      using idle by (auto simp: th split: if_splits)
    then show ?thesis by (rule readers_rel_keep [OF coreD(3) [OF c]]) simp_all
  qed
  ultimately show "core ?s ?q" using c by (simp add: core_def)
qed

lemma card_readers:
  assumes "core s q"
  shows "finite (readers q)" and "card (readers q) \<le> length (threads s)"
    and "i < length (threads s) \<Longrightarrow> i \<notin> readers q \<Longrightarrow> card (readers q) < length (threads s)"
proof -
  have r: "readers q = {i. i < length (threads s) \<and> threads s ! i = Holding Reading}"
    using assms by (simp add: core_def readers_rel_def)
  have sub: "readers q \<subseteq> {..<length (threads s)}" unfolding r by auto
  then show "finite (readers q)" by (rule finite_subset) simp
  show "card (readers q) \<le> length (threads s)" using card_mono [OF _ sub] by simp
  show "card (readers q) < length (threads s)" if "i < length (threads s)" "i \<notin> readers q"
  proof -
    have "readers q \<subset> {..<length (threads s)}" using sub that by auto
    then show ?thesis using psubset_card_mono [of "{..<length (threads s)}" "readers q"] by simp
  qed
qed

text \<open>The head of the queue has been dealt with: everybody else is one place further.\<close>

lemma places_shift:
  assumes Q: "queue_rel s q" and q: "queue q = (i, a) # v"
    and s': "length (threads s') = length (threads s)" "now_serving (lock s') = now_serving (lock s) + 1"
      "next_ticket (lock s') = next_ticket (lock s)"
      "\<And>j. j \<noteq> i \<Longrightarrow> threads s' ! j = threads s ! j" "threads s' ! i = Idle \<or> threads s' ! i = Holding Reading"
  shows "queue_rel s' (q\<lparr>queue := v, writer_in := False, readers := R\<rparr>)"
  unfolding queue_rel_def
proof (intro conjI allI impI)
  let ?q = "q\<lparr>queue := v, writer_in := False, readers := R\<rparr>"
  show "distinct (map fst (queue ?q))" using Q q by (simp add: queue_rel_def)
  show "next_ticket (lock s') = now_serving (lock s') + of_nat (length (queue ?q))"
    using Q q s' by (simp add: queue_rel_def add.assoc)
next
  fix k assume k: "k < length (queue (q\<lparr>queue := v, writer_in := False, readers := R\<rparr>))"
  have "Suc k < length (queue q)" using k q by simp
  then have old: "fst (queue q ! Suc k) < length (threads s)"
    "waits s (fst (queue q ! Suc k)) (snd (queue q ! Suc k)) (now_serving (lock s) + of_nat (Suc k))"
    using queue_relD(3,4) [OF Q, of "Suc k"] by auto
  have ne: "fst (v ! k) \<noteq> i" using queue_relD(1) [OF Q] q k by auto
  show "fst (queue (q\<lparr>queue := v, writer_in := False, readers := R\<rparr>) ! k) < length (threads s')" using old(1) q s'(1) by simp
  show "if k = 0 \<and> writer_in (q\<lparr>queue := v, writer_in := False, readers := R\<rparr>)
     then snd (queue (q\<lparr>queue := v, writer_in := False, readers := R\<rparr>) ! k) = Writing \<and>
       threads s' ! fst (queue (q\<lparr>queue := v, writer_in := False, readers := R\<rparr>) ! k) = Holding Writing
     else waits s' (fst (queue (q\<lparr>queue := v, writer_in := False, readers := R\<rparr>) ! k))
       (snd (queue (q\<lparr>queue := v, writer_in := False, readers := R\<rparr>) ! k)) (now_serving (lock s') + of_nat k)"
    using old(2) q s'(2) s'(4) [OF ne] by (simp add: waits_def add.assoc)
next
  fix j assume j: "j < length (threads s')" "\<exists>a t z. threads s' ! j = Waiting a t z"
  then have "j \<noteq> i" using s'(5) by auto
  then have "j \<in> fst ` set (queue q)" using queue_relD(5) [OF Q, of j] j s'(1,4) by auto
  then show "j \<in> fst ` set (queue (q\<lparr>queue := v, writer_in := False, readers := R\<rparr>))" using q \<open>j \<noteq> i\<close> by simp
next
  fix j assume j: "j < length (threads s')" "threads s' ! j = Holding Writing"
  then have "j \<noteq> i" using s'(5) by auto
  then have "\<exists>w. queue q = (j, Writing) # w" using queue_relD(6) [OF Q, of j] j s'(1,4) by auto
  then have False using q \<open>j \<noteq> i\<close> by simp
  then show "writer_in (q\<lparr>queue := v, writer_in := False, readers := R\<rparr>)"
    "\<exists>w. queue (q\<lparr>queue := v, writer_in := False, readers := R\<rparr>) = (j, Writing) # w" by simp_all
qed

text \<open>The lock after a step that gives a thread a phase and changes the lock's numbers.\<close>

abbreviation with_lock :: "ticket_rwlock \<Rightarrow> nat \<Rightarrow> phase \<Rightarrow> rwlock_sys \<Rightarrow> rwlock_sys" where
  "with_lock lk i p s \<equiv> set_phase i p (s\<lparr>lock := lk\<rparr>)"

lemma core_admit_reader:
  assumes c: "core s q" and i: "i < length (threads s)" and w: "threads s ! i = Waiting Reading (now_serving (lock s)) z"
  shows "\<exists>v. queue q = (i, Reading) # v \<and>
    core (with_lock ((lock s)\<lparr>readers_active := readers_active (lock s) + 1, now_serving := now_serving (lock s) + 1\<rparr>)
            i (Holding Reading) s)
         (q\<lparr>queue := v, readers := insert i (readers q)\<rparr>)"
proof -
  obtain v where v: "queue q = (i, Reading) # v" "\<not> writer_in q" by (rule served_first [OF c i w])
  let ?s = "with_lock ((lock s)\<lparr>readers_active := readers_active (lock s) + 1, now_serving := now_serving (lock s) + 1\<rparr>)
            i (Holding Reading) s"
  let ?q = "q\<lparr>queue := v, readers := insert i (readers q)\<rparr>"
  have th: "threads ?s ! j = (if j = i then Holding Reading else threads s ! j)" for j
    using i by (simp add: threads_set_phase)
  have "queue_rel ?s (q\<lparr>queue := v, writer_in := False, readers := insert i (readers q)\<rparr>)"
    by (rule places_shift [OF coreD(2) [OF c] v(1)]) (simp_all add: th)
  moreover have "?q = q\<lparr>queue := v, writer_in := False, readers := insert i (readers q)\<rparr>" using v(2) by simp
  ultimately have "queue_rel ?s ?q" by simp
  moreover have "readers_rel ?s ?q"
  proof -
    have r: "readers q = {j. j < length (threads s) \<and> threads s ! j = Holding Reading}"
      and n: "readers_active (lock s) = of_nat (card (readers q))"
      using coreD(3) [OF c] by (simp_all add: readers_rel_def)
    have "i \<notin> readers q" using r w by simp
    then have "card (insert i (readers q)) = Suc (card (readers q))" using card_readers(1) [OF c] by simp
    moreover have "insert i (readers q) = {j. j < length (threads ?s) \<and> threads ?s ! j = Holding Reading}"
      using i by (auto simp: r th)
    ultimately show ?thesis using v(2) n by (simp add: readers_rel_def)
  qed
  ultimately have "core ?s ?q" using coreD(1) [OF c] by (simp add: core_def)
  with v(1) show ?thesis by blast
qed

lemma core_admit_writer:
  assumes c: "core s q" and i: "i < length (threads s)" and w: "threads s ! i = Waiting Writing (now_serving (lock s)) z"
    and free: "readers_active (lock s) = 0"
  shows "\<exists>v. queue q = (i, Writing) # v \<and> \<not> writer_in q \<and> readers q = {} \<and>
    core (set_phase i (Holding Writing) s) (q\<lparr>writer_in := True\<rparr>)"
proof -
  note Q = queue_relD [OF coreD(2) [OF c]]
  obtain v where v: "queue q = (i, Writing) # v" "\<not> writer_in q" by (rule served_first [OF c i w])
  have r: "readers q = {j. j < length (threads s) \<and> threads s ! j = Holding Reading}"
    and n: "readers_active (lock s) = of_nat (card (readers q))"
    using coreD(3) [OF c] by (simp_all add: readers_rel_def)
  have "card (readers q) = 0"
    using of_nat_zero32 [of "card (readers q)"] card_readers(2) [OF c] coreD(1) [OF c] n free by simp
  then have none: "readers q = {}" using card_readers(1) [OF c] by simp
  let ?s = "set_phase i (Holding Writing) s"
  have th: "threads ?s ! j = (if j = i then Holding Writing else threads s ! j)" for j
    using i by (simp add: threads_set_phase)
  have other: "fst (queue q ! k) \<noteq> i" if "k < length (queue q)" "k \<noteq> 0" for k
  proof
    assume x: "fst (queue q ! k) = i"
    have "map fst (queue q) ! k = map fst (queue q) ! 0" using that x v by simp
    then show False using Q(1) that nth_eq_iff_index_eq [of "map fst (queue q)" k 0] v by simp
  qed
  have "queue_rel ?s (q\<lparr>writer_in := True\<rparr>)"
    unfolding queue_rel_def
  proof (intro conjI allI impI)
    fix k assume k: "k < length (queue (q\<lparr>writer_in := True\<rparr>))"
    show "fst (queue (q\<lparr>writer_in := True\<rparr>) ! k) < length (threads ?s)" using Q(3) [of k] k by simp
    show "if k = 0 \<and> writer_in (q\<lparr>writer_in := True\<rparr>)
      then snd (queue (q\<lparr>writer_in := True\<rparr>) ! k) = Writing \<and>
        threads ?s ! fst (queue (q\<lparr>writer_in := True\<rparr>) ! k) = Holding Writing
      else waits ?s (fst (queue (q\<lparr>writer_in := True\<rparr>) ! k)) (snd (queue (q\<lparr>writer_in := True\<rparr>) ! k))
        (now_serving (lock ?s) + of_nat k)"
    proof (cases "k = 0")
      case True
      then show ?thesis using v(1) by (simp add: th)
    next
      case False
      then show ?thesis using Q(4) [of k] k other [of k] by (simp add: waits_def th)
    qed
  next
    fix j assume "j < length (threads ?s)" "\<exists>a t z. threads ?s ! j = Waiting a t z"
    then show "j \<in> fst ` set (queue (q\<lparr>writer_in := True\<rparr>))"
      using Q(5) [of j] by (auto simp: th split: if_splits)
  next
    fix j assume j: "j < length (threads ?s)" "threads ?s ! j = Holding Writing"
    have "j = i"
    proof (rule ccontr)
      assume "j \<noteq> i"
      then have "threads s ! j = Holding Writing" using j by (simp add: th)
      then show False using Q(6) [of j] j v(2) by simp
    qed
    then show "writer_in (q\<lparr>writer_in := True\<rparr>)" "\<exists>w. queue (q\<lparr>writer_in := True\<rparr>) = (j, Writing) # w"
      using v(1) by simp_all
  qed (use Q(1,2) in simp_all)
  moreover have "readers_rel ?s (q\<lparr>writer_in := True\<rparr>)"
  proof -
    have "{j. j < length (threads ?s) \<and> threads ?s ! j = Holding Reading} = readers q"
      unfolding r using w by (auto simp: th)
    then show ?thesis using none n v(1) by (simp add: readers_rel_def)
  qed
  ultimately show ?thesis using v none coreD(1) [OF c] by (simp add: core_def)
qed

lemma core_leave_reader:
  assumes c: "core s q" and i: "i < length (threads s)" and w: "threads s ! i = Holding Reading"
  shows "i \<in> readers q"
    and "core (with_lock ((lock s)\<lparr>readers_active := readers_active (lock s) - 1\<rparr>) i Idle s)
          (q\<lparr>readers := readers q - {i}\<rparr>)"
proof -
  note Q = queue_relD [OF coreD(2) [OF c]]
  have r: "readers q = {j. j < length (threads s) \<and> threads s ! j = Holding Reading}"
    and n: "readers_active (lock s) = of_nat (card (readers q))" and no: "\<not> writer_in q"
    using coreD(3) [OF c] i w by (auto simp: readers_rel_def)
  show mem: "i \<in> readers q" using r i w by simp
  let ?s = "with_lock ((lock s)\<lparr>readers_active := readers_active (lock s) - 1\<rparr>) i Idle s"
  have th: "threads ?s ! j = (if j = i then Idle else threads s ! j)" for j
    using i by (simp add: threads_set_phase)
  have nq: "i \<notin> fst ` set (queue q)" using not_queued [OF c i] w by simp
  have "queue_rel ?s (q\<lparr>readers := readers q - {i}\<rparr>)"
    unfolding queue_rel_def
  proof (intro conjI allI impI)
    fix k assume k: "k < length (queue (q\<lparr>readers := readers q - {i}\<rparr>))"
    show "fst (queue (q\<lparr>readers := readers q - {i}\<rparr>) ! k) < length (threads ?s)" using Q(3) [of k] k by simp
    have "fst (queue q ! k) \<noteq> i" using nq k by (metis fifo_lock.select_convs(1) fifo_lock.surjective fifo_lock.update_convs(3) image_eqI nth_mem)
    then show "if k = 0 \<and> writer_in (q\<lparr>readers := readers q - {i}\<rparr>)
      then snd (queue (q\<lparr>readers := readers q - {i}\<rparr>) ! k) = Writing \<and>
        threads ?s ! fst (queue (q\<lparr>readers := readers q - {i}\<rparr>) ! k) = Holding Writing
      else waits ?s (fst (queue (q\<lparr>readers := readers q - {i}\<rparr>) ! k)) (snd (queue (q\<lparr>readers := readers q - {i}\<rparr>) ! k))
        (now_serving (lock ?s) + of_nat k)"
      using Q(4) [of k] k no by (simp add: waits_def th)
  next
    fix j assume "j < length (threads ?s)" "\<exists>a t z. threads ?s ! j = Waiting a t z"
    then show "j \<in> fst ` set (queue (q\<lparr>readers := readers q - {i}\<rparr>))"
      using Q(5) [of j] by (auto simp: th split: if_splits)
  next
    fix j assume j: "j < length (threads ?s)" "threads ?s ! j = Holding Writing"
    then have "writer_in q" using Q(6) [of j] by (auto simp: th split: if_splits)
    then show "writer_in (q\<lparr>readers := readers q - {i}\<rparr>)"
      "\<exists>w. queue (q\<lparr>readers := readers q - {i}\<rparr>) = (j, Writing) # w" using no by simp_all
  qed (use Q(1,2) in simp_all)
  moreover have "readers_rel ?s (q\<lparr>readers := readers q - {i}\<rparr>)"
  proof -
    have "{j. j < length (threads ?s) \<and> threads ?s ! j = Holding Reading} = readers q - {i}"
      unfolding r by (auto simp: th)
    moreover have "(of_nat (card (readers q)) :: 32 word) - 1 = of_nat (card (readers q - {i}))"
      using mem card_readers(1) [OF c] card_gt_0_iff [of "readers q"]
      by (cases "card (readers q)") (auto simp: card_Diff_singleton)
    ultimately show ?thesis using n no by (simp add: readers_rel_def)
  qed
  ultimately show "core ?s (q\<lparr>readers := readers q - {i}\<rparr>)" using coreD(1) [OF c] by (simp add: core_def)
qed

lemma core_leave_writer:
  assumes c: "core s q" and i: "i < length (threads s)" and w: "threads s ! i = Holding Writing"
  shows "\<exists>v. queue q = (i, Writing) # v \<and> writer_in q \<and>
    core (with_lock ((lock s)\<lparr>now_serving := now_serving (lock s) + 1\<rparr>) i Idle s)
         (q\<lparr>queue := v, writer_in := False\<rparr>)"
proof -
  obtain v where v: "queue q = (i, Writing) # v" and wi: "writer_in q"
    using queue_relD(6) [OF coreD(2) [OF c] i w] by blast
  have r: "readers q = {j. j < length (threads s) \<and> threads s ! j = Holding Reading}"
    and n: "readers_active (lock s) = of_nat (card (readers q))" and none: "readers q = {}"
    using coreD(3) [OF c] wi by (auto simp: readers_rel_def)
  let ?s = "with_lock ((lock s)\<lparr>now_serving := now_serving (lock s) + 1\<rparr>) i Idle s"
  have th: "threads ?s ! j = (if j = i then Idle else threads s ! j)" for j
    using i by (simp add: threads_set_phase)
  have "queue_rel ?s (q\<lparr>queue := v, writer_in := False, readers := readers q\<rparr>)"
    by (rule places_shift [OF coreD(2) [OF c] v]) (simp_all add: th)
  moreover have "readers_rel ?s (q\<lparr>queue := v, writer_in := False\<rparr>)"
  proof -
    have "{j. j < length (threads ?s) \<and> threads ?s ! j = Holding Reading} = readers q"
      unfolding r using w by (auto simp: th)
    then show ?thesis using n by (simp add: readers_rel_def)
  qed
  ultimately have "core ?s (q\<lparr>queue := v, writer_in := False\<rparr>)" using coreD(1) [OF c] by (simp add: core_def)
  with v wi show ?thesis by blast
qed

section \<open>The steps of the code are steps of the abstract lock\<close>

text \<open>Who has asked and has not been let in yet; who is let in by a step.\<close>

definition pending :: "fifo_lock \<Rightarrow> (nat \<times> access) list" where
  "pending q = (if writer_in q then tl (queue q) else queue q)"

fun enters :: "phase \<Rightarrow> phase \<Rightarrow> access option" where
  "enters (Holding a) p = None"
| "enters _ (Holding a) = Some a"
| "enters _ _ = None"

definition entered :: "rwlock_sys \<Rightarrow> rwlock_sys \<Rightarrow> (nat \<times> access) list" where
  "entered s s' = concat (map (\<lambda>i. case enters (threads s ! i) (threads s' ! i) of None \<Rightarrow> [] | Some a \<Rightarrow> [(i, a)])
     [0..<length (threads s)])"

lemma enters_None: "enters p p' = None \<longleftrightarrow> (\<forall>a. p' = Holding a \<longrightarrow> (\<exists>b. p = Holding b))"
  by (cases p; cases p') auto

lemma entered_none:
  assumes "\<And>j. j < length (threads s) \<Longrightarrow> enters (threads s ! j) (threads s' ! j) = None"
  shows "entered s s' = []"
  using assms by (simp add: entered_def)

lemma entered_one:
  assumes i: "i < length (threads s)" and e: "enters (threads s ! i) (threads s' ! i) = Some a"
    and o: "\<And>j. j < length (threads s) \<Longrightarrow> j \<noteq> i \<Longrightarrow> enters (threads s ! j) (threads s' ! j) = None"
  shows "entered s s' = [(i, a)]"
proof -
  have split: "[0..<length (threads s)] = [0..<i] @ i # [Suc i..<length (threads s)]"
    using i by (metis le_add1 plus_nat.add_0 upt_add_eq_append upt_conv_Cons less_imp_le_nat le_add_diff_inverse)
  let ?f = "\<lambda>i. case enters (threads s ! i) (threads s' ! i) of None \<Rightarrow> [] | Some a \<Rightarrow> [(i, a)]"
  have "concat (map ?f [0..<i]) = []" "concat (map ?f [Suc i..<length (threads s)]) = []"
    using i o by auto
  then show ?thesis unfolding entered_def split by (simp only: map_append concat_append list.map concat.simps e option.case append.simps)
qed

lemma enters_wake [simp]: "enters p (wake a p') = enters p p'"
  by (cases p; cases p') auto

lemma enters_same [simp]: "enters p p = None"
  by (cases p) auto

lemma entered_broadcast [simp]: "length (threads s') = length (threads s) \<Longrightarrow> entered s (broadcast a s') = entered s s'"
  unfolding entered_def by (intro arg_cong [where f = concat] map_cong) (simp_all add: threads_broadcast)

lemma entered_set_phase:
  assumes "i < length (threads s)"
  shows "entered s (set_phase i p (s\<lparr>lock := l\<rparr>)) = (case enters (threads s ! i) p of None \<Rightarrow> [] | Some a \<Rightarrow> [(i, a)])"
proof (cases "enters (threads s ! i) p")
  case None
  have "entered s (set_phase i p (s\<lparr>lock := l\<rparr>)) = []"
    by (rule entered_none) (use assms None in \<open>simp add: threads_set_phase\<close>)
  then show ?thesis using None by simp
next
  case (Some a)
  have "entered s (set_phase i p (s\<lparr>lock := l\<rparr>)) = [(i, a)]"
    by (rule entered_one [OF assms]) (use assms Some in \<open>simp_all add: threads_set_phase\<close>)
  then show ?thesis using Some by simp
qed

lemma entered_set_phase_same:
  assumes "i < length (threads s)"
  shows "entered s (set_phase i p s) = (case enters (threads s ! i) p of None \<Rightarrow> [] | Some a \<Rightarrow> [(i, a)])"
  using entered_set_phase [OF assms, of p "lock s"] by simp

lemma core_try_enter:
  assumes c: "core s q" and i: "i < length (threads s)" and w: "threads s ! i = Waiting a t z"
  shows "\<exists>q'. fifo_step\<^sup>*\<^sup>* q q' \<and> core (try_enter a i t s) q' \<and> pending q = entered s (try_enter a i t s) @ pending q'"
proof (cases "admitted a t (lock s)")
  case False
  have "core (set_phase i (Waiting a t True) s) q" by (rule core_flag [OF c i w])
  moreover have "try_enter a i t s = set_phase i (Waiting a t True) s" using False by (cases a) simp_all
  moreover have "entered s (set_phase i (Waiting a t True) s) = []"
    using i w by (simp add: entered_set_phase_same)
  ultimately show ?thesis by auto
next
  case adm: True
  show ?thesis
  proof (cases a)
    case Reading
    let ?l = "(lock s)\<lparr>readers_active := readers_active (lock s) + 1, now_serving := now_serving (lock s) + 1\<rparr>"
    have w': "threads s ! i = Waiting Reading (now_serving (lock s)) z" using w adm Reading by simp
    obtain v where v: "queue q = (i, Reading) # v"
      "core (with_lock ?l i (Holding Reading) s) (q\<lparr>queue := v, readers := insert i (readers q)\<rparr>)"
      using core_admit_reader [OF c i w'] by blast
    obtain v' where "queue q = (i, Reading) # v'" and nw: "\<not> writer_in q" by (rule served_first [OF c i w'])
    have "try_enter a i t s = broadcast Reading (with_lock ?l i (Holding Reading) s)"
      using adm Reading by simp
    moreover have "entered s (with_lock ?l i (Holding Reading) s) = [(i, Reading)]"
      using i w by (simp add: entered_set_phase)
    moreover have "fifo_step q (q\<lparr>queue := v, readers := insert i (readers q)\<rparr>)" by (rule admit_reader [OF v(1)])
    ultimately show ?thesis using core_broadcast [OF v(2)] v(1) nw by (auto simp: pending_def)
  next
    case Writing
    have w': "threads s ! i = Waiting Writing (now_serving (lock s)) z" using w adm Writing by simp
    have z: "readers_active (lock s) = 0" using adm Writing by (simp add: word_gt_0)
    obtain v where v: "queue q = (i, Writing) # v" "\<not> writer_in q" "readers q = {}"
      "core (set_phase i (Holding Writing) s) (q\<lparr>writer_in := True\<rparr>)"
      using core_admit_writer [OF c i w' z] by blast
    have "try_enter a i t s = set_phase i (Holding Writing) s" using adm Writing by simp
    moreover have "entered s (set_phase i (Holding Writing) s) = [(i, Writing)]"
      using i w by (simp add: entered_set_phase_same)
    moreover have "fifo_step q (q\<lparr>writer_in := True\<rparr>)" by (rule admit_writer [OF v(1-3)])
    ultimately show ?thesis using v by (auto simp: pending_def)
  qed
qed

fun arrived :: "event \<Rightarrow> (nat \<times> access) list" where
  "arrived (Lock a i) = [(i, a)]"
| "arrived _ = []"

lemma set_phase_twice [simp]: "set_phase i p (set_phase i p' s) = set_phase i p s"
  by (simp add: set_phase_def)

lemma set_phase_lock: "set_phase i p (s\<lparr>lock := l\<rparr>) = (set_phase i p s)\<lparr>lock := l\<rparr>"
  by (simp add: set_phase_def)

lemma try_enter_joined:
  "try_enter a i t (set_phase i p s) = try_enter a i t s"
proof (cases a)
  case Reading
  have "set_phase i r ((set_phase i p s)\<lparr>lock := l\<rparr>) = set_phase i r (s\<lparr>lock := l\<rparr>)" for r l
    by (simp add: set_phase_def)
  then show ?thesis using Reading by simp
next
  case Writing
  then show ?thesis by simp
qed

lemma core_lock:
  assumes c: "core s q" and i: "i < length (threads s)" and idle: "threads s ! i = Idle"
  shows "\<exists>q'. fifo_step\<^sup>*\<^sup>* q q' \<and> core (try_enter a i (next_ticket (lock s)) (take_ticket s)) q' \<and>
    pending q @ [(i, a)] = entered s (try_enter a i (next_ticket (lock s)) (take_ticket s)) @ pending q'"
proof -
  let ?t = "next_ticket (lock s)" and ?q = "q\<lparr>queue := queue q @ [(i, a)]\<rparr>"
  let ?s = "set_phase i (Waiting a ?t True) (take_ticket s)"
  note J = core_join(1) [OF c i idle, of a] core_join(2,3) [OF c i idle]
  have "threads ?s ! i = Waiting a ?t True" "i < length (threads ?s)" using i by (simp_all add: threads_set_phase)
  then obtain q' where q': "fifo_step\<^sup>*\<^sup>* ?q q'" "core (try_enter a i ?t ?s) q'"
    "pending ?q = entered ?s (try_enter a i ?t ?s) @ pending q'"
    using core_try_enter [OF J(1)] by metis
  have "fifo_step q ?q" by (rule join [OF J(2,3)])
  moreover have "enters (threads ?s ! j) p = enters (threads s ! j) p" if "j < length (threads s)" for j p
    using i idle that by (cases p) (auto simp: threads_set_phase)
  then have "entered ?s s' = entered s s'" for s'
    unfolding entered_def by (intro arg_cong [where f = concat] map_cong) simp_all
  moreover have "pending ?q = pending q @ [(i, a)]"
    using coreD(3) [OF c] by (auto simp: pending_def readers_rel_def)
  ultimately show ?thesis using q' by (auto simp: try_enter_joined intro: converse_rtranclp_into_rtranclp)
qed

lemma core_step:
  assumes "step s e s'" and "core s q"
  shows "\<exists>q'. fifo_step\<^sup>*\<^sup>* q q' \<and> core s' q' \<and> pending q @ arrived e = entered s s' @ pending q'"
  using assms
proof (induction rule: step.induct)
  case (read_lock i s)
  then show ?case using core_lock [of s q i Reading] by (simp add: ticket_rwlock_read_lock_def)
next
  case (write_lock i s)
  then show ?case using core_lock [of s q i Writing] by (simp add: ticket_rwlock_write_lock_def)
next
  case (retry i s a t)
  then show ?case using core_try_enter [of s q i a t False] by simp
next
  case (spurious i s a t)
  then have "core (set_phase i (Waiting a t False) s) q" using core_flag by blast
  moreover have "entered s (set_phase i (Waiting a t False) s) = []"
    using spurious by (simp add: entered_set_phase_same)
  ultimately show ?case by auto
next
  case (read_unlock i s)
  let ?l = "(lock s)\<lparr>readers_active := readers_active (lock s) - 1\<rparr>"
  note L = core_leave_reader [OF read_unlock(3,1,2)]
  have "fifo_step q (q\<lparr>readers := readers q - {i}\<rparr>)" by (rule leave_reader [OF L(1)])
  moreover have "core (ticket_rwlock_read_unlock i s) (q\<lparr>readers := readers q - {i}\<rparr>)"
    unfolding ticket_rwlock_read_unlock_def Let_def using L(2) core_broadcast [OF L(2)] by (simp only: split: if_split) blast
  moreover have "entered s (ticket_rwlock_read_unlock i s) = []"
    using read_unlock by (simp add: ticket_rwlock_read_unlock_def Let_def entered_set_phase)
  ultimately show ?case by (auto simp: pending_def)
next
  case (write_unlock i s)
  let ?l = "(lock s)\<lparr>now_serving := now_serving (lock s) + 1\<rparr>"
  obtain v where v: "queue q = (i, Writing) # v" "writer_in q" "core (with_lock ?l i Idle s) (q\<lparr>queue := v, writer_in := False\<rparr>)"
    using core_leave_writer [OF write_unlock(3,1,2)] by blast
  have "fifo_step q (q\<lparr>queue := v, writer_in := False\<rparr>)" by (rule leave_writer [OF v(1,2)])
  moreover have "core (ticket_rwlock_write_unlock i s) (q\<lparr>queue := v, writer_in := False\<rparr>)"
    using core_broadcast [OF core_broadcast [OF v(3)]] by (simp add: ticket_rwlock_write_unlock_def)
  moreover have "entered s (ticket_rwlock_write_unlock i s) = []"
    using write_unlock by (simp add: ticket_rwlock_write_unlock_def entered_set_phase)
  ultimately show ?case using v by (auto simp: pending_def)
qed

section \<open>No wakeup is lost\<close>

lemma no_lost_wakeupD: "no_lost_wakeup s \<Longrightarrow> i < length (threads s) \<Longrightarrow> threads s ! i = Waiting a t True \<Longrightarrow> \<not> admitted a t (lock s)"
  by (simp add: no_lost_wakeup_def)

lemma no_lost_wakeupI:
  "(\<And>i a t. i < length (threads s) \<Longrightarrow> threads s ! i = Waiting a t True \<Longrightarrow> \<not> admitted a t (lock s)) \<Longrightarrow> no_lost_wakeup s"
  by (simp add: no_lost_wakeup_def)

lemma wakeup_set_phase:
  assumes "no_lost_wakeup s" "i < length (threads s)" "\<And>a t. p = Waiting a t True \<Longrightarrow> \<not> admitted a t (lock s)"
  shows "no_lost_wakeup (set_phase i p s)"
  using assms by (auto simp: no_lost_wakeup_def threads_set_phase)

lemma admitted_take_ticket [simp]: "admitted a t (lock (take_ticket s)) = admitted a t (lock s)"
  by (cases a) simp_all

lemma wakeup_take_ticket: "no_lost_wakeup s \<Longrightarrow> no_lost_wakeup (take_ticket s)"
  by (simp add: no_lost_wakeup_def)

lemma wakeup_try_enter:
  assumes n: "no_lost_wakeup s" and i: "i < length (threads s)" and r: "Suc (card R) < 2 ^ 32" "readers_active (lock s) = of_nat (card R)"
  shows "no_lost_wakeup (try_enter a i t s)"
proof (cases "admitted a t (lock s)")
  case False
  then have "no_lost_wakeup (set_phase i (Waiting a t True) s)" by (intro wakeup_set_phase [OF n i]) auto
  then show ?thesis using False by (cases a) simp_all
next
  case True
  show ?thesis
  proof (cases a)
    case Writing
    have "no_lost_wakeup (set_phase i (Holding Writing) s)" by (rule wakeup_set_phase [OF n i]) simp
    then show ?thesis using True Writing by simp
  next
    case Reading
    have "readers_active (lock s) + 1 = of_nat (Suc (card R))" using r(2) by simp
    then have pos: "readers_active (lock s) + 1 \<noteq> 0" using of_nat_zero32 [OF r(1)] by (simp only:)
    let ?s = "with_lock ((lock s)\<lparr>readers_active := readers_active (lock s) + 1, now_serving := now_serving (lock s) + 1\<rparr>)
            i (Holding Reading) s"
    have "no_lost_wakeup (broadcast Reading ?s)"
    proof (rule no_lost_wakeupI)
      fix j b u assume j: "j < length (threads (broadcast Reading ?s))" "threads (broadcast Reading ?s) ! j = Waiting b u True"
      then have "b = Writing" by (cases b) (auto simp: threads_broadcast wake_Waiting)
      then show "\<not> admitted b u (lock (broadcast Reading ?s))" using pos by (simp add: word_gt_0 set_phase_def)
    qed
    then show ?thesis using True Reading by simp
  qed
qed

lemma wakeup_lock:
  assumes c: "core s q" and n: "no_lost_wakeup s" and i: "i < length (threads s)" "threads s ! i = Idle"
  shows "no_lost_wakeup (try_enter a i t (take_ticket s))"
proof (rule wakeup_try_enter [OF wakeup_take_ticket [OF n]])
  have "i \<notin> readers q" by (rule core_join(3) [OF c i])
  then show "Suc (card (readers q)) < 2 ^ 32" using card_readers(3) [OF c i(1)] coreD(1) [OF c] by simp
qed (use i coreD(3) [OF c] in \<open>simp_all add: readers_rel_def\<close>)

lemma wakeup_retry:
  assumes c: "core s q" and n: "no_lost_wakeup s" and i: "i < length (threads s)" "threads s ! i = Waiting a t z"
  shows "no_lost_wakeup (try_enter a i t s)"
proof (rule wakeup_try_enter [OF n i(1)])
  have "i \<notin> readers q" using coreD(3) [OF c] i by (simp add: readers_rel_def)
  then show "Suc (card (readers q)) < 2 ^ 32" using card_readers(3) [OF c i(1)] coreD(1) [OF c] by simp
  show "readers_active (lock s) = of_nat (card (readers q))" using coreD(3) [OF c] by (simp add: readers_rel_def)
qed

lemma wakeup_read_unlock:
  assumes n: "no_lost_wakeup s" and i: "i < length (threads s)"
  shows "no_lost_wakeup (ticket_rwlock_read_unlock i s)"
proof (rule no_lost_wakeupI)
  let ?s = "with_lock ((lock s)\<lparr>readers_active := readers_active (lock s) - 1\<rparr>) i Idle s"
  let ?u = "ticket_rwlock_read_unlock i s"
  have u: "?u = (if readers_active (lock ?s) = 0 then broadcast Writing ?s else ?s)"
    by (simp only: ticket_rwlock_read_unlock_def Let_def)
  have l: "lock ?u = lock ?s" "length (threads ?u) = length (threads s)" by (simp_all add: u)
  fix j a t assume j: "j < length (threads ?u)" "threads ?u ! j = Waiting a t True"
  have "threads ?s ! j = Waiting a t True" "a = Writing \<longrightarrow> readers_active (lock ?s) \<noteq> 0"
    using j by (auto simp: u threads_broadcast wake_Waiting split: if_splits)
  moreover have "threads s ! j = Waiting a t True"
    using calculation(1) i by (simp add: threads_set_phase split: if_splits)
  ultimately show "\<not> admitted a t (lock ?u)"
    using no_lost_wakeupD [OF n, of j a t] j(1) l by (cases a) (simp_all add: word_gt_0)
qed

lemma wakeup_write_unlock: "no_lost_wakeup (ticket_rwlock_write_unlock i s)"
proof (rule no_lost_wakeupI)
  fix j a t
  assume "j < length (threads (ticket_rwlock_write_unlock i s))" "threads (ticket_rwlock_write_unlock i s) ! j = Waiting a t True"
  then have "a \<noteq> Reading" "a \<noteq> Writing" by (auto simp: ticket_rwlock_write_unlock_def threads_broadcast wake_Waiting)
  then show "\<not> admitted a t (lock (ticket_rwlock_write_unlock i s))" by (cases a) simp_all
qed

lemma wakeup_step:
  assumes "step s e s'" and "core s q" and "no_lost_wakeup s"
  shows "no_lost_wakeup s'"
  using assms
  by (induction rule: step.induct)
    (auto simp: ticket_rwlock_read_lock_def ticket_rwlock_write_lock_def simp del: try_enter.simps
      intro: wakeup_lock wakeup_retry wakeup_read_unlock wakeup_write_unlock wakeup_set_phase)

section \<open>Runs\<close>

lemma rwlock_relI: "core s q \<Longrightarrow> no_lost_wakeup s \<Longrightarrow> rwlock_rel s q"
  by (simp only: rwlock_rel_def core_def simp_thms)

lemma rwlock_relD: "rwlock_rel s q \<Longrightarrow> core s q" "rwlock_rel s q \<Longrightarrow> no_lost_wakeup s"
  by (simp_all only: rwlock_rel_def core_def simp_thms)

lemma readers_relD:
  assumes "core s q"
  shows "readers q = {i. i < length (threads s) \<and> threads s ! i = Holding Reading}"
    and "readers_active (lock s) = of_nat (card (readers q))" and "writer_in q \<Longrightarrow> readers q = {}"
  using assms unfolding core_def readers_rel_def by blast+

interpretation rwlock_sim: simulation step fifo_step rwlock_rel
  by unfold_locales (blast intro: rwlock_relI wakeup_step dest: rwlock_relD core_step)

lemma rwlock_rel_start: "n < 2 ^ 32 \<Longrightarrow> rwlock_rel (rwlock_start n) fifo_start"
  by (auto simp: rwlock_rel_def core_def rwlock_start_def ticket_rwlock_init_def fifo_start_def queue_rel_def readers_rel_def
      no_lost_wakeup_def)

text \<open>A run of \<open>n\<close> threads, with the requests in the order of their tickets and the admissions in
  the order in which they happen.\<close>

inductive rwlock_run :: "nat \<Rightarrow> rwlock_sys \<Rightarrow> (nat \<times> access) list \<Rightarrow> (nat \<times> access) list \<Rightarrow> bool" for n where
  run_start: "rwlock_run n (rwlock_start n) [] []"
| run_step: "rwlock_run n s arr ent \<Longrightarrow> step s e s' \<Longrightarrow>
    rwlock_run n s' (arr @ arrived e) (ent @ entered s s')"

lemma rwlock_run_rel:
  assumes "rwlock_run n s arr ent" and "n < 2 ^ 32"
  shows "\<exists>q. core s q \<and> no_lost_wakeup s \<and> arr = ent @ pending q"
  using assms
proof (induction rule: rwlock_run.induct)
  case run_start
  show ?case using rwlock_relD [OF rwlock_rel_start [OF run_start(1)]] by (auto simp: pending_def fifo_start_def)
next
  case (run_step s arr ent e s')
  then obtain q where q: "core s q" "no_lost_wakeup s" "arr = ent @ pending q" by blast
  obtain q' where "core s' q'" "pending q @ arrived e = entered s s' @ pending q'"
    using core_step [OF run_step(2) q(1)] by blast
  moreover have "no_lost_wakeup s'" by (rule wakeup_step [OF run_step(2) q(1,2)])
  ultimately show ?case using q(3) by auto
qed

lemma pending_waiting:
  assumes c: "core s q"
  shows "distinct (map fst (pending q))"
    and "set (pending q) = {(i, a). i < length (threads s) \<and> (\<exists>t z. threads s ! i = Waiting a t z)}"
proof -
  note Q = queue_relD [OF coreD(2) [OF c]]
  have wi: "queue q \<noteq> []" if "writer_in q" using coreD(3) [OF c] that by (simp add: readers_rel_def)
  show "distinct (map fst (pending q))"
    using Q(1) wi by (auto simp: pending_def distinct_tl map_tl)
  have "(i, a) \<in> set (pending q)" if i: "i < length (threads s)" and w: "threads s ! i = Waiting a t z" for i a t z
  proof (rule waiting_place [OF c i w])
    fix k assume k: "k < length (queue q)" "queue q ! k = (i, a)" "\<not> (k = 0 \<and> writer_in q)"
    show ?thesis
    proof (cases "writer_in q")
      case True
      then obtain l where "k = Suc l" using k(3) by (cases k) auto
      then have "l < length (tl (queue q))" "tl (queue q) ! l = (i, a)" using k(1,2) by (simp_all add: nth_tl)
      then show ?thesis using True by (metis pending_def nth_mem)
    qed (use k in \<open>metis pending_def nth_mem\<close>)
  qed
  moreover have "i < length (threads s) \<and> (\<exists>t z. threads s ! i = Waiting a t z)" if m: "(i, a) \<in> set (pending q)" for i a
  proof -
    obtain k where k: "k < length (queue q)" "queue q ! k = (i, a)" "\<not> (k = 0 \<and> writer_in q)"
    proof (cases "writer_in q")
      case True
      then obtain l where l: "l < length (tl (queue q))" "tl (queue q) ! l = (i, a)"
        using m by (auto simp: pending_def in_set_conv_nth)
      then show ?thesis using that [of "Suc l"] by (simp add: nth_tl)
    next
      case False
      then show ?thesis using m that by (auto simp: pending_def in_set_conv_nth)
    qed
    then show ?thesis using Q(3,4) [OF k(1)] by (auto simp: waits_def)
  qed
  ultimately show "set (pending q) = {(i, a). i < length (threads s) \<and> (\<exists>t z. threads s ! i = Waiting a t z)}"
    by (simp add: set_eq_iff) blast
qed

lemma run_fifo:
  assumes "rwlock_run n s arr ent" and "n < 2 ^ 32"
  shows "\<exists>w. arr = ent @ w \<and> distinct (map fst w) \<and>
    set w = {(i, a). i < length (threads s) \<and> (\<exists>t z. threads s ! i = Waiting a t z)}"
proof -
  obtain q where q: "core s q" "arr = ent @ pending q" using rwlock_run_rel [OF assms] by blast
  show ?thesis by (intro exI [of _ "pending q"] conjI q(2) pending_waiting [OF q(1)])
qed

lemma run_exclusion:
  assumes "rwlock_run n s arr ent" and n: "n < 2 ^ 32"
    and i: "i < length (threads s)" "threads s ! i = Holding Writing"
    and j: "j < length (threads s)" "threads s ! j = Holding a"
  shows "j = i"
proof -
  obtain q where c: "core s q" using rwlock_run_rel [OF assms(1) n] by blast
  note Q = queue_relD [OF coreD(2) [OF c]]
  have w: "writer_in q" "\<exists>v. queue q = (i, Writing) # v" using Q(6) [OF i] by simp_all
  show ?thesis
  proof (cases a)
    case Reading
    then have "j \<in> readers q" unfolding readers_relD(1) [OF c] using j by simp
    then show ?thesis using readers_relD(3) [OF c w(1)] by simp
  next
    case Writing
    then have "\<exists>v. queue q = (j, Writing) # v" using Q(6) [OF j(1)] j(2) by simp
    then show ?thesis using w(2) by auto
  qed
qed

lemma run_counts:
  assumes "rwlock_run n s arr ent" and "n < 2 ^ 32"
  shows "unat (readers_active (lock s)) = card {i. i < length (threads s) \<and> threads s ! i = Holding Reading}"
proof -
  obtain q where c: "core s q" using rwlock_run_rel [OF assms] by blast
  have "card (readers q) < 2 ^ 32" using card_readers(2) [OF c] coreD(1) [OF c] by simp
  then have "unat (of_nat (card (readers q)) :: 32 word) = card (readers q)" by (simp add: unat_of_nat take_bit_nat_eq_self)
  then show ?thesis unfolding readers_relD(2) [OF c] readers_relD(1) [OF c] .
qed

lemma run_progress:
  assumes "rwlock_run n s arr ent" and n: "n < 2 ^ 32"
    and i: "i < length (threads s)" "threads s ! i = Waiting a t z"
  shows "\<exists>j<length (threads s). (\<exists>b. threads s ! j = Holding b) \<or>
    (\<exists>b u. threads s ! j = Waiting b u False \<and> threads (try_enter b j u s) ! j = Holding b)"
proof -
  obtain q where c: "core s q" and nl: "no_lost_wakeup s" using rwlock_run_rel [OF assms(1) n] by blast
  note Q = queue_relD [OF coreD(2) [OF c]]
  have ne: "0 < length (queue q)" using Q(5) [OF i] by auto
  let ?j = "fst (queue q ! 0)" and ?b = "snd (queue q ! 0)"
  have j: "?j < length (threads s)" by (rule Q(3) [OF ne])
  show ?thesis
  proof (cases "writer_in q \<or> readers q \<noteq> {}")
    case True
    then show ?thesis
    proof
      assume "writer_in q"
      then show ?thesis using Q(4) [OF ne] j by auto
    next
      assume "readers q \<noteq> {}"
      then show ?thesis unfolding readers_relD(1) [OF c] by auto
    qed
  next
    case False
    then obtain z' where w: "threads s ! ?j = Waiting ?b (now_serving (lock s)) z'"
      using Q(4) [OF ne] by (auto simp: waits_def)
    have "readers_active (lock s) = 0" unfolding readers_relD(2) [OF c] using False by simp
    then have adm: "admitted ?b (now_serving (lock s)) (lock s)" by (cases ?b) simp_all
    then have "z' = False" using no_lost_wakeupD [OF nl j] w by (cases z') auto
    moreover have "threads (try_enter ?b ?j (now_serving (lock s)) s) ! ?j = Holding ?b"
      using adm j by (cases ?b) (simp_all add: threads_broadcast threads_set_phase)
    ultimately show ?thesis using w j by auto
  qed
qed

section \<open>Properties\<close>


text \<open>A writer is in, a reader waits behind it.\<close>

abbreviation demo_writer :: rwlock_sys where
  "demo_writer \<equiv> ticket_rwlock_write_lock 0 (rwlock_start 3)"

definition demo_queue :: rwlock_sys where
  "demo_queue = ticket_rwlock_read_lock 1 demo_writer"

lemma demo_threads:
  "threads demo_writer = [Holding Writing, Idle, Idle]"
  "threads demo_queue = [Holding Writing, Waiting Reading 1 True, Idle]"
  by (simp_all add: demo_queue_def rwlock_start_def ticket_rwlock_read_lock_def ticket_rwlock_write_lock_def take_ticket_def
      ticket_rwlock_init_def set_phase_def broadcast_def eval_nat_numeral)

lemma demo_steps:
  "step (rwlock_start 3) (Lock Writing 0) demo_writer" "step demo_writer (Lock Reading 1) demo_queue"
proof -
  show "step (rwlock_start 3) (Lock Writing 0) demo_writer"
    by (rule step.write_lock) (simp_all add: rwlock_start_def)
  show "step demo_writer (Lock Reading 1) demo_queue"
    unfolding demo_queue_def by (rule step.read_lock) (simp_all add: demo_threads)
qed

lemma demo_run: "rwlock_run 3 demo_queue [(0, Writing), (1, Reading)] [(0, Writing)]"
proof -
  have "entered (rwlock_start 3) demo_writer = [(0, Writing)]" "entered demo_writer demo_queue = []"
    by (simp_all add: entered_def demo_threads, simp_all add: rwlock_start_def upt_rec)
  then show ?thesis
    using run_step [OF run_step [OF run_start demo_steps(1)] demo_steps(2)] by simp
qed


text \<open>The lock lets threads in in the order in which they asked: at every moment the
  admissions so far are the first of the requests so far, and the requests left over are those of
  the threads that wait, each once.\<close>

theorem rwlock_fifo_order:
  assumes "rwlock_run n s arr ent" and "n < 2 ^ 32"
  shows "\<exists>w. arr = ent @ w \<and> distinct (map fst w) \<and>
    set w = {(i, a). i < length (threads s) \<and> (\<exists>t z. threads s ! i = Waiting a t z)}"
  using assms by (rule run_fifo)

theorem rwlock_fifo_order_witness:
  "\<exists>w. [(0, Writing), (1, Reading)] = [(0, Writing)] @ w \<and> distinct (map fst w) \<and>
    set w = {(i, a). i < length (threads demo_queue) \<and> (\<exists>t z. threads demo_queue ! i = Waiting a t z)}"
  by (rule rwlock_fifo_order [OF demo_run]) simp

text \<open>C23. A thread that has the lock for writing has it alone, and the count of readers is the
  number of threads that have it for reading.\<close>

theorem rwlock_mutual_exclusion:
  assumes "rwlock_run n s arr ent" and "n < 2 ^ 32"
  shows "((\<exists>i<length (threads s). threads s ! i = Holding Writing) \<longrightarrow>
      card {j. j < length (threads s) \<and> (\<exists>a. threads s ! j = Holding a)} = 1) \<and>
    unat (readers_active (lock s)) = card {j. j < length (threads s) \<and> threads s ! j = Holding Reading}"
proof (intro conjI impI)
  assume "\<exists>i<length (threads s). threads s ! i = Holding Writing"
  then obtain i where i: "i < length (threads s)" "threads s ! i = Holding Writing" by blast
  then have "{j. j < length (threads s) \<and> (\<exists>a. threads s ! j = Holding a)} = {i}"
    using run_exclusion [OF assms i] by blast
  then show "card {j. j < length (threads s) \<and> (\<exists>a. threads s ! j = Holding a)} = 1" by simp
qed (rule run_counts [OF assms])

theorem rwlock_mutual_exclusion_witness:
  "card {j. j < length (threads demo_queue) \<and> (\<exists>a. threads demo_queue ! j = Holding a)} = 1"
proof -
  have "\<exists>i<length (threads demo_queue). threads demo_queue ! i = Holding Writing"
    by (rule exI [of _ 0]) (simp add: demo_threads)
  then show ?thesis using rwlock_mutual_exclusion [OF demo_run] by simp
qed

text \<open>No wakeup is lost: whenever a thread waits, some thread has the lock (and will wake the
  next one when it unlocks), or the thread whose turn it is is awake and gets in as soon as it runs.\<close>

theorem rwlock_progress:
  assumes "rwlock_run n s arr ent" and "n < 2 ^ 32"
    and "i < length (threads s)" and "threads s ! i = Waiting a t z"
  shows "\<exists>j<length (threads s). (\<exists>b. threads s ! j = Holding b) \<or>
    (\<exists>b u. threads s ! j = Waiting b u False \<and> threads (try_enter b j u s) ! j = Holding b)"
  using assms by (rule run_progress)

theorem rwlock_progress_witness:
  "\<exists>j<length (threads demo_queue). (\<exists>b. threads demo_queue ! j = Holding b) \<or>
    (\<exists>b u. threads demo_queue ! j = Waiting b u False \<and> threads (try_enter b j u demo_queue) ! j = Holding b)"
  by (rule rwlock_progress [OF demo_run, of 1 Reading 1 True]) (simp_all add: demo_threads)

end
