(* ===== verification/Threads.thy ===== *)
theory Threads
  imports Ticket_RWLock
begin

text \<open>
  Programs that run side by side and take locks. A program is a tree of lock operations and of stretches of
  code that run while the locks they need are held (\<open>Atomic\<close>, undefined behaviour is None). A system has a shared state,
  a lock of \<open>Ticket_RWLock\<close> (\<open>fifo_lock\<close>, what the code of the lock refines) for every name of type \<open>'l\<close>, and a program for every
  thread. \<open>ordered\<close> is a discipline on programs: locks are taken in ascending order, given back in the mode in which
  they were taken, and none is left at the end. The locale \<open>disciplined\<close> derives what programs that keep to it have:
  mutual exclusion, no deadlock, and an end to every run.
\<close>

section \<open>Programs and systems\<close>

datatype ('l, 's, 'r) prog =
    Give 'r
  | Acquire access 'l "('l, 's, 'r) prog"
  | Release access 'l "('l, 's, 'r) prog"
  | Atomic "'s \<Rightarrow> ('s \<times> ('l, 's, 'r) prog) option"

record ('l, 's, 'r) system =
  shared :: 's
  lock_of :: "'l \<Rightarrow> fifo_lock"
  progs :: "('l, 's, 'r) prog list"

primrec and_then :: "('l, 's, 'r) prog \<Rightarrow> ('r \<Rightarrow> ('l, 's, 'q) prog) \<Rightarrow> ('l, 's, 'q) prog" where
  "and_then (Give r) k = k r"
| "and_then (Acquire a l p) k = Acquire a l (and_then p k)"
| "and_then (Release a l p) k = Release a l (and_then p k)"
| "and_then (Atomic g) k = Atomic ((map_option (map_prod id (\<lambda>p. and_then p k)) \<circ> g))"

text \<open>A program on its own: its locks are always free.\<close>

primrec alone :: "('l, 's, 'r) prog \<Rightarrow> 's \<Rightarrow> ('r \<times> 's) option" where
  "alone (Give r) s = Some (r, s)"
| "alone (Acquire a l p) s = alone p s"
| "alone (Release a l p) s = alone p s"
| "alone (Atomic g) s = (case (map_option (map_prod id alone) \<circ> g) s of None \<Rightarrow> None | Some (s', m) \<Rightarrow> m s')"

lemma alone_Atomic: "alone (Atomic g) s = (case g s of None \<Rightarrow> None | Some (s', p) \<Rightarrow> alone p s')"
  by (simp split: option.splits)

lemma and_then_Atomic:
  "and_then (Atomic g) k = Atomic (\<lambda>s. case g s of None \<Rightarrow> None | Some (s', p) \<Rightarrow> Some (s', and_then p k))"
  by (auto simp: fun_eq_iff split: option.splits)

declare alone.simps(4) [simp del] and_then.simps(4) [simp del] alone_Atomic [simp] and_then_Atomic [simp]

definition start_system :: "'s \<Rightarrow> ('l, 's, 'r) prog list \<Rightarrow> ('l, 's, 'r) system" where
  "start_system c ps = \<lparr>shared = c, lock_of = (\<lambda>_. fifo_start), progs = ps\<rparr>"

section \<open>Steps of a lock\<close>

definition join_queue :: "access \<Rightarrow> nat \<Rightarrow> fifo_lock \<Rightarrow> fifo_lock" where
  "join_queue a i q = q\<lparr>queue := queue q @ [(i, a)]\<rparr>"

definition admissible :: "access \<Rightarrow> nat \<Rightarrow> fifo_lock \<Rightarrow> bool" where
  "admissible a i q \<longleftrightarrow> (case queue q of [] \<Rightarrow> False | e # w \<Rightarrow> e = (i, a)) \<and>
     (a = Writing \<longrightarrow> \<not> writer_in q \<and> readers q = {})"

lemma admissible_simps [simp]:
  "admissible Reading i q \<longleftrightarrow> (\<exists>w. queue q = (i, Reading) # w)"
  "admissible Writing i q \<longleftrightarrow> (\<exists>w. queue q = (i, Writing) # w) \<and> \<not> writer_in q \<and> readers q = {}"
  by (auto simp: admissible_def split: list.splits)

fun admit :: "access \<Rightarrow> nat \<Rightarrow> fifo_lock \<Rightarrow> fifo_lock" where
  "admit Reading i q = q\<lparr>queue := tl (queue q), readers := insert i (readers q)\<rparr>"
| "admit Writing i q = q\<lparr>writer_in := True\<rparr>"

fun leave :: "access \<Rightarrow> nat \<Rightarrow> fifo_lock \<Rightarrow> fifo_lock" where
  "leave Reading i q = q\<lparr>readers := readers q - {i}\<rparr>"
| "leave Writing i q = q\<lparr>queue := tl (queue q), writer_in := False\<rparr>"

definition asked :: "nat \<Rightarrow> fifo_lock \<Rightarrow> bool" where
  "asked i q \<longleftrightarrow> i \<in> fst ` set (queue q)"

text \<open>They are steps of the abstract lock.\<close>

lemma lock_steps:
  "\<not> asked i q \<Longrightarrow> i \<notin> readers q \<Longrightarrow> fifo_step q (join_queue a i q)"
  "admissible a i q \<Longrightarrow> fifo_step q (admit a i q)"
  "i \<in> readers q \<Longrightarrow> fifo_step q (leave Reading i q)"
  "queue q = (i, Writing) # w \<Longrightarrow> writer_in q \<Longrightarrow> fifo_step q (leave Writing i q)"
  by (cases a; auto simp: asked_def join_queue_def intro: fifo_step.intros)+

section \<open>Steps of a system\<close>

definition set_lock :: "'l \<Rightarrow> fifo_lock \<Rightarrow> ('l, 's, 'r) system \<Rightarrow> ('l, 's, 'r) system" where
  "set_lock l q s = s\<lparr>lock_of := (lock_of s)(l := q)\<rparr>"

definition set_prog :: "nat \<Rightarrow> ('l, 's, 'r) prog \<Rightarrow> ('l, 's, 'r) system \<Rightarrow> ('l, 's, 'r) system" where
  "set_prog i p s = s\<lparr>progs := (progs s)[i := p]\<rparr>"

text \<open>What thread \<open>i\<close> does next; None when it has finished, has to wait, or its behaviour is undefined.\<close>

definition thread_step :: "nat \<Rightarrow> ('l, 's, 'r) system \<Rightarrow> ('l, 's, 'r) system option" where
  "thread_step i s = (case progs s ! i of
      Give r \<Rightarrow> None
    | Acquire a l p \<Rightarrow>
        if \<not> asked i (lock_of s l) then Some (set_lock l (join_queue a i (lock_of s l)) s)
        else if admissible a i (lock_of s l) then Some (set_prog i p (set_lock l (admit a i (lock_of s l)) s))
        else None
    | Release a l p \<Rightarrow> Some (set_prog i p (set_lock l (leave a i (lock_of s l)) s))
    | Atomic g \<Rightarrow> (case g (shared s) of None \<Rightarrow> None | Some (c, p) \<Rightarrow> Some (set_prog i p (s\<lparr>shared := c\<rparr>))))"

fun run_schedule :: "nat list \<Rightarrow> ('l, 's, 'r) system \<Rightarrow> ('l, 's, 'r) system option" where
  "run_schedule [] s = Some s"
| "run_schedule (i # is) s = (case thread_step i s of None \<Rightarrow> None | Some s' \<Rightarrow> run_schedule is s')"

definition reached :: "'s \<Rightarrow> ('l, 's, 'r) prog list \<Rightarrow> ('l, 's, 'r) system \<Rightarrow> bool" where
  "reached c ps s \<longleftrightarrow> (\<exists>sched. set sched \<subseteq> {..<length ps} \<and> run_schedule sched (start_system c ps) = Some s)"

lemma reachedI:
  "run_schedule sched (start_system c ps) = Some t \<Longrightarrow> set sched \<subseteq> {..<length ps} \<Longrightarrow> reached c ps t"
  unfolding reached_def by blast

definition finished :: "nat \<Rightarrow> ('l, 's, 'r) system \<Rightarrow> bool" where
  "finished i s \<longleftrightarrow> (\<exists>r. progs s ! i = Give r)"

definition undefined_at :: "nat \<Rightarrow> ('l, 's, 'r) system \<Rightarrow> bool" where
  "undefined_at i s \<longleftrightarrow> (\<exists>g. progs s ! i = Atomic g \<and> g (shared s) = None)"

definition blocked :: "nat \<Rightarrow> ('l, 's, 'r) system \<Rightarrow> bool" where
  "blocked i s \<longleftrightarrow> (\<exists>a l p. progs s ! i = Acquire a l p \<and> asked i (lock_of s l) \<and> \<not> admissible a i (lock_of s l))"

lemma no_step_cases: "thread_step i s = None \<longleftrightarrow> finished i s \<or> undefined_at i s \<or> blocked i s"
  by (auto simp: thread_step_def finished_def undefined_at_def blocked_def split: prog.splits option.splits)

section \<open>The discipline\<close>

inductive ordered :: "('l :: linorder \<rightharpoonup> access) \<Rightarrow> ('l, 's, 'r) prog \<Rightarrow> bool" where
  ord_give: "ordered Map.empty (Give r)"
| ord_acquire: "\<forall>h \<in> dom H. h < l \<Longrightarrow> ordered (H(l \<mapsto> a)) p \<Longrightarrow> ordered H (Acquire a l p)"
| ord_release: "H l = Some a \<Longrightarrow> ordered (H(l := None)) p \<Longrightarrow> ordered H (Release a l p)"
| ord_atomic: "(\<And>s s' p. g s = Some (s', p) \<Longrightarrow> ordered H p) \<Longrightarrow> ordered H (Atomic g)"

inductive_simps ordered_simps:
  "ordered H (Give r)" "ordered H (Acquire a l p)" "ordered H (Release a l p)" "ordered H (Atomic g)"

text \<open>What a thread holds.\<close>

definition holds :: "nat \<Rightarrow> ('l, 's, 'r) system \<Rightarrow> 'l \<rightharpoonup> access" where
  "holds i s l = (if i \<in> readers (lock_of s l) then Some Reading
     else if writer_in (lock_of s l) \<and> fst (hd (queue (lock_of s l))) = i then Some Writing else None)"

definition waiters :: "fifo_lock \<Rightarrow> (nat \<times> access) list" where
  "waiters q = (if writer_in q then tl (queue q) else queue q)"

definition lock_ok :: "nat \<Rightarrow> fifo_lock \<Rightarrow> bool" where
  "lock_ok n q \<longleftrightarrow> distinct (map fst (queue q)) \<and> fst ` set (queue q) \<subseteq> {..<n} \<and> readers q \<subseteq> {..<n} \<and>
     readers q \<inter> fst ` set (queue q) = {} \<and>
     (writer_in q \<longrightarrow> readers q = {} \<and> queue q \<noteq> [] \<and> snd (hd (queue q)) = Writing)"

definition system_ok :: "('l :: linorder, 's, 'r) system \<Rightarrow> bool" where
  "system_ok s \<longleftrightarrow> (\<forall>i<length (progs s). ordered (holds i s) (progs s ! i)) \<and>
     (\<forall>l. lock_ok (length (progs s)) (lock_of s l) \<and>
       (\<forall>(i, a) \<in> set (waiters (lock_of s l)). \<exists>p. progs s ! i = Acquire a l p))"

lemma system_okD:
  assumes "system_ok s"
  shows "i < length (progs s) \<Longrightarrow> ordered (holds i s) (progs s ! i)" "lock_ok (length (progs s)) (lock_of s l)"
    "(i, a) \<in> set (waiters (lock_of s l)) \<Longrightarrow> \<exists>p. progs s ! i = Acquire a l p"
  using assms unfolding system_ok_def by blast+

lemma start_ok:
  assumes "\<forall>p \<in> set ps. ordered Map.empty p"
  shows "system_ok (start_system c ps)"
proof -
  have "holds i (start_system c ps) = Map.empty" for i by (auto simp: holds_def start_system_def fifo_start_def)
  then show ?thesis
    using assms by (simp add: system_ok_def) (simp add: start_system_def lock_ok_def waiters_def fifo_start_def)
qed

section \<open>Every step keeps the discipline\<close>

lemma set_simps [simp]:
  "progs (set_lock l q s) = progs s" "lock_of (set_lock l q s) = (lock_of s)(l := q)" "shared (set_lock l q s) = shared s"
  "progs (set_prog i p s) = (progs s)[i := p]" "lock_of (set_prog i p s) = lock_of s" "shared (set_prog i p s) = shared s"
  by (simp_all add: set_lock_def set_prog_def)

lemma holds_local: "lock_of s' l = lock_of s l \<Longrightarrow> holds i s' l = holds i s l"
  by (simp add: holds_def)

text \<open>What a thread has of one lock.\<close>

definition mode :: "nat \<Rightarrow> fifo_lock \<Rightarrow> access option" where
  "mode i q = (if i \<in> readers q then Some Reading
     else if writer_in q \<and> fst (hd (queue q)) = i then Some Writing else None)"

lemma holds_mode: "holds i s l = mode i (lock_of s l)"
  by (simp add: holds_def mode_def)

lemma holds_set [simp]:
  "holds i (set_lock l q s) = (holds i s)(l := mode i q)" "holds i (set_prog j p s) = holds i s"
  "holds i (s\<lparr>shared := c\<rparr>) = holds i s"
  by (auto simp: holds_mode fun_eq_iff)

lemma waiters_sub: "e \<in> set (waiters q) \<Longrightarrow> e \<in> set (queue q)"
  by (cases "queue q") (auto simp: waiters_def split: if_splits)

lemma lock_okD:
  assumes "lock_ok n q"
  shows "distinct (map fst (queue q))" "(i, a) \<in> set (queue q) \<Longrightarrow> i < n" "i \<in> readers q \<Longrightarrow> i < n"
    "i \<in> readers q \<Longrightarrow> (i, a) \<notin> set (queue q)"
    "writer_in q \<Longrightarrow> readers q = {} \<and> (\<exists>i w. queue q = (i, Writing) # w)"
proof -
  show "writer_in q \<Longrightarrow> readers q = {} \<and> (\<exists>i w. queue q = (i, Writing) # w)"
    using assms by (cases "queue q") (auto simp: lock_ok_def)
qed (use assms in \<open>force simp: lock_ok_def\<close>)+

lemma join_lock:
  assumes "lock_ok n q" and "\<not> asked i q" and "i < n" and "mode i q = None"
  shows "lock_ok n (join_queue a i q)" "mode j (join_queue a i q) = mode j q"
    "set (waiters (join_queue a i q)) = insert (i, a) (set (waiters q))"
proof -
  have r: "i \<notin> readers q" using assms(4) by (auto simp: mode_def)
  have "\<exists>e w. queue q = e # w \<and> snd e = Writing" if "writer_in q" using lock_okD(5) [OF assms(1) that] by auto
  then show "lock_ok n (join_queue a i q)" "mode j (join_queue a i q) = mode j q"
    "set (waiters (join_queue a i q)) = insert (i, a) (set (waiters q))"
    using assms r by (auto simp: lock_ok_def join_queue_def asked_def mode_def waiters_def)
qed

lemma admit_lock:
  assumes "lock_ok n q" and "admissible a i q" and "mode i q = None"
  shows "lock_ok n (admit a i q)" "mode j (admit a i q) = (if j = i then Some a else mode j q)"
    "set (waiters (admit a i q)) \<subseteq> set (waiters q)" "(j, b) \<in> set (waiters (admit a i q)) \<Longrightarrow> j \<noteq> i"
proof -
  obtain w where w: "queue q = (i, a) # w" using assms(2) by (cases a) auto
  have nw: "\<not> writer_in q" using assms(3) by (auto simp: mode_def w split: if_splits)
  have d: "i \<notin> fst ` set w" using lock_okD(1) [OF assms(1)] w by simp
  show "lock_ok n (admit a i q)" "mode j (admit a i q) = (if j = i then Some a else mode j q)"
    "set (waiters (admit a i q)) \<subseteq> set (waiters q)" "(j, b) \<in> set (waiters (admit a i q)) \<Longrightarrow> j \<noteq> i"
    using assms(1,2) w nw d by (cases a; force simp: lock_ok_def mode_def waiters_def)+
qed

lemma leave_lock:
  assumes "lock_ok n q" and "mode i q = Some a"
  shows "lock_ok n (leave a i q)" "mode j (leave a i q) = (if j = i then None else mode j q)"
    "set (waiters (leave a i q)) = set (waiters q)" "(i, b) \<notin> set (waiters q)"
proof -
  note k = lock_okD [OF assms(1)]
  have all: "lock_ok n (leave a i q) \<and> mode j (leave a i q) = (if j = i then None else mode j q) \<and>
    set (waiters (leave a i q)) = set (waiters q) \<and> (i, b) \<notin> set (waiters q)" for j b
  proof (cases a)
    case Reading
    then have r: "i \<in> readers q" using assms(2) by (auto simp: mode_def split: if_splits)
    then have "\<not> writer_in q" using k(5) by auto
    then show ?thesis using Reading assms r k(4) by (auto simp: lock_ok_def mode_def waiters_def)
  next
    case Writing
    then have "writer_in q" "fst (hd (queue q)) = i" using assms(2) by (auto simp: mode_def split: if_splits)
    with k(5) obtain w where w: "queue q = (i, Writing) # w" "writer_in q" "readers q = {}" by auto
    then have "i \<notin> fst ` set w" using k(1) by simp
    then show ?thesis using Writing assms(1) w by (force simp: lock_ok_def mode_def waiters_def)
  qed
  then show "lock_ok n (leave a i q)" "mode j (leave a i q) = (if j = i then None else mode j q)"
    "set (waiters (leave a i q)) = set (waiters q)" "(i, b) \<notin> set (waiters q)" by blast+
qed


text \<open>A step changes one lock, and of it only what the stepping thread has.\<close>

lemma system_ok_change:
  assumes ok: "system_ok s" and i: "i < length (progs s)"
    and k: "lock_ok (length (progs s)) q" "\<And>j. j \<noteq> i \<Longrightarrow> mode j q = mode j (lock_of s l)"
    and o: "ordered ((holds i s)(l := mode i q)) p"
    and w: "\<And>j b. (j, b) \<in> set (waiters q) \<Longrightarrow> (j, b) \<in> set (waiters (lock_of s l)) \<or> j = i"
    and wi: "\<And>b. (i, b) \<in> set (waiters q) \<Longrightarrow> \<exists>p'. p = Acquire b l p'"
    and wo: "\<And>m b. m \<noteq> l \<Longrightarrow> (i, b) \<notin> set (waiters (lock_of s m))"
  shows "system_ok (set_prog i p (set_lock l q s))"
proof -
  have "(holds j s)(l := mode j q) = holds j s" if "j \<noteq> i" for j using k(2) [OF that] by (auto simp: holds_mode)
  then have "ordered ((holds j s)(l := mode j q)) ((progs s)[i := p] ! j)" if "j < length (progs s)" for j
    using that o system_okD(1) [OF ok that] by (cases "j = i") auto
  moreover have "\<exists>p'. (progs s)[i := p] ! j = Acquire b m p'" if "(j, b) \<in> set (waiters (((lock_of s)(l := q)) m))" for j b m
    using that i w wi wo [of m b] system_okD(3) [OF ok, of j b] by (cases "j = i"; cases "m = l") fastforce+
  ultimately show ?thesis using k(1) system_okD(2) [OF ok] by (auto simp: system_ok_def)
qed

lemma waits_where:
  assumes "system_ok s" and "(i, a) \<in> set (waiters (lock_of s l))" and "progs s ! i = p"
  shows "\<exists>p'. p = Acquire a l p'"
  using system_okD(3) [OF assms(1,2)] assms(3) by simp


lemma set_prog_same: "progs s ! i = p \<Longrightarrow> set_prog i p s = s"
  by (cases s) (auto simp: set_prog_def)

lemma acquire_free:
  assumes "system_ok s" and "i < length (progs s)" and "progs s ! i = Acquire a l p"
  shows "mode i (lock_of s l) = None" "ordered ((holds i s)(l \<mapsto> a)) p" "\<forall>h \<in> dom (holds i s). h < l"
  using system_okD(1) [OF assms(1,2)] assms(3) by (auto simp: ordered_simps simp flip: holds_mode)

theorem thread_step_ok:
  assumes ok: "system_ok s" and i: "i < length (progs s)" and st: "thread_step i s = Some s'"
  shows "system_ok s'"
proof (cases "progs s ! i")
  case (Give r)
  then show ?thesis using st by (simp add: thread_step_def)
next
  case (Acquire a l p)
  note f = acquire_free [OF ok i Acquire] and k = system_okD(2) [OF ok, of l]
  have only: "(i, b) \<notin> set (waiters (lock_of s m))" if "m \<noteq> l" for b m
    using waits_where [OF ok _ Acquire, of b m] that by auto
  show ?thesis
  proof (cases "asked i (lock_of s l)")
    case False
    note j = join_lock [OF k False i f(1), where a = a]
    have e: "(holds i s)(l := None) = holds i s" using f(1) by (auto simp: holds_mode)
    have "system_ok (set_prog i (Acquire a l p) (set_lock l (join_queue a i (lock_of s l)) s))"
      using f only j waits_where [OF ok _ Acquire, of _ l] by (intro system_ok_change [OF ok i]) (auto simp: e ordered_simps)
    moreover have "s' = set_prog i (Acquire a l p) (set_lock l (join_queue a i (lock_of s l)) s)"
      using st Acquire False by (simp add: thread_step_def) (metis set_prog_same set_simps(1))
    ultimately show ?thesis by simp
  next
    case True
    then have m: "admissible a i (lock_of s l)" "s' = set_prog i p (set_lock l (admit a i (lock_of s l)) s)"
      using st Acquire by (auto simp: thread_step_def split: if_splits)
    note j = admit_lock [OF k m(1) f(1)]
    show ?thesis unfolding m(2) using f only j(1-3) by (intro system_ok_change [OF ok i]) (auto dest: j(4))
  qed
next
  case (Release a l p)
  then have o: "holds i s l = Some a" "ordered ((holds i s)(l := None)) p"
    using system_okD(1) [OF ok i] by (auto simp: ordered_simps)
  have only: "(i, b) \<notin> set (waiters (lock_of s m))" for b m using waits_where [OF ok _ Release, of b m] by auto
  note j = leave_lock [OF system_okD(2) [OF ok, of l] o(1) [unfolded holds_mode]]
  have "s' = set_prog i p (set_lock l (leave a i (lock_of s l)) s)" using st Release by (simp add: thread_step_def)
  then show ?thesis using o only j by (simp, intro system_ok_change [OF ok i]) auto
next
  case (Atomic g)
  then obtain c p where g: "g (shared s) = Some (c, p)" and s': "s' = set_prog i p (s\<lparr>shared := c\<rparr>)"
    using st by (auto simp: thread_step_def split: option.splits)
  have "ordered (holds i s) p" using system_okD(1) [OF ok i] Atomic g by (auto simp: ordered_simps)
  moreover have "(i, b) \<notin> set (waiters (lock_of s m))" for b m using waits_where [OF ok _ Atomic, of b m] by auto
  moreover have "\<exists>p'. (progs s)[i := p] ! j = Acquire b m p'" if "(j, b) \<in> set (waiters (lock_of s m))" for j b m
    using that calculation(2) system_okD(3) [OF ok that] by (cases "j = i") auto
  ultimately show ?thesis using i system_okD(1,2) [OF ok] unfolding s' system_ok_def by (auto simp: nth_list_update)
qed


lemma thread_step_length: "thread_step i s = Some s' \<Longrightarrow> length (progs s') = length (progs s)"
  by (auto simp: thread_step_def split: prog.splits if_splits option.splits)

lemma run_schedule_ok:
  "run_schedule sched s = Some s' \<Longrightarrow> system_ok s \<Longrightarrow> set sched \<subseteq> {..<length (progs s)} \<Longrightarrow>
    system_ok s' \<and> length (progs s') = length (progs s)"
proof (induction sched arbitrary: s)
  case (Cons i sched)
  then obtain t where t: "thread_step i s = Some t" "run_schedule sched t = Some s'" by (auto split: option.splits)
  then show ?case using Cons.IH [OF t(2)] Cons.prems thread_step_ok [OF _ _ t(1)] thread_step_length [OF t(1)] by simp
qed simp

lemma reached_ok:
  assumes "reached c ps s" and "\<forall>p \<in> set ps. ordered Map.empty p"
  shows "system_ok s \<and> length (progs s) = length ps"
  using assms run_schedule_ok start_ok [OF assms(2)] unfolding reached_def
  by (force simp: start_system_def)

section \<open>Somebody can go on\<close>

lemma asked_waits:
  assumes "asked j q" and "mode j q = None"
  shows "\<exists>a. (j, a) \<in> set (waiters q)"
  using assms by (cases "queue q") (auto simp: asked_def mode_def waiters_def split: if_splits)

lemma finished_holds_nothing:
  assumes "system_ok s" and "i < length (progs s)" and "finished i s"
  shows "mode i (lock_of s l) = None"
  using system_okD(1) [OF assms(1,2)] assms(3) by (auto simp: finished_def ordered_simps simp flip: holds_mode)

text \<open>Who keeps the first waiter of a lock out has the lock.\<close>

lemma somebody_inside:
  assumes "lock_ok n q" and "(i, a) \<in> set (waiters q)"
    and "\<And>j b. (j, b) \<in> set (waiters q) \<Longrightarrow> \<not> admissible b j q"
  shows "\<exists>j<n. mode j q \<noteq> None"
proof (cases "writer_in q")
  case True
  then obtain j w where "queue q = (j, Writing) # w" using lock_okD(5) [OF assms(1)] by blast
  then show ?thesis using True lock_okD(2) [OF assms(1), of j Writing] by (intro exI [of _ j]) (auto simp: mode_def)
next
  case False
  then obtain j b w where q: "queue q = (j, b) # w" using assms(2) by (cases "queue q") (auto simp: waiters_def)
  then have "\<not> admissible b j q" using assms(3) False by (simp add: waiters_def)
  then obtain k where "k \<in> readers q" using q False by (cases b) auto
  then show ?thesis using lock_okD(3) [OF assms(1)] by (intro exI [of _ k]) (auto simp: mode_def)
qed

text \<open>Take the largest lock that somebody waits for: who has it waits for none, or for a larger one.\<close>

theorem not_all_blocked:
  fixes s :: "('l :: linorder, 's, 'r) system"
  assumes ok: "system_ok s" and i: "i < length (progs s)" "\<not> finished i s"
  shows "\<exists>j<length (progs s). \<not> finished j s \<and> \<not> blocked j s"
proof (rule ccontr)
  let ?n = "length (progs s)"
  define L where "L = {l. \<exists>j<?n. \<exists>a p. progs s ! j = Acquire a l p}"
  assume "\<not> ?thesis"
  then have b: "finished j s \<or> blocked j s" if "j < ?n" for j using that by blast
  define top where "top = Max L"
  have "L \<subseteq> (\<lambda>j. case progs s ! j of Acquire a l p \<Rightarrow> l | _ \<Rightarrow> undefined) ` {..<?n}" by (force simp: L_def)
  then have fin: "finite L" using finite_surj by blast
  have "blocked i s" using b i by blast
  then have "L \<noteq> {}" using i(1) unfolding blocked_def L_def by blast
  then have t: "top \<in> L" and max: "\<And>l. l \<in> L \<Longrightarrow> l \<le> top" using fin Max_in Max_ge unfolding top_def by auto
  obtain j a p where j: "j < ?n" "progs s ! j = Acquire a top p" using t unfolding L_def by blast
  define q where "q = lock_of s (top)"
  have "asked j q" using b [OF j(1)] j(2) by (auto simp: blocked_def finished_def q_def)
  then obtain d where "(j, d) \<in> set (waiters q)" using asked_waits acquire_free(1) [OF ok j] by (auto simp: q_def)
  moreover have "\<not> admissible c k q" if w: "(k, c) \<in> set (waiters q)" for k c
  proof -
    have "k < ?n" using lock_okD(2) [OF system_okD(2) [OF ok]] waiters_sub [OF w] unfolding q_def by blast
    then show ?thesis using b [of k] waits_where [OF ok w [unfolded q_def] refl]
      by (auto simp: blocked_def finished_def q_def)
  qed
  ultimately obtain k where k: "k < ?n" "mode k q \<noteq> None"
    using somebody_inside [OF system_okD(2) [OF ok, of "top"]] unfolding q_def by blast
  then have "\<not> finished k s" using finished_holds_nothing [OF ok k(1)] by (auto simp: q_def)
  then obtain a' l' p' where k': "progs s ! k = Acquire a' l' p'" using b [OF k(1)] by (auto simp: blocked_def)
  then have "top < l'" using acquire_free(3) [OF ok k(1) k'] k(2) by (auto simp: q_def holds_mode dom_def)
  moreover have "l' \<in> L" using k' k(1) unfolding L_def by blast
  ultimately show False using max by fastforce
qed


section \<open>Every run ends\<close>

inductive child :: "('l, 's, 'r) prog \<Rightarrow> ('l, 's, 'r) prog \<Rightarrow> bool" where
  "child p (Acquire a l p)"
| "child p (Release a l p)"
| "g s = Some (s', p) \<Longrightarrow> child p (Atomic g)"

lemma child_wf: "wfP (child :: ('l, 's, 'r) prog \<Rightarrow> ('l, 's, 'r) prog \<Rightarrow> bool)"
proof (rule wfpUNIVI)
  fix P :: "('l, 's, 'r) prog \<Rightarrow> bool" and p
  assume step: "\<forall>x. (\<forall>y. child y x \<longrightarrow> P y) \<longrightarrow> P x"
  show "P p"
  proof (induction p)
    case (Atomic g)
    have "P y" if "child y (Atomic g)" for y
      using that by (cases rule: child.cases) (metis Atomic.IH elem_set option.set_intros prod_set_simps(2) rangeI singletonI)
    then show ?case using step by blast
  qed (use step in \<open>blast elim: child.cases\<close>)+
qed

text \<open>How many threads have not yet asked for the lock they are about to take.\<close>

definition unasked :: "('l, 's, 'r) system \<Rightarrow> nat set" where
  "unasked s = {i. i < length (progs s) \<and> (\<exists>a l p. progs s ! i = Acquire a l p \<and> \<not> asked i (lock_of s l))}"

definition moves :: "('l, 's, 'r) system \<Rightarrow> ('l, 's, 'r) system \<Rightarrow> bool" where
  "moves s s' \<longleftrightarrow> (\<exists>i<length (progs s). thread_step i s = Some s')"

lemma asked_join: "j \<noteq> i \<Longrightarrow> asked j (join_queue a i q) = asked j q" "asked i (join_queue a i q)"
  by (auto simp: asked_def join_queue_def)

lemma step_cases:
  assumes "thread_step i s = Some s'" and "i < length (progs s)"
  shows "(\<exists>p. child p (progs s ! i) \<and> progs s' = (progs s)[i := p]) \<or> progs s' = progs s \<and> unasked s' = unasked s - {i} \<and> i \<in> unasked s"
proof (cases "progs s ! i")
  case (Acquire a l p)
  show ?thesis
  proof (cases "asked i (lock_of s l)")
    case True
    then show ?thesis using assms Acquire by (auto simp: thread_step_def intro: child.intros split: if_splits)
  next
    case False
    then have s': "s' = set_lock l (join_queue a i (lock_of s l)) s" using assms Acquire by (simp add: thread_step_def)
    have "unasked s' = unasked s - {i}"
    proof (rule set_eqI)
      fix j
      have "asked j (((lock_of s)(l := join_queue a i (lock_of s l))) m) = asked j (lock_of s m)" if "j \<noteq> i" for m
        using that by (simp add: asked_join)
      then show "j \<in> unasked s' \<longleftrightarrow> j \<in> unasked s - {i}"
        using Acquire asked_join(2) by (cases "j = i") (auto simp: unasked_def s' simp del: fun_upd_apply, simp)
    qed
    moreover have "i \<in> unasked s" using False Acquire assms(2) by (simp add: unasked_def)
    ultimately show ?thesis by (simp add: s')
  qed
qed (use assms in \<open>auto simp: thread_step_def intro: child.intros split: option.splits\<close>)

theorem runs_end: "wfP (\<lambda>s' s :: ('l, 's, 'r) system. moves s s')"
proof -
  let ?c = "{(p, q :: ('l, 's, 'r) prog). child p q}"
  let ?m = "inv_image (mult1 ?c <*lex*> measure id) (\<lambda>s :: ('l, 's, 'r) system. (mset (progs s), card (unasked s)))"
  have "wf ?c" using child_wf by (simp add: wfp_def)
  then have "wf ?m" by (intro wf_inv_image wf_lex_prod wf_mult1 wf_measure)
  moreover have "(s', s) \<in> ?m" if "moves s s'" for s s' :: "('l, 's, 'r) system"
  proof -
    from that obtain i where i: "i < length (progs s)" "thread_step i s = Some s'" by (auto simp: moves_def)
    consider p where "child p (progs s ! i)" "progs s' = (progs s)[i := p]"
      | "progs s' = progs s" "unasked s' = unasked s - {i}" "i \<in> unasked s"
      using step_cases [OF i(2,1)] by blast
    then show ?thesis
    proof cases
      case 1
      let ?M = "mset (progs s) - {#progs s ! i#}"
      have "mset (progs s) = add_mset (progs s ! i) ?M" "mset (progs s') = ?M + {#p#}"
        using 1(2) i(1) by (simp_all add: mset_update)
      then have "(mset (progs s'), mset (progs s)) \<in> mult1 ?c" using 1(1) unfolding mult1_def by fastforce
      then show ?thesis by simp
    next
      case 2
      have "finite (unasked s)" by (rule finite_subset [of _ "{..<length (progs s)}"]) (auto simp: unasked_def)
      then have "card (unasked s') < card (unasked s)" unfolding 2(2) using 2(3) by (rule card_Diff1_less)
      then show ?thesis by (simp add: 2(1))
    qed
  qed
  ultimately show ?thesis unfolding wfp_def by (auto intro: wf_subset)
qed

lemma no_infinite_run: "\<exists>n :: nat. \<not> moves (run n) (run (Suc n))"
  using runs_end [unfolded wfp_def wf_iff_no_infinite_down_chain] by blast

section \<open>A program on its own\<close>

text \<open>\<open>alone\<close> is what the system of one thread computes.\<close>

lemma lone_thread:
  assumes "alone (hd (progs s)) (shared s) = Some (r, c)" and "system_ok s" and "length (progs s) = 1"
  shows "\<exists>n t. run_schedule (replicate n 0) s = Some t \<and> shared t = c \<and> progs t = [Give r]"
  using assms
proof (induction s rule: wfp_induct_rule [OF runs_end])
  case (1 s)
  obtain p where p: "progs s = [p]" using 1(4) by (cases "progs s") auto
  show ?case
  proof (cases "finished 0 s")
    case True
    then have "run_schedule (replicate 0 0) s = Some s \<and> shared s = c \<and> progs s = [Give r]"
      using 1(2) p by (auto simp: finished_def)
    then show ?thesis by blast
  next
    case False
    have "\<not> blocked 0 s" using not_all_blocked [OF 1(3), of 0] False p by auto
    moreover have "\<not> undefined_at 0 s" using 1(2) p by (auto simp: undefined_at_def split: option.splits)
    ultimately obtain s' where st: "thread_step 0 s = Some s'" using False no_step_cases [of 0 s] by auto
    have "alone (hd (progs s')) (shared s') = Some (r, c)"
      using st 1(2) p by (cases p) (auto simp: thread_step_def split: if_splits option.splits)
    moreover have "system_ok s'" "length (progs s') = 1"
      using thread_step_ok [OF 1(3) _ st] thread_step_length [OF st] p by simp_all
    moreover have "moves s s'" using st p by (auto simp: moves_def)
    ultimately obtain n t where "run_schedule (replicate n 0) s' = Some t" "shared t = c" "progs t = [Give r]"
      using 1(1) by blast
    then have "run_schedule (replicate (Suc n) 0) s = Some t \<and> shared t = c \<and> progs t = [Give r]" using st by simp
    then show ?thesis by blast
  qed
qed


section \<open>What the discipline gives\<close>

lemma mode_exclusive:
  assumes "lock_ok n q" and "mode i q = Some Writing" and "mode j q \<noteq> None"
  shows "i = j"
  using assms lock_okD(5) [OF assms(1)] by (auto simp: mode_def split: if_splits)

lemma ordered_and_then:
  "ordered H p \<Longrightarrow> (\<And>r. ordered Map.empty (k r)) \<Longrightarrow> ordered H (and_then p k)"
  by (induction H p rule: ordered.induct) (auto simp: ordered_simps split: option.splits)

locale disciplined =
  fixes P :: "('l :: linorder, 's, 'r) prog set"
  assumes keeps: "p \<in> P \<Longrightarrow> ordered Map.empty p"
begin

lemma exclusion:
  assumes "reached c ps s" and "set ps \<subseteq> P" and "holds i s l = Some Writing" and "holds j s l \<noteq> None"
  shows "i = j"
  using assms(3,4) mode_exclusive [OF system_okD(2)] reached_ok [OF assms(1)] keeps assms(2)
  unfolding holds_mode by blast

text \<open>When nobody can move, all have finished, or somebody is about to do something undefined.\<close>

lemma stuck:
  assumes "reached c ps s" and "set ps \<subseteq> P" and "\<nexists>s'. moves s s'"
  shows "(\<forall>i<length ps. finished i s) \<or> (\<exists>i<length ps. undefined_at i s)"
proof (cases "\<forall>i<length ps. finished i s")
  case False
  then obtain i where i: "i < length ps" "\<not> finished i s" by blast
  have ok: "system_ok s" "length (progs s) = length ps" using reached_ok [OF assms(1)] keeps assms(2) by auto
  from not_all_blocked [OF ok(1)] obtain j where "j < length ps" "\<not> finished j s" "\<not> blocked j s"
    using i ok(2) by auto
  moreover have "thread_step j s = None" using assms(3) calculation(1) ok(2) unfolding moves_def by (cases "thread_step j s") auto
  ultimately show ?thesis using no_step_cases [of j s] by blast
qed simp

end

end
