(* ===== verification/Ticket_Threads.thy ===== *)
theory Ticket_Threads
  imports Threads
begin

text \<open>
  The programs of \<open>Threads\<close> over the locks of \<^verbatim>\<open>ticket_rwlock.c\<close> themselves, instead of the queues that they implement: a
  thread that takes a lock calls \<^verbatim>\<open>ticket_rwlock_read_lock\<close> or \<^verbatim>\<open>ticket_rwlock_write_lock\<close>, may fall asleep in it, is woken by
  the broadcasts of other threads or for no reason, looks again, and goes on once it has been let in. Every state that such
  a system reaches is one of the abstract system, and when the programs keep to the discipline, some thread
  can always go on.
\<close>

section \<open>The system\<close>

definition call_lock :: "access \<Rightarrow> nat \<Rightarrow> rwlock_sys \<Rightarrow> rwlock_sys" where
  "call_lock a i k = (case a of Reading \<Rightarrow> ticket_rwlock_read_lock i k | Writing \<Rightarrow> ticket_rwlock_write_lock i k)"

definition call_unlock :: "access \<Rightarrow> nat \<Rightarrow> rwlock_sys \<Rightarrow> rwlock_sys" where
  "call_unlock a i k = (case a of Reading \<Rightarrow> ticket_rwlock_read_unlock i k | Writing \<Rightarrow> ticket_rwlock_write_unlock i k)"

record ('l, 's, 'r) ticket_system =
  tshared :: 's
  tlocks :: "'l \<Rightarrow> rwlock_sys"
  tprogs :: "('l, 's, 'r) prog list"

definition ticket_start :: "'s \<Rightarrow> ('l, 's, 'r) prog list \<Rightarrow> ('l, 's, 'r) ticket_system" where
  "ticket_start c ps = \<lparr>tshared = c, tlocks = (\<lambda>_. rwlock_start (length ps)), tprogs = ps\<rparr>"

text \<open>After a part of a locking call that leaves lock \<open>l\<close> in state \<open>k\<close>: thread \<open>i\<close> goes on with \<open>p\<close> if the call has returned.\<close>

definition after_call :: "nat \<Rightarrow> access \<Rightarrow> 'l \<Rightarrow> ('l, 's, 'r) prog \<Rightarrow> rwlock_sys \<Rightarrow> ('l, 's, 'r) ticket_system \<Rightarrow>
    ('l, 's, 'r) ticket_system" where
  "after_call i a l p k s = s\<lparr>tlocks := (tlocks s)(l := k),
     tprogs := (if threads k ! i = Holding a then (tprogs s)[i := p] else tprogs s)\<rparr>"

definition ticket_step :: "nat \<Rightarrow> ('l, 's, 'r) ticket_system \<Rightarrow> ('l, 's, 'r) ticket_system option" where
  "ticket_step i s = (case tprogs s ! i of
      Give r \<Rightarrow> None
    | Acquire a l p \<Rightarrow> (case threads (tlocks s l) ! i of
        Idle \<Rightarrow> Some (after_call i a l p (call_lock a i (tlocks s l)) s)
      | Waiting b t asleep \<Rightarrow> if asleep then None else Some (after_call i a l p (try_enter b i t (tlocks s l)) s)
      | Holding b \<Rightarrow> None)
    | Release a l p \<Rightarrow> Some (s\<lparr>tlocks := (tlocks s)(l := call_unlock a i (tlocks s l)), tprogs := (tprogs s)[i := p]\<rparr>)
    | Atomic g \<Rightarrow> (case g (tshared s) of None \<Rightarrow> None | Some (c, p) \<Rightarrow> Some (s\<lparr>tshared := c, tprogs := (tprogs s)[i := p]\<rparr>)))"

inductive ticket_moves :: "('l, 's, 'r) ticket_system \<Rightarrow> ('l, 's, 'r) ticket_system \<Rightarrow> bool" where
  by_thread: "i < length (tprogs s) \<Longrightarrow> ticket_step i s = Some s' \<Longrightarrow> ticket_moves s s'"
| spurious_wakeup: "i < length (tprogs s) \<Longrightarrow> threads (tlocks s l) ! i = Waiting a t True \<Longrightarrow>
    ticket_moves s (s\<lparr>tlocks := (tlocks s)(l := set_phase i (Waiting a t False) (tlocks s l))\<rparr>)"

text \<open>A step that is more than a look at a lock that is still taken.\<close>

definition advances :: "('l, 's, 'r) ticket_system \<Rightarrow> ('l, 's, 'r) ticket_system \<Rightarrow> bool" where
  "advances s s' \<longleftrightarrow> tprogs s' \<noteq> tprogs s \<or> (\<exists>l. next_ticket (lock (tlocks s' l)) = next_ticket (lock (tlocks s l)) + 1)"

section \<open>One lock\<close>

lemma call_lock_enter: "call_lock a i k = try_enter a i (next_ticket (lock k)) (set_phase i (Waiting a (next_ticket (lock k)) True) (take_ticket k))"
  by (cases a) (simp_all only: call_lock_def access.case ticket_rwlock_read_lock_def ticket_rwlock_write_lock_def try_enter_joined)

lemma mode_phase:
  assumes c: "core k q" and i: "i < length (threads k)"
  shows "mode i q = Some a \<longleftrightarrow> threads k ! i = Holding a"
proof -
  note Q = queue_relD [OF coreD(2) [OF c]] and R = readers_relD [OF c]
  have r: "i \<in> readers q \<longleftrightarrow> threads k ! i = Holding Reading" using R(1) i by auto
  have w: "threads k ! i = Holding Writing" if "writer_in q" "fst (hd (queue q)) = i"
  proof -
    have "queue q \<noteq> []" using coreD(3) [OF c] that(1) by (simp add: readers_rel_def)
    then show ?thesis using Q(4) [of 0] that by (simp add: hd_conv_nth)
  qed
  have "writer_in q \<and> fst (hd (queue q)) = i \<and> i \<notin> readers q" if h: "threads k ! i = Holding Writing"
    using Q(6) [OF i h] r h by auto
  then show ?thesis using r w by (cases a) (auto simp: mode_def)
qed

lemma waiting_pending:
  assumes "core k q" and "i < length (threads k)" and "threads k ! i = Waiting a t z"
  shows "(i, a) \<in> set (waiters q)"
  using pending_waiting(2) [OF assms(1)] assms(2,3) by (auto simp: waiters_def pending_def)

lemma idle_not_asked:
  assumes "core k q" and "i < length (threads k)" and "threads k ! i = Idle"
  shows "\<not> asked i q" "mode i q = None"
proof -
  show "\<not> asked i q" using not_queued [OF assms(1,2)] assms(3) by (simp add: asked_def)
  show "mode i q = None" using mode_phase [OF assms(1,2)] assms(3) by (cases "mode i q") auto
qed

text \<open>A look at the condition lets the thread in, or it sleeps.\<close>

lemma look:
  assumes c: "core k q" and i: "i < length (threads k)" and w: "threads k ! i = Waiting a t z"
  shows "threads (try_enter a i t k) ! i = Holding a \<and> admissible a i q \<and> core (try_enter a i t k) (admit a i q) \<or>
    threads (try_enter a i t k) ! i = Waiting a t True \<and> core (try_enter a i t k) q"
proof (cases "admitted a t (lock k)")
  case False
  then have "try_enter a i t k = set_phase i (Waiting a t True) k" by (cases a) simp_all
  then show ?thesis using core_flag [OF c i w] i by (simp add: threads_set_phase)
next
  case adm: True
  show ?thesis
  proof (cases a)
    case Reading
    then have "threads k ! i = Waiting Reading (now_serving (lock k)) z" using w adm by simp
    then obtain v where "queue q = (i, Reading) # v" "core (with_lock ((lock k)\<lparr>readers_active := readers_active (lock k) + 1,
        now_serving := now_serving (lock k) + 1\<rparr>) i (Holding Reading) k) (q\<lparr>queue := v, readers := insert i (readers q)\<rparr>)"
      using core_admit_reader [OF c i] by blast
    then show ?thesis using adm Reading core_broadcast i by (auto simp: threads_broadcast threads_set_phase)
  next
    case Writing
    then have "threads k ! i = Waiting Writing (now_serving (lock k)) z" "readers_active (lock k) = 0"
      using w adm by (simp_all add: word_gt_0)
    then obtain v where "queue q = (i, Writing) # v" "\<not> writer_in q" "readers q = {}"
        "core (set_phase i (Holding Writing) k) (q\<lparr>writer_in := True\<rparr>)"
      using core_admit_writer [OF c i] by blast
    then show ?thesis using adm Writing i by (auto simp: threads_set_phase)
  qed
qed

lemma arrive:
  assumes c: "core k q" and i: "i < length (threads k)" "threads k ! i = Idle"
  shows "threads (call_lock a i k) ! i = Holding a \<and> admissible a i (join_queue a i q) \<and> core (call_lock a i k) (admit a i (join_queue a i q)) \<or>
    threads (call_lock a i k) ! i \<noteq> Holding a \<and> core (call_lock a i k) (join_queue a i q)"
proof -
  let ?k = "set_phase i (Waiting a (next_ticket (lock k)) True) (take_ticket k)"
  have "core ?k (join_queue a i q)" using core_join(1) [OF c i] by (simp add: join_queue_def)
  moreover have "threads ?k ! i = Waiting a (next_ticket (lock k)) True" "i < length (threads ?k)" using i by (simp_all add: threads_set_phase)
  ultimately show ?thesis using look [of ?k "join_queue a i q" i a] unfolding call_lock_enter by force
qed

lemma give_back:
  assumes c: "core k q" and i: "i < length (threads k)" "threads k ! i = Holding a"
  shows "core (call_unlock a i k) (leave a i q)"
proof (cases a)
  case Reading
  then have h: "threads k ! i = Holding Reading" using i(2) by simp
  note L = core_leave_reader(2) [OF c i(1) h]
  have "core (ticket_rwlock_read_unlock i k) (q\<lparr>readers := readers q - {i}\<rparr>)"
    unfolding ticket_rwlock_read_unlock_def Let_def using L core_broadcast [OF L] by (simp only: split: if_split) blast
  then show ?thesis using Reading by (simp add: call_unlock_def)
next
  case Writing
  then obtain v where v: "queue q = (i, Writing) # v"
      "core (with_lock ((lock k)\<lparr>now_serving := now_serving (lock k) + 1\<rparr>) i Idle k) (q\<lparr>queue := v, writer_in := False\<rparr>)"
    using core_leave_writer [OF c i(1)] i(2) by auto
  show ?thesis using Writing v core_broadcast [OF core_broadcast [OF v(2)]] by (simp add: call_unlock_def ticket_rwlock_write_unlock_def)
qed

text \<open>The three calls are steps of \<open>Ticket_RWLock\<close>, so no wakeup is lost in them.\<close>

lemma calls_are_steps:
  "i < length (threads k) \<Longrightarrow> threads k ! i = Idle \<Longrightarrow> step k (Lock a i) (call_lock a i k)"
  "i < length (threads k) \<Longrightarrow> threads k ! i = Holding a \<Longrightarrow> step k (Unlock i) (call_unlock a i k)"
  by (cases a; simp add: call_lock_def call_unlock_def step.intros)+

lemma call_lengths [simp]:
  "length (threads (try_enter a i t k)) = length (threads k)" "length (threads (call_lock a i k)) = length (threads k)"
  "length (threads (call_unlock a i k)) = length (threads k)"
proof -
  show t: "length (threads (try_enter a i t k)) = length (threads k)" for t k by (cases a) (simp_all add: broadcast_def set_phase_def)
  show "length (threads (call_lock a i k)) = length (threads k)" unfolding call_lock_enter by (simp only: t lock_simps)
  show "length (threads (call_unlock a i k)) = length (threads k)"
    by (cases a) (simp_all add: call_unlock_def ticket_rwlock_read_unlock_def ticket_rwlock_write_unlock_def Let_def broadcast_def set_phase_def)
qed


section \<open>The system\<close>

definition abstracts :: "('l, 's, 'r) ticket_system \<Rightarrow> ('l, 's, 'r) system \<Rightarrow> bool" where
  "abstracts s q \<longleftrightarrow> shared q = tshared s \<and> progs q = tprogs s \<and>
     (\<forall>l. length (threads (tlocks s l)) = length (tprogs s) \<and> rwlock_rel (tlocks s l) (lock_of q l))"

lemma abstractsD:
  assumes "abstracts s q"
  shows "shared q = tshared s" "progs q = tprogs s" "length (threads (tlocks s l)) = length (tprogs s)"
    "core (tlocks s l) (lock_of q l)" "no_lost_wakeup (tlocks s l)"
  using assms rwlock_relD unfolding abstracts_def by blast+

lemma abstracts_start:
  "length ps < 2 ^ 32 \<Longrightarrow> abstracts (ticket_start c ps) (start_system c ps)"
  by (simp add: abstracts_def ticket_start_def start_system_def rwlock_rel_start) (simp add: rwlock_start_def)

text \<open>A step on lock \<open>l\<close> alone.\<close>

lemma abstracts_lock:
  assumes "abstracts s q" and "step (tlocks s l) e k" and "core k r" and "length (threads k) = length (tprogs s)"
    and "length ps = length (tprogs s)"
  shows "abstracts (s\<lparr>tlocks := (tlocks s)(l := k), tprogs := ps\<rparr>) (q\<lparr>lock_of := (lock_of q)(l := r), progs := ps\<rparr>)"
proof -
  have "rwlock_rel k r" using wakeup_step [OF assms(2) abstractsD(4,5) [OF assms(1)]] rwlock_relI [OF assms(3)] by simp
  then show ?thesis using assms by (auto simp: abstracts_def)
qed

lemma sim_step:
  assumes sq: "abstracts s q" and ok: "system_ok q" and i: "i < length (tprogs s)" and st: "ticket_step i s = Some s'"
  shows "\<exists>sched q'. set sched \<subseteq> {i} \<and> run_schedule sched q = Some q' \<and> abstracts s' q'"
proof (cases "tprogs s ! i")
  case (Give r)
  then show ?thesis using st by (simp add: ticket_step_def)
next
  case (Acquire a l p)
  note D = abstractsD [OF sq] and k = abstractsD(4) [OF sq, of l] and len = abstractsD(3) [OF sq, of l]
  have pq: "progs q ! i = Acquire a l p" using Acquire D(2) by simp
  have il: "i < length (threads (tlocks s l))" using i len by simp
  consider (idle) "threads (tlocks s l) ! i = Idle" "s' = after_call i a l p (call_lock a i (tlocks s l)) s"
    | (awake) b t where "threads (tlocks s l) ! i = Waiting b t False" "s' = after_call i a l p (try_enter b i t (tlocks s l)) s"
    using st Acquire by (auto simp: ticket_step_def split: phase.splits if_splits)
  then show ?thesis
  proof cases
    case idle
    let ?k = "call_lock a i (tlocks s l)" and ?j = "join_queue a i (lock_of q l)"
    have na: "\<not> asked i (lock_of q l)" by (rule idle_not_asked(1) [OF k il idle(1)])
    have ss: "step (tlocks s l) (Lock a i) ?k" by (rule calls_are_steps(1) [OF il idle(1)])
    from arrive [OF k il idle(1), of a] show ?thesis
    proof (elim disjE conjE)
      assume h: "threads ?k ! i = Holding a" and ad: "admissible a i ?j" and c: "core ?k (admit a i ?j)"
      have "run_schedule [i, i] q = Some (q\<lparr>lock_of := (lock_of q)(l := admit a i ?j), progs := (progs q)[i := p]\<rparr>)"
        using pq na ad by (simp add: thread_step_def asked_join set_lock_def set_prog_def)
      moreover have "abstracts s' (q\<lparr>lock_of := (lock_of q)(l := admit a i ?j), progs := (progs q)[i := p]\<rparr>)"
        unfolding idle(2) after_call_def using h abstracts_lock [OF sq ss c, of "(tprogs s)[i := p]"] len D(2) by simp
      ultimately show ?thesis by (intro exI [of _ "[i, i]"]) auto
    next
      assume h: "threads ?k ! i \<noteq> Holding a" and c: "core ?k ?j"
      have "run_schedule [i] q = Some (q\<lparr>lock_of := (lock_of q)(l := ?j)\<rparr>)"
        using pq na by (simp add: thread_step_def set_lock_def)
      moreover have "abstracts s' (q\<lparr>lock_of := (lock_of q)(l := ?j)\<rparr>)"
        unfolding idle(2) after_call_def using h abstracts_lock [OF sq ss c, of "tprogs s"] len D(2)
        by (simp add: abstracts_def)
      ultimately show ?thesis by (intro exI [of _ "[i]"]) auto
    qed
  next
    case (awake b t)
    have "(i, b) \<in> set (waiters (lock_of q l))" by (rule waiting_pending [OF k il awake(1)])
    note w = this
    have b: "b = a" using waits_where [OF ok w pq] by simp
    have as: "asked i (lock_of q l)" unfolding asked_def using imageI [OF waiters_sub [OF w], of fst] by simp
    let ?k = "try_enter a i t (tlocks s l)"
    have ss: "step (tlocks s l) (Retry i) ?k" using retry [OF il awake(1)] b by simp
    from look [OF k il awake(1)] show ?thesis
    proof (elim disjE conjE)
      assume h: "threads (try_enter b i t (tlocks s l)) ! i = Holding b" and ad: "admissible b i (lock_of q l)"
        and c: "core (try_enter b i t (tlocks s l)) (admit b i (lock_of q l))"
      have "run_schedule [i] q = Some (q\<lparr>lock_of := (lock_of q)(l := admit a i (lock_of q l)), progs := (progs q)[i := p]\<rparr>)"
        using pq b as ad by (simp add: thread_step_def set_lock_def set_prog_def)
      moreover have "abstracts s' (q\<lparr>lock_of := (lock_of q)(l := admit a i (lock_of q l)), progs := (progs q)[i := p]\<rparr>)"
        unfolding awake(2) after_call_def using h b abstracts_lock [OF sq ss, of "admit a i (lock_of q l)" "(tprogs s)[i := p]"] c len D(2)
        by simp
      ultimately show ?thesis by (intro exI [of _ "[i]"]) auto
    next
      assume h: "threads (try_enter b i t (tlocks s l)) ! i = Waiting b t True" and c: "core (try_enter b i t (tlocks s l)) (lock_of q l)"
      have "abstracts s' q"
        unfolding awake(2) after_call_def using h b abstracts_lock [OF sq ss, of "lock_of q l" "tprogs s"] c len D(2)
        by (simp add: abstracts_def)
      then show ?thesis by (intro exI [of _ "[]"]) auto
    qed
  qed
next
  case (Release a l p)
  note D = abstractsD [OF sq] and k = abstractsD(4) [OF sq, of l] and len = abstractsD(3) [OF sq, of l]
  have il: "i < length (threads (tlocks s l))" using i len by simp
  have pq: "progs q ! i = Release a l p" using Release D(2) by simp
  have "mode i (lock_of q l) = Some a"
    using system_okD(1) [OF ok, of i] i D(2) pq by (simp add: ordered_simps holds_mode)
  then have h: "threads (tlocks s l) ! i = Holding a" using mode_phase [OF k il] by simp
  have "run_schedule [i] q = Some (q\<lparr>lock_of := (lock_of q)(l := leave a i (lock_of q l)), progs := (progs q)[i := p]\<rparr>)"
    using pq by (simp add: thread_step_def set_lock_def set_prog_def)
  moreover have "s' = s\<lparr>tlocks := (tlocks s)(l := call_unlock a i (tlocks s l)), tprogs := (tprogs s)[i := p]\<rparr>"
    using st Release by (simp add: ticket_step_def)
  then have "abstracts s' (q\<lparr>lock_of := (lock_of q)(l := leave a i (lock_of q l)), progs := (progs q)[i := p]\<rparr>)"
    using abstracts_lock [OF sq calls_are_steps(2) [OF il h] give_back [OF k il h], of "(tprogs s)[i := p]"] len D(2) by simp
  ultimately show ?thesis by (intro exI [of _ "[i]"]) auto
next
  case (Atomic g)
  then obtain c p where g: "g (tshared s) = Some (c, p)" "s' = s\<lparr>tshared := c, tprogs := (tprogs s)[i := p]\<rparr>"
    using st by (auto simp: ticket_step_def split: option.splits)
  have "run_schedule [i] q = Some (q\<lparr>shared := c, progs := (progs q)[i := p]\<rparr>)"
    using Atomic g(1) abstractsD(1,2) [OF sq] by (simp add: thread_step_def set_prog_def)
  moreover have "abstracts s' (q\<lparr>shared := c, progs := (progs q)[i := p]\<rparr>)" using sq g(2) by (simp add: abstracts_def)
  ultimately show ?thesis by (intro exI [of _ "[i]"]) auto
qed


lemma sim_move:
  assumes "ticket_moves s s'" and sq: "abstracts s q" and ok: "system_ok q"
  shows "\<exists>sched q'. set sched \<subseteq> {..<length (progs q)} \<and> run_schedule sched q = Some q' \<and> abstracts s' q'"
  using assms(1)
proof cases
  case (by_thread i)
  then show ?thesis using sim_step [OF sq ok by_thread] abstractsD(2) [OF sq] by fastforce
next
  case (spurious_wakeup i l a t)
  have il: "i < length (threads (tlocks s l))" using spurious_wakeup(2) abstractsD(3) [OF sq] by simp
  have "step (tlocks s l) (Spurious i) (set_phase i (Waiting a t False) (tlocks s l))"
    using il spurious_wakeup(3) by (rule spurious)
  from abstracts_lock [OF sq this core_flag [OF abstractsD(4) [OF sq] il spurious_wakeup(3)], of "tprogs s"]
  have "abstracts s' q" using spurious_wakeup(1) abstractsD(2,3) [OF sq] by (simp add: abstracts_def)
  then show ?thesis by (intro exI [of _ "[]"]) auto
qed

lemma run_schedule_append:
  "run_schedule (xs @ ys) s = (case run_schedule xs s of None \<Rightarrow> None | Some s' \<Rightarrow> run_schedule ys s')"
  by (induction xs arbitrary: s) (auto split: option.splits)

lemma reached_more:
  assumes "reached c ps q" and "run_schedule sched q = Some q'" and "set sched \<subseteq> {..<length ps}"
  shows "reached c ps q'"
proof -
  obtain xs where xs: "set xs \<subseteq> {..<length ps}" "run_schedule xs (start_system c ps) = Some q"
    using assms(1) unfolding reached_def by blast
  have "run_schedule (xs @ sched) (start_system c ps) = Some q'" using xs(2) assms(2) by (simp add: run_schedule_append)
  moreover have "set (xs @ sched) \<subseteq> {..<length ps}" using xs(1) assms(3) by simp
  ultimately show ?thesis by (rule reachedI)
qed

theorem ticket_reached:
  assumes "ticket_moves\<^sup>*\<^sup>* (ticket_start c ps) s" and d: "\<forall>p \<in> set ps. ordered Map.empty p" and n: "length ps < 2 ^ 32"
  shows "\<exists>q. reached c ps q \<and> abstracts s q"
  using assms(1)
proof (induction rule: rtranclp_induct)
  case base
  have "reached c ps (start_system c ps)" by (rule reachedI [of "[]"]) simp_all
  then show ?case using abstracts_start [OF n] by blast
next
  case (step s1 s2)
  then obtain q where q: "reached c ps q" "abstracts s1 q" by blast
  have ok: "system_ok q" "length (progs q) = length ps" using reached_ok [OF q(1) d] by simp_all
  from sim_move [OF step(2) q(2) ok(1)] show ?case using reached_more [OF q(1)] ok(2) by metis
qed

section \<open>Somebody can go on\<close>

lemma child_differs: "child p x \<Longrightarrow> p \<noteq> x"
  using child_wf by (metis wfp_on_def wfp_imp_irreflp irreflpD)

lemma try_enter_ticket: "next_ticket (lock (try_enter a i t k)) = next_ticket (lock k)"
  by (cases a) simp_all

lemma admitted_enters:
  "admitted a t (lock k) \<Longrightarrow> i < length (threads k) \<Longrightarrow> threads (try_enter a i t k) ! i = Holding a"
  by (cases a) (simp_all add: threads_broadcast threads_set_phase)

lemma admissible_admitted:
  assumes c: "core k q" and i: "i < length (threads k)" "threads k ! i = Waiting a t z" and ad: "admissible a i q"
  shows "admitted a t (lock k)"
proof -
  obtain w where w: "queue q = (i, a) # w" using ad by (cases a) auto
  obtain n where n: "n < length (queue q)" "queue q ! n = (i, a)" "t = now_serving (lock k) + of_nat n"
    by (rule waiting_place [OF c i])
  have "map fst (queue q) ! n = map fst (queue q) ! 0" using n(1,2) w nth_map [of n "queue q" fst] by simp
  then have "n = 0" using queue_relD(1) [OF coreD(2) [OF c]] n(1) w nth_eq_iff_index_eq [of "map fst (queue q)" n 0] by simp
  then have "t = now_serving (lock k)" using n(3) by simp
  then show ?thesis using ad readers_relD(2) [OF c] by (cases a) simp_all
qed

lemma acquire_goes_on:
  assumes sq: "abstracts s q" and ok: "system_ok q" and j: "j < length (tprogs s)" "tprogs s ! j = Acquire a l p" and nb: "\<not> blocked j q"
  shows "\<exists>s'. ticket_step j s = Some s' \<and> advances s s'"
proof -
  let ?k = "tlocks s l" and ?q = "lock_of q l"
  note k = abstractsD(4) [OF sq, of l]
  have jl: "j < length (threads ?k)" using j abstractsD(3) [OF sq] by simp
  have pq: "progs q ! j = Acquire a l p" using j abstractsD(2) [OF sq] by simp
  have "mode j ?q = None" using acquire_free(1) [OF ok _ pq] j abstractsD(2) [OF sq] by simp
  then have nh: "threads ?k ! j \<noteq> Holding b" for b using mode_phase [OF k jl] by auto
  show ?thesis
  proof (cases "threads ?k ! j")
    case Idle
    then have "ticket_step j s = Some (after_call j a l p (call_lock a j ?k) s)" using j by (simp add: ticket_step_def)
    moreover have "next_ticket (lock (call_lock a j ?k)) = next_ticket (lock ?k) + 1"
      unfolding call_lock_enter try_enter_ticket by simp
    then have "advances s (after_call j a l p (call_lock a j ?k) s)" by (auto simp: advances_def after_call_def)
    ultimately show ?thesis by blast
  next
    case (Waiting b t z)
    note w = waiting_pending [OF k jl Waiting]
    have b: "b = a" using waits_where [OF ok w pq] by simp
    have as: "asked j ?q" unfolding asked_def using imageI [OF waiters_sub [OF w], of fst] by simp
    then have "admissible a j ?q" using nb pq by (auto simp: blocked_def)
    then have adm: "admitted a t (lock ?k)" using admissible_admitted [OF k jl] Waiting b by simp
    then have "\<not> z" using no_lost_wakeupD [OF abstractsD(5) [OF sq] jl] Waiting b by (cases z) auto
    then have "ticket_step j s = Some (after_call j a l p (try_enter a j t ?k) s)" using j Waiting b by (simp add: ticket_step_def)
    moreover have "(tprogs s)[j := p] \<noteq> tprogs s"
      using child_differs [OF child.intros(1), of p a l] j by (metis nth_list_update_eq)
    then have "advances s (after_call j a l p (try_enter a j t ?k) s)"
      using admitted_enters [OF adm jl] by (simp add: advances_def after_call_def)
    ultimately show ?thesis by blast
  qed (use nh in simp)
qed

lemma somebody_goes_on:
  assumes sq: "abstracts s q" and ok: "system_ok q" and i: "i < length (tprogs s)" "\<not> finished i q"
  shows "\<exists>j<length (tprogs s). undefined_at j q \<or> (\<exists>s'. ticket_step j s = Some s' \<and> advances s s')"
proof -
  note D = abstractsD [OF sq]
  obtain j where j: "j < length (tprogs s)" "\<not> finished j q" "\<not> blocked j q"
    using not_all_blocked [OF ok, of i] i D(2) by auto
  have "undefined_at j q \<or> (\<exists>s'. ticket_step j s = Some s' \<and> advances s s')"
  proof (cases "tprogs s ! j")
    case (Give r)
    then show ?thesis using j(2) D(2) by (simp add: finished_def)
  next
    case (Acquire a l p)
    then show ?thesis using acquire_goes_on [OF sq ok j(1) _ j(3)] by blast
  next
    case (Release a l p)
    have "(tprogs s)[j := p] \<noteq> tprogs s"
      using child_differs [OF child.intros(2), of p a l] j(1) Release by (metis nth_list_update_eq)
    then show ?thesis using Release by (simp add: ticket_step_def advances_def)
  next
    case (Atomic g)
    show ?thesis
    proof (cases "g (tshared s)")
      case None
      then show ?thesis using Atomic D(1,2) by (simp add: undefined_at_def)
    next
      case (Some r)
      then obtain c p where g: "g (tshared s) = Some (c, p)" by (cases r) auto
      then have "child p (Atomic g)" by (rule child.intros(3))
      then have "(tprogs s)[j := p] \<noteq> tprogs s"
        using child_differs j(1) Atomic by (metis nth_list_update_eq)
      then show ?thesis using Atomic g by (simp add: ticket_step_def advances_def)
    qed
  qed
  then show ?thesis using j(1) by blast
qed

text \<open>What a thread has of a lock, in the words of the code.\<close>

lemma holds_phase:
  assumes "abstracts s q" and "i < length (tprogs s)"
  shows "holds i q l = Some a \<longleftrightarrow> threads (tlocks s l) ! i = Holding a"
  using mode_phase [OF abstractsD(4) [OF assms(1)]] abstractsD(3) [OF assms(1)] assms(2) by (simp add: holds_mode)

context disciplined
begin

lemma over_tickets:
  assumes "ticket_moves\<^sup>*\<^sup>* (ticket_start c ps) s" and "set ps \<subseteq> P" and "length ps < 2 ^ 32"
  shows "\<exists>q. reached c ps q \<and> abstracts s q \<and> ((\<forall>i<length ps. finished i q) \<or>
    (\<exists>j<length ps. undefined_at j q \<or> (\<exists>s'. ticket_step j s = Some s' \<and> advances s s')))"
proof -
  have d: "\<forall>p \<in> set ps. ordered Map.empty p" using keeps assms(2) by blast
  obtain q where q: "reached c ps q" "abstracts s q" using ticket_reached [OF assms(1) d assms(3)] by blast
  have "system_ok q" "length (tprogs s) = length ps" using reached_ok [OF q(1) d] abstractsD(2) [OF q(2)] by simp_all
  then show ?thesis using q somebody_goes_on [OF q(2)] by metis
qed

end

end
