(* ===== verification/Handler_Threads.thy ===== *)
theory Handler_Threads
  imports Dedup_Read Dedup_Unlink Passthrough_Ops Ticket_Threads "HOL-Library.Product_Lexorder"
begin

text \<open>
  The handlers of \<^verbatim>\<open>codededup/passthrough.c\<close> that share the store, as programs of \<open>Threads\<close>: \<^verbatim>\<open>xmp_getattr\<close>,
  \<^verbatim>\<open>xmp_read\<close>, \<^verbatim>\<open>xmp_write\<close> and \<^verbatim>\<open>xmp_unlink\<close>, which libfuse runs in many threads at once. Every lock
  operation of the code is one of the program, with the gaps in which the code lets go of a lock to take it
  again in the other mode; a stretch between two lock operations is one step, a system call or one turn
  of an I/O loop at a time.

  Here files are objects of their own: the index maps a path to a \<open>filemeta\<close> in \<open>files\<close>, and an access to a freed one is
  undefined (None). The rest of the state is the \<open>Context\<close> of \<open>Store_State\<close>, whose own \<open>fileIndex\<close> stays empty.

  The theorems: every handler takes its locks in one order, so no set of worker threads ever deadlocks, and every
  run ends, and this carries over to the code of the locks (\<open>Ticket_Threads\<close>). \<open>Handler_Alone\<close> shows that a handler that runs undisturbed does what the theories on
  single handlers say, and \<open>Handler_Races\<close> what can go wrong in the gaps.
\<close>

section \<open>The locks\<close>

text \<open>\<open>freeList_lock\<close> and \<open>offset_lock\<close> are mutexes, which are only ever taken for writing. A lock within a block is
  named after the digest, which never changes, and the address.\<close>

datatype lock = File_Index | File_Lock nat | Block_Index | Block_Lock hash addr | Free_List | Offset_Lock

fun lock_rank :: "lock \<Rightarrow> nat \<times> nat \<times> hash \<times> nat" where
  "lock_rank File_Index = (0, 0, [], 0)"
| "lock_rank (File_Lock f) = (1, f, [], 0)"
| "lock_rank Block_Index = (2, 0, [], 0)"
| "lock_rank (Block_Lock h a) = (3, 0, h, a)"
| "lock_rank Free_List = (4, 0, [], 0)"
| "lock_rank Offset_Lock = (5, 0, [], 0)"

lemma lock_rank_inj: "lock_rank l = lock_rank l' \<longleftrightarrow> l = l'"
  by (cases l; cases l') simp_all

instantiation lock :: linorder
begin

definition less_eq_lock :: "lock \<Rightarrow> lock \<Rightarrow> bool" where
  "less_eq_lock l l' \<longleftrightarrow> lock_rank l \<le> lock_rank l'"

definition less_lock :: "lock \<Rightarrow> lock \<Rightarrow> bool" where
  "less_lock l l' \<longleftrightarrow> lock_rank l < lock_rank l'"

instance
proof
  fix x y z :: lock
  show "x \<le> y \<Longrightarrow> y \<le> x \<Longrightarrow> x = y" using lock_rank_inj by (simp add: less_eq_lock_def)
  show "x \<le> y \<Longrightarrow> y \<le> z \<Longrightarrow> x \<le> z" unfolding less_eq_lock_def by (rule order_trans)
qed (auto simp: less_eq_lock_def less_lock_def)

end

section \<open>The shared state\<close>

record 'k shared_store =
  store :: "'k Context"
  findex :: "string \<rightharpoonup> nat"
  files :: "nat \<rightharpoonup> filemeta"
  next_file :: nat

datatype answer = Returns int | Read_Returns int "byte list" | Stat_Returns int "stat option"

type_synonym 'k handler = "(lock, 'k shared_store, answer) prog"

text \<open>A step that uses the file object \<open>f\<close>, and one that changes nothing.\<close>

definition with_file :: "nat \<Rightarrow> (filemeta \<Rightarrow> 'k shared_store \<Rightarrow> ('k shared_store \<times> 'k handler) option) \<Rightarrow> 'k handler" where
  "with_file f g = Atomic (\<lambda>s. case files s f of None \<Rightarrow> None | Some file \<Rightarrow> g file s)"

definition lock_file :: "access \<Rightarrow> nat \<Rightarrow> 'k handler \<Rightarrow> 'k handler" where
  "lock_file a f p = with_file f (\<lambda>file s. Some (s, Acquire a (File_Lock f) p))"

definition lock_block :: "access \<Rightarrow> hash \<times> addr \<Rightarrow> 'k handler \<Rightarrow> 'k handler" where
  "lock_block m b p = Atomic (\<lambda>s. case heap (store s) (snd b) of None \<Rightarrow> None
     | Some block \<Rightarrow> Some (s, Acquire m (Block_Lock (fst b) (snd b)) p))"

fun lock_blocks :: "access \<Rightarrow> (hash \<times> addr) list \<Rightarrow> 'k handler \<Rightarrow> 'k handler" where
  "lock_blocks m [] p = p"
| "lock_blocks m (b # bs) p = lock_block m b (lock_blocks m bs p)"

fun unlock_blocks :: "access \<Rightarrow> (hash \<times> addr) list \<Rightarrow> 'k handler \<Rightarrow> 'k handler" where
  "unlock_blocks m [] p = p"
| "unlock_blocks m (b # bs) p = Release m (Block_Lock (fst b) (snd b)) (unlock_blocks m bs p)"

text \<open>\<^verbatim>\<open>g_list_sort\<close> of the table's values by the blocks' digests, which are the table's keys.\<close>

definition by_digest :: "(hash \<times> addr) list \<Rightarrow> (hash \<times> addr) list" where
  "by_digest tab = sort_key fst tab"

definition set_store :: "'k Context \<Rightarrow> 'k shared_store \<Rightarrow> 'k shared_store" where
  "set_store c s = s\<lparr>store := c\<rparr>"

definition set_file :: "nat \<Rightarrow> filemeta \<Rightarrow> 'k shared_store \<Rightarrow> 'k shared_store" where
  "set_file f file s = s\<lparr>files := (files s)(f \<mapsto> file)\<rparr>"

section \<open>\<^verbatim>\<open>xmp_getattr\<close>\<close>

definition stat_of_file :: "filemeta \<Rightarrow> stat \<Rightarrow> stat" where
  "stat_of_file file stbuf = stbuf\<lparr>st_size := logicalSize file, st_blocks := tdiv (logicalSize file + 511) 512\<rparr>"

definition getattr_prog :: "'k posix \<Rightarrow> string \<Rightarrow> 'k handler" where
  "getattr_prog P path =
     (if reserved_path path then Give (Stat_Returns (- ENOENT) None)
      else Atomic (\<lambda>s. let (res, k) = p_lstat P path (kern (store s)); s1 = set_store ((store s)\<lparr>kern := k\<rparr>) s in
        case res of
          SysErr e \<Rightarrow> Some (s1, Give (Stat_Returns (- e) None))
        | SysOk stbuf \<Rightarrow> Some (s1, Acquire Reading File_Index (Atomic (\<lambda>s. case findex s path of
              None \<Rightarrow> Some (s, Release Reading File_Index (Give (Stat_Returns 0 (Some stbuf))))
            | Some f \<Rightarrow> Some (s, lock_file Reading f (with_file f (\<lambda>file s.
                Some (s, Release Reading (File_Lock f) (Release Reading File_Index
                  (Give (Stat_Returns 0 (Some (stat_of_file file stbuf))))))))))))))"

section \<open>\<^verbatim>\<open>xmp_read\<close>\<close>

text \<open>The table of distinct blocks, with the addresses of the blocks.\<close>

fun unique_blocks :: "'k Context \<Rightarrow> filemeta \<Rightarrow> int list \<Rightarrow> (hash \<times> addr) list \<Rightarrow> (hash \<times> addr) list option" where
  "unique_blocks c file [] tab = Some tab"
| "unique_blocks c file (i # is) tab =
     (case ptr_array_index (blockList file) i of None \<Rightarrow> None
      | Some a \<Rightarrow> (case heap c a of None \<Rightarrow> None
         | Some block \<Rightarrow> unique_blocks c file is (AList.update (block_id block) a tab)))"

fun copy_blocks :: "'k os \<Rightarrow> nat \<Rightarrow> int \<Rightarrow> int \<Rightarrow> int list \<Rightarrow> int \<Rightarrow> byte list \<Rightarrow>
    (int \<Rightarrow> int \<Rightarrow> byte list \<Rightarrow> 'k handler) \<Rightarrow> 'k handler" where
  "copy_blocks E f offset sz [] tot out k = k 0 tot out"
| "copy_blocks E f offset sz (i # is) tot out k = with_file f (\<lambda>file s.
     case read_blocks E file offset sz [i] tot out (store s) of None \<Rightarrow> None
     | Some (err, tot', out', c) \<Rightarrow> Some (set_store c s,
         if err \<noteq> 0 then k err tot' out' else copy_blocks E f offset sz is tot' out' k))"

definition read_range :: "'k os \<Rightarrow> nat \<Rightarrow> int \<Rightarrow> int \<Rightarrow> int list \<Rightarrow> 'k handler" where
  "read_range E f offset sz is = with_file f (\<lambda>file s.
     case unique_blocks (store s) file is [] of None \<Rightarrow> None
     | Some uniqueBlocks \<Rightarrow> Some (s, lock_blocks Reading (by_digest uniqueBlocks)
         (Release Reading Block_Index
           (copy_blocks E f offset sz is 0 [] (\<lambda>err tot out.
             unlock_blocks Reading uniqueBlocks (Release Reading (File_Lock f)
               (Give (Read_Returns (if err \<noteq> 0 then err else s32 tot) out))))))))"

definition read_prog :: "'k os \<Rightarrow> string \<Rightarrow> int \<Rightarrow> int \<Rightarrow> 'k handler" where
  "read_prog E path sz offset =
     (if sz mod 4096 \<noteq> 0 then Give (Read_Returns (- EINVAL) [])
      else Acquire Reading File_Index (Atomic (\<lambda>s. case findex s path of
        None \<Rightarrow> Some (s, Release Reading File_Index (Give (Read_Returns (- ENOENT) [])))
      | Some f \<Rightarrow> Some (s, lock_file Reading f (Release Reading File_Index (with_file f (\<lambda>file s.
          if offset \<ge> logicalSize file then Some (s, Release Reading (File_Lock f) (Give (Read_Returns 0 [])))
          else
            let sz = (if u64 (offset + sz) > u64 (logicalSize file) then u64 (logicalSize file - offset) else sz);
                start_index = s32 (tdiv offset 4096);
                end_index = s32 (u64 (offset + sz - 1) div 4096)
            in Some (s, Acquire Reading Block_Index (read_range E f offset sz [start_index..end_index])))))))))"

section \<open>\<^verbatim>\<open>xmp_write\<close>\<close>

text \<open>The lookup under the write lock, and the insertion of a new file.\<close>

definition find_or_create :: "string \<Rightarrow> 'k shared_store \<Rightarrow> nat \<times> 'k shared_store" where
  "find_or_create path s =
     (case findex s path of
        Some f \<Rightarrow> (f, s)
      | None \<Rightarrow> (next_file s, s\<lparr>findex := (findex s)(path \<mapsto> next_file s), next_file := Suc (next_file s),
                              files := (files s)(next_file s \<mapsto> new_file path)\<rparr>))"

text \<open>The lookup loop: a block that is not in the index is looked up again, and created, under the write lock.\<close>

fun acquire_prog :: "hash list \<Rightarrow> write_locals \<Rightarrow> (write_locals \<Rightarrow> 'k handler) \<Rightarrow> 'k handler" where
  "acquire_prog [] l k = k l"
| "acquire_prog (h # hs) l k = Atomic (\<lambda>s.
     if blockIndex (store s) h = None then
       Some (s, Release Reading Block_Index (Acquire Writing Block_Index (Atomic (\<lambda>s.
         case acquire_block h (store s) l of None \<Rightarrow> None
         | Some (c, l') \<Rightarrow> Some (set_store c s, Release Writing Block_Index (Acquire Reading Block_Index
             (acquire_prog hs l' k)))))))
     else
       (case acquire_block h (store s) l of None \<Rightarrow> None
        | Some (c, l') \<Rightarrow> Some (set_store c s, acquire_prog hs l' k)))"

fun store_blocks :: "'k os \<Rightarrow> nat \<Rightarrow> addr list \<Rightarrow> byte list \<Rightarrow> addr list \<Rightarrow> (int \<Rightarrow> 'k handler) \<Rightarrow> 'k handler" where
  "store_blocks E f [] buf_ptr created k = k 0"
| "store_blocks E f (a # as) buf_ptr created k = with_file f (\<lambda>file s.
     case write_blocks E [a] buf_ptr created file (store s) of None \<Rightarrow> None
     | Some (err, file', c) \<Rightarrow> Some (set_file f file' (set_store c s),
         if err \<noteq> 0 then k err else store_blocks E f as (drop 4096 buf_ptr) (removeAll a created) k))"

definition write_cleanup :: "nat \<Rightarrow> (hash \<times> addr) list \<Rightarrow> int \<Rightarrow> int \<Rightarrow> int \<Rightarrow> 'k handler" where
  "write_cleanup f order offset sz err = with_file f (\<lambda>file s.
     Some (if err = 0 \<and> u64 (offset + sz) > u64 (logicalSize file)
           then set_file f (file\<lparr>logicalSize := s64 (offset + sz)\<rparr>) s else s,
       unlock_blocks Writing order (Release Writing (File_Lock f)
         (Give (Returns (if err \<noteq> 0 then err else s32 sz))))))"

definition write_io :: "'k os \<Rightarrow> nat \<Rightarrow> (hash \<times> addr) list \<Rightarrow> write_locals \<Rightarrow> byte list \<Rightarrow> int \<Rightarrow> 'k handler" where
  "write_io E f order l buf offset = Atomic (\<lambda>s.
     let (aligned, k) = memalign E (kern (store s)); s1 = set_store ((store s)\<lparr>kern := k\<rparr>) s;
         cleanup = write_cleanup f order offset (int (length buf))
     in Some (s1, if \<not> aligned then cleanup (- ENOMEM)
                  else store_blocks E f (newBlocksInfo l) buf (my_created_blocks l) cleanup))"

definition write_layout :: "'k os \<Rightarrow> nat \<Rightarrow> byte list \<Rightarrow> int \<Rightarrow> write_locals \<Rightarrow> 'k handler" where
  "write_layout E f buf offset l =
     (let order = by_digest (lockedBlocks l) in
      lock_blocks Writing order (Acquire Writing Free_List (Acquire Writing Offset_Lock (Atomic (\<lambda>s.
        case assign_offsets (my_created_blocks l) (map snd order) (store s) of None \<Rightarrow> None
        | Some c \<Rightarrow> Some (set_store c s, Release Writing Offset_Lock (Release Writing Free_List
            (Release Reading Block_Index (Release Reading File_Index (write_io E f order l buf offset))))))))))"

definition write_file :: "'k os \<Rightarrow> nat \<Rightarrow> hash list \<Rightarrow> byte list \<Rightarrow> int \<Rightarrow> 'k handler" where
  "write_file E f blockHashes buf offset = lock_file Writing f (with_file f (\<lambda>file s.
     if offset \<noteq> logicalSize file then
       Some (s, Release Writing (File_Lock f) (Release Reading File_Index (Give (Returns (- ENOTSUP)))))
     else Some (s, Acquire Reading Block_Index
       (acquire_prog blockHashes no_locals (write_layout E f buf offset)))))"

definition write_prog :: "'k os \<Rightarrow> string \<Rightarrow> byte list \<Rightarrow> int \<Rightarrow> 'k handler" where
  "write_prog E path buf offset =
     (let size = int (length buf) in
      if size mod 4096 \<noteq> 0 then Give (Returns (- EINVAL))
      else
        let num_blocks = s32 (size div 4096);
            blockHashes = map (\<lambda>i. sha512 E (block_at buf i)) [0..<nat num_blocks]
        in Acquire Reading File_Index (Atomic (\<lambda>s. case findex s path of
             Some f \<Rightarrow> Some (s, write_file E f blockHashes buf offset)
           | None \<Rightarrow> Some (s, Release Reading File_Index (Acquire Writing File_Index (Atomic (\<lambda>s.
               let (f, s1) = find_or_create path s in
               Some (s1, Release Writing File_Index (Acquire Reading File_Index
                 (write_file E f blockHashes buf offset))))))))))"

section \<open>\<^verbatim>\<open>xmp_unlink\<close>\<close>

text \<open>The loop over the table of occurrences. The last step of a block that is gone is \<^verbatim>\<open>freeBlockMeta\<close>.\<close>

definition drop_block :: "addr \<Rightarrow> 'k handler \<Rightarrow> 'k handler" where
  "drop_block a p = Atomic (\<lambda>s. Some (set_store ((store s)\<lparr>heap := (heap (store s))(a := None)\<rparr>) s, p))"

definition release_prog :: "addr \<Rightarrow> int \<Rightarrow> 'k handler \<Rightarrow> 'k handler" where
  "release_prog a occ p = Atomic (\<lambda>s. case heap (store s) a of None \<Rightarrow> None
     | Some b0 \<Rightarrow> (let lk = Block_Lock (block_id b0) a in Some (s, Acquire Writing lk (Atomic (\<lambda>s.
       case heap (store s) a of None \<Rightarrow> None
       | Some b \<Rightarrow>
         let block = b\<lparr>counter := s32 (counter b - occ)\<rparr>;
             c = (store s)\<lparr>heap := (heap (store s))(a \<mapsto> block)\<rparr> in
         if counter block = 0 then
           Some (set_store (c\<lparr>blockIndex := (blockIndex c)(block_id block := None)\<rparr>) s,
             Acquire Writing Free_List (Atomic (\<lambda>s. case heap (store s) a of None \<Rightarrow> None
               | Some b \<Rightarrow> Some (set_store ((store s)\<lparr>freeList := freeList (store s) @ [block_offset b]\<rparr>) s,
                 Release Writing Free_List (Release Writing lk (drop_block a p))))))
         else Some (set_store c s, Release Writing lk p))))))"

fun release_progs :: "(addr \<times> int) list \<Rightarrow> addr list \<Rightarrow> 'k handler \<Rightarrow> 'k handler" where
  "release_progs tab [] p = p"
| "release_progs tab (a # as) p =
     (case map_of tab a of None \<Rightarrow> Atomic (\<lambda>s. None) | Some occ \<Rightarrow> release_prog a occ (release_progs tab as p))"

text \<open>\<^verbatim>\<open>g_hash_table_insert\<close> puts the file back, and destroys a file that has come in its place.\<close>

definition insert_file :: "string \<Rightarrow> nat \<Rightarrow> 'k shared_store \<Rightarrow> 'k shared_store" where
  "insert_file path f s =
     (case findex s path of
        None \<Rightarrow> s\<lparr>findex := (findex s)(path \<mapsto> f)\<rparr>
      | Some g \<Rightarrow> s\<lparr>findex := (findex s)(path \<mapsto> f), files := (files s)(g := None)\<rparr>)"

definition free_file :: "nat \<Rightarrow> 'k shared_store \<Rightarrow> 'k shared_store" where
  "free_file f s = s\<lparr>files := (files s)(f := None)\<rparr>"

definition unlink_failed :: "string \<Rightarrow> nat \<Rightarrow> int \<Rightarrow> 'k handler" where
  "unlink_failed path f err = Release Writing (File_Lock f) (Acquire Writing File_Index (Atomic (\<lambda>s.
     Some (insert_file path f s, Release Writing File_Index (Give (Returns err))))))"

definition unlink_blocks :: "'k os \<Rightarrow> nat \<Rightarrow> 'k handler" where
  "unlink_blocks E f = with_file f (\<lambda>file s.
     let blockCounts = count_blocks (blockList file) [] in
     Some (s, release_progs blockCounts (iter_order E (map fst blockCounts))
       (Release Writing Block_Index (Release Writing (File_Lock f)
         (Atomic (\<lambda>s. Some (free_file f s, Give (Returns 0))))))))"

definition unlink_prog :: "'k os \<Rightarrow> string \<Rightarrow> 'k handler" where
  "unlink_prog E path =
     (if path = ''/backend/.metadata'' \<or> path = ''/backend/.sysdata'' then Give (Returns (- EPERM))
      else Acquire Writing File_Index (Atomic (\<lambda>s. case findex s path of
        None \<Rightarrow> Some (s, Release Writing File_Index (Give (Returns (- ENOENT))))
      | Some f \<Rightarrow> Some (s\<lparr>findex := (findex s)(path := None)\<rparr>, Release Writing File_Index (lock_file Writing f (Atomic (\<lambda>s.
          let (res, k) = sys_unlink E path (kern (store s)); s1 = set_store ((store s)\<lparr>kern := k\<rparr>) s;
              failed = (case res of SysErr e \<Rightarrow> e \<noteq> ENOENT | SysOk _ \<Rightarrow> False)
          in Some (s1, if failed then unlink_failed path f (- sys_errno res)
                       else Acquire Writing Block_Index (unlink_blocks E f)))))))))"

section \<open>Worker threads\<close>

datatype store_request = Ask_Getattr string | Ask_Read string int int | Ask_Write string "byte list" int | Ask_Unlink string

fun handler :: "'k os \<Rightarrow> 'k posix \<Rightarrow> store_request \<Rightarrow> 'k handler" where
  "handler E P (Ask_Getattr path) = getattr_prog P path"
| "handler E P (Ask_Read path sz offset) = read_prog E path sz offset"
| "handler E P (Ask_Write path buf offset) = write_prog E path buf offset"
| "handler E P (Ask_Unlink path) = unlink_prog E path"

text \<open>A worker thread of libfuse serves one request after the other.\<close>

fun worker :: "'k os \<Rightarrow> 'k posix \<Rightarrow> store_request list \<Rightarrow> (lock, 'k shared_store, answer list) prog" where
  "worker E P [] = Give []"
| "worker E P (q # qs) = and_then (handler E P q) (\<lambda>r. and_then (worker E P qs) (\<lambda>rs. Give (r # rs)))"


section \<open>The order of the locks\<close>

lemma lock_less [simp]:
  "File_Index < File_Lock f" "File_Index < Block_Index" "File_Lock f < Block_Index" "Block_Index < Block_Lock h a"
  "File_Index < Block_Lock h a" "File_Lock f < Block_Lock h a" "Block_Lock h a < Free_List"
  "File_Index < Free_List" "File_Lock f < Free_List" "Block_Index < Free_List" "File_Index < Offset_Lock"
  "File_Lock f < Offset_Lock" "Block_Index < Offset_Lock" "Block_Lock h a < Offset_Lock" "Free_List < Offset_Lock"
  "h < h' \<Longrightarrow> Block_Lock h a < Block_Lock h' a'"
  by (simp_all add: less_lock_def)

text \<open>What a thread holds when it has also taken the locks of some blocks.\<close>

definition held :: "access \<Rightarrow> (hash \<times> addr) list \<Rightarrow> (lock \<rightharpoonup> access) \<Rightarrow> lock \<rightharpoonup> access" where
  "held m bs H = (\<lambda>l. if \<exists>b \<in> set bs. l = Block_Lock (fst b) (snd b) then Some m else H l)"

lemma held_Nil [simp]: "held m [] H = H"
  by (simp add: held_def)

lemma held_upd [simp]:
  "(held m bs H)(File_Index := x) = held m bs (H(File_Index := x))"
  "(held m bs H)(File_Lock f := x) = held m bs (H(File_Lock f := x))"
  "(held m bs H)(Block_Index := x) = held m bs (H(Block_Index := x))"
  "(held m bs H)(Free_List := x) = held m bs (H(Free_List := x))"
  "(held m bs H)(Offset_Lock := x) = held m bs (H(Offset_Lock := x))"
  by (auto simp: held_def fun_eq_iff)

lemma held_other [simp]:
  "held m bs H File_Index = H File_Index" "held m bs H (File_Lock f) = H (File_Lock f)"
  "held m bs H Block_Index = H Block_Index" "held m bs H Free_List = H Free_List" "held m bs H Offset_Lock = H Offset_Lock"
  by (auto simp: held_def)

lemma dom_held: "dom (held m bs H) = dom H \<union> (\<lambda>b. Block_Lock (fst b) (snd b)) ` set bs"
  by (force simp: held_def split: if_splits)

lemma free_above: "\<forall>h \<in> dom H. h < (l :: 'l :: order) \<Longrightarrow> H l = None"
  by (auto simp: dom_def)

lemma ordered_with_file:
  "(\<And>file s s' p. g file s = Some (s', p) \<Longrightarrow> ordered H p) \<Longrightarrow> ordered H (with_file f g)"
  by (auto simp: with_file_def ordered_simps split: option.splits)

lemma ordered_lock_file:
  "\<forall>h \<in> dom H. h < File_Lock f \<Longrightarrow> ordered (H(File_Lock f \<mapsto> a)) p \<Longrightarrow> ordered H (lock_file a f p)"
  by (auto simp: lock_file_def ordered_simps intro!: ordered_with_file)

lemma ordered_lock_blocks:
  assumes "sorted_wrt (\<lambda>x y. fst x < fst y) bs" and "\<forall>h \<in> dom H. \<forall>b \<in> set bs. h < Block_Lock (fst b) (snd b)"
    and "ordered (held m bs H) p"
  shows "ordered H (lock_blocks m bs p)"
  using assms
proof (induction bs arbitrary: H)
  case (Cons b bs)
  have "held m bs (H(Block_Lock (fst b) (snd b) \<mapsto> m)) = held m (b # bs) H" by (auto simp: held_def fun_eq_iff)
  moreover have "h < Block_Lock (fst c) (snd c)"
    if "h \<in> dom (H(Block_Lock (fst b) (snd b) \<mapsto> m))" "c \<in> set bs" for h c
    using that Cons.prems(1,2) by (cases "h = Block_Lock (fst b) (snd b)") auto
  ultimately have "ordered (H(Block_Lock (fst b) (snd b) \<mapsto> m)) (lock_blocks m bs p)"
    using Cons.prems(1,3) by (intro Cons.IH) (simp_all del: fun_upd_apply)
  then show ?case using Cons.prems(2) by (auto simp: lock_block_def ordered_simps split: option.splits)
qed simp

lemma ordered_unlock_blocks:
  assumes "distinct bs" and "\<forall>h a. H (Block_Lock h a) = None" and "ordered H p"
  shows "ordered (held m bs H) (unlock_blocks m bs p)"
  using assms(1)
proof (induction bs)
  case (Cons b bs)
  have "(held m (b # bs) H)(Block_Lock (fst b) (snd b) := None) = held m bs H"
    using Cons.prems assms(2) by (force simp: held_def fun_eq_iff prod_eq_iff)
  then show ?case using Cons by (simp add: ordered_simps held_def)
qed (simp add: assms)

lemma by_digest_sorted:
  assumes "distinct (map fst tab)"
  shows "sorted_wrt (\<lambda>x y. fst x < fst y) (by_digest tab)" "distinct (by_digest tab)" "set (by_digest tab) = set tab"
proof -
  have "distinct (map fst (by_digest tab))" using assms by (simp add: by_digest_def distinct_map)
  then show "sorted_wrt (\<lambda>x y. fst x < fst y) (by_digest tab)" "distinct (by_digest tab)"
    using sorted_sort_key [of fst tab] by (simp_all add: by_digest_def distinct_map strict_sorted_iff flip: sorted_wrt_map)
qed (simp add: by_digest_def)


lemma acquire_block_table:
  assumes "acquire_block h c l = Some (c', l')" and "distinct (map fst (lockedBlocks l))"
  shows "distinct (map fst (lockedBlocks l'))"
  using assms by (auto simp: acquire_block_def note_block_def Let_def map_of_eq_None_iff split: option.splits if_splits)

lemma unique_blocks_table:
  "unique_blocks c file is tab = Some tab' \<Longrightarrow> distinct (map fst tab) \<Longrightarrow> distinct (map fst tab')"
  by (induction "is" arbitrary: tab) (auto simp: distinct_update split: option.splits)

lemma ordered_acquire_prog:
  assumes "\<And>l. distinct (map fst (lockedBlocks l)) \<Longrightarrow> ordered H (k l)"
    and H: "H Block_Index = Some Reading" "\<forall>h \<in> dom H - {Block_Index}. h < Block_Index"
  shows "distinct (map fst (lockedBlocks l)) \<Longrightarrow> ordered H (acquire_prog hs l k)"
proof (induction hs arbitrary: l)
  case (Cons h hs)
  have "H(Block_Index \<mapsto> Reading) = H" using H(1) by (rule fun_upd_idem)
  then show ?case
    using Cons.prems H by (auto simp: ordered_simps split: option.splits if_splits intro!: Cons.IH dest: acquire_block_table)
qed (simp add: assms)

lemma ordered_copy_blocks:
  "(\<And>err tot out. ordered H (k err tot out)) \<Longrightarrow> ordered H (copy_blocks E f offset sz is tot out k)"
  by (induction "is" arbitrary: tot out) (auto intro!: ordered_with_file split: option.splits)

lemma ordered_store_blocks:
  "(\<And>err. ordered H (k err)) \<Longrightarrow> ordered H (store_blocks E f as buf_ptr created k)"
  by (induction as arbitrary: buf_ptr created) (auto intro!: ordered_with_file split: option.splits)

lemma ordered_release_prog:
  assumes "\<forall>h \<in> dom H. h \<le> Block_Index" and "ordered H p"
  shows "ordered H (release_prog a occ p)"
proof -
  have "H (Block_Lock h a) = None" "H Free_List = None" for h
    using assms(1) by (auto simp: dom_def less_eq_lock_def)
  moreover from this have "H(Free_List := None) = H" "H(Block_Lock h a := None) = H" for h by (simp_all add: fun_upd_idem)
  moreover have "h < Block_Lock d b" "h < Free_List" if "h \<in> dom H" for h d b
    using assms(1) that le_less_trans lock_less(4,10) by blast+
  ultimately show ?thesis using assms(2)
    by (auto simp: release_prog_def drop_block_def ordered_simps Let_def fun_upd_twist [of Free_List] split: option.splits if_splits)
qed

lemma ordered_release_progs:
  "\<forall>h \<in> dom H. h \<le> Block_Index \<Longrightarrow> ordered H p \<Longrightarrow> ordered H (release_progs tab as p)"
  by (induction as) (auto intro: ordered_release_prog simp: ordered_simps split: option.splits)

lemma ordered_getattr: "ordered Map.empty (getattr_prog P path)"
  by (auto simp: getattr_prog_def ordered_simps Let_def split: option.splits sysres.splits prod.splits if_splits intro!: ordered_lock_file ordered_with_file)

lemma held_by_digest: "distinct (map fst tab) \<Longrightarrow> held m (by_digest tab) H = held m tab H"
  by (simp add: held_def by_digest_sorted)

lemma unique_blocks_distinct: "unique_blocks c file is [] = Some tab \<Longrightarrow> distinct (map fst tab)"
  by (drule unique_blocks_table) simp_all

lemma ordered_read_range:
  "ordered [File_Lock f \<mapsto> Reading, Block_Index \<mapsto> Reading] (read_range E f offset sz is)"
  unfolding read_range_def
proof (rule ordered_with_file)
  fix m s s' p
  let ?k = "\<lambda>tab err tot out. unlock_blocks Reading tab (Release Reading (File_Lock f)
    (Give (Read_Returns (if err \<noteq> 0 then err else s32 tot) out)))"
  assume "(case unique_blocks (store s) m is [] of None \<Rightarrow> None
      | Some tab \<Rightarrow> Some (s, lock_blocks Reading (by_digest tab) (Release Reading Block_Index
          (copy_blocks E f offset sz is 0 [] (?k tab))))) = Some (s', p)"
  then obtain tab where u: "unique_blocks (store s) m is [] = Some tab"
    and p: "p = lock_blocks Reading (by_digest tab) (Release Reading Block_Index (copy_blocks E f offset sz is 0 [] (?k tab)))"
    by (auto split: option.splits)
  note d = unique_blocks_distinct [OF u]
  then have "distinct tab" by (simp add: distinct_map)
  then have "ordered (held Reading tab [File_Lock f \<mapsto> Reading]) (?k tab err tot out)" for err tot out
    by (intro ordered_unlock_blocks) (simp_all add: ordered_simps)
  then have "ordered (held Reading tab [File_Lock f \<mapsto> Reading]) (copy_blocks E f offset sz is tot out (?k tab))" for tot out
    by (rule ordered_copy_blocks)
  then show "ordered [File_Lock f \<mapsto> Reading, Block_Index \<mapsto> Reading] p" unfolding p using d
    by (intro ordered_lock_blocks by_digest_sorted(1)) (auto simp: held_by_digest ordered_simps split: if_splits)
qed

lemma ordered_read: "ordered Map.empty (read_prog E path sz offset)"
  by (auto simp: read_prog_def ordered_simps Let_def split: option.splits if_splits
      intro!: ordered_lock_file ordered_with_file ordered_read_range)

lemma ordered_write_io:
  assumes "distinct order" 
  shows "ordered (held Writing order [File_Lock f \<mapsto> Writing]) (write_io E f order l buf offset)"
  using assms by (auto simp: write_io_def write_cleanup_def Let_def ordered_simps
      split: prod.splits intro!: ordered_store_blocks ordered_with_file ordered_unlock_blocks)

lemma ordered_write_layout:
  assumes "distinct (map fst (lockedBlocks l))"
  shows "ordered [File_Index \<mapsto> Reading, File_Lock f \<mapsto> Writing, Block_Index \<mapsto> Reading] (write_layout E f buf offset l)"
proof -
  note d = by_digest_sorted [OF assms]
  show ?thesis using ordered_write_io [OF d(2)] unfolding write_layout_def Let_def
    by (intro ordered_lock_blocks d) (auto simp: ordered_simps dom_held split: option.splits if_splits)
qed

lemma ordered_write_file:
  "ordered [File_Index \<mapsto> Reading] (write_file E f blockHashes buf offset)"
  by (auto simp: write_file_def ordered_simps no_locals_def split: if_splits
      intro!: ordered_lock_file ordered_with_file ordered_acquire_prog ordered_write_layout)

lemma ordered_write: "ordered Map.empty (write_prog E path buf offset)"
  by (auto simp: write_prog_def Let_def ordered_simps split: option.splits prod.splits intro: ordered_write_file)

lemma ordered_unlink: "ordered Map.empty (unlink_prog E path)"
  by (auto simp: unlink_prog_def unlink_failed_def unlink_blocks_def Let_def ordered_simps less_imp_le split: option.splits prod.splits sysres.splits if_splits
      intro!: ordered_lock_file ordered_with_file ordered_release_progs)

lemma ordered_handler: "ordered Map.empty (handler E P q)"
  by (cases q) (simp_all add: ordered_getattr ordered_read ordered_write ordered_unlink)

lemma ordered_worker: "ordered Map.empty (worker E P qs)"
  by (induction qs) (auto simp: ordered_simps intro!: ordered_and_then ordered_handler)


interpretation workers: disciplined "range (worker E P)" for E :: "'k os" and P :: "'k posix"
  by unfold_locales (auto simp: ordered_worker)

section \<open>The properties\<close>

text \<open>C6. The lock discipline: whatever requests a worker thread serves, in whatever state it finds the store at every
  step, it takes locks only in the order \<^verbatim>\<open>file_index_lock\<close>, file, \<^verbatim>\<open>block_index_lock\<close>, blocks by
  digest, \<^verbatim>\<open>freeList_lock\<close>, \<^verbatim>\<open>offset_lock\<close>, gives each back in the mode in which it took it, and
  holds none when it is done with a request, on every path through the handlers.\<close>

theorem handlers_lock_ordered: "ordered Map.empty (worker E P qs)"
  by (rule ordered_worker)

text \<open>C7. Any number of worker threads, each with any list of requests, come to an end under every scheduling: no run is
  infinite, and a reachable state in which no thread can move is one in which all have answered all their
  requests, or in which one is about to use freed memory. So the handlers never deadlock.\<close>

theorem handlers_finish:
  "(\<nexists>run. run 0 = start_system s0 (map (worker E P) reqs) \<and> (\<forall>n :: nat. moves (run n) (run (Suc n)))) \<and>
   (\<forall>s. reached s0 (map (worker E P) reqs) s \<and> (\<nexists>s'. moves s s') \<longrightarrow>
      (\<forall>i<length reqs. finished i s) \<or> (\<exists>i<length reqs. undefined_at i s))"
proof (intro conjI allI impI)
  show "\<nexists>run. run 0 = start_system s0 (map (worker E P) reqs) \<and> (\<forall>n :: nat. moves (run n) (run (Suc n)))"
    using no_infinite_run by blast
next
  fix s
  assume s: "reached s0 (map (worker E P) reqs) s \<and> (\<nexists>s'. moves s s')"
  have "set (map (worker E P) reqs) \<subseteq> range (worker E P)" by auto
  from workers.stuck [OF conjunct1 [OF s] this conjunct2 [OF s]]
  show "(\<forall>i<length reqs. finished i s) \<or> (\<exists>i<length reqs. undefined_at i s)" by simp
qed

text \<open>C8. The handlers over the code of their locks: every state that up to $2^{32} - 1$ worker threads reach through the calls of
  \<^verbatim>\<open>ticket_rwlock.c\<close>, in which they sleep and are woken, has the shared data and the programs of a state that they
  reach over abstract queues; and in each, all have answered their requests, or one is about to use freed memory, or some
  thread can take a step that gets it further: a ticket, its turn, or past the call.\<close>

theorem handlers_over_ticket_locks:
  assumes "ticket_moves\<^sup>*\<^sup>* (ticket_start s0 (map (worker E P) reqs)) s" and "length reqs < 2 ^ 32"
  shows "\<exists>q. reached s0 (map (worker E P) reqs) q \<and> abstracts s q \<and> ((\<forall>i<length reqs. finished i q) \<or>
    (\<exists>j<length reqs. undefined_at j q \<or> (\<exists>s'. ticket_step j s = Some s' \<and> advances s s')))"
proof -
  have "set (map (worker E P) reqs) \<subseteq> range (worker E P)" by auto
  from workers.over_tickets [OF assms(1) this] show ?thesis using assms(2) by simp
qed

text \<open>A handler keeps to the discipline too when it is the whole program of a thread.\<close>

interpretation handlers: disciplined "range (handler E P)" for E :: "'k os" and P :: "'k posix"
  by unfold_locales (auto simp: ordered_handler)

end
