(* ===== verification/Handler_Alone.thy ===== *)
theory Handler_Alone
  imports Handler_Threads
begin

text \<open>
  A handler that no other thread disturbs computes what the definitions of \<open>Dedup_Write\<close>, \<open>Dedup_Read\<close>,
  \<open>Dedup_Unlink\<close> and \<open>Passthrough_Ops\<close> say, in which a handler is one step: the properties proved of those hold for a handler of
  the threaded program that runs by itself. \<open>ctx_of\<close> reads the shared state as the \<open>Context\<close> of those theories, in
  which the index holds the files themselves.
\<close>

section \<open>The state as a context\<close>

definition file_at :: "'k shared_store \<Rightarrow> string \<Rightarrow> filemeta option" where
  "file_at s path = (case findex s path of None \<Rightarrow> None | Some f \<Rightarrow> files s f)"

definition ctx_of :: "'k shared_store \<Rightarrow> 'k Context" where
  "ctx_of s = (store s)\<lparr>fileIndex := file_at s\<rparr>"

definition shared_ok :: "'k shared_store \<Rightarrow> bool" where
  "shared_ok s \<longleftrightarrow> (\<forall>p f. findex s p = Some f \<longrightarrow> files s f \<noteq> None \<and> f < next_file s \<and>
     (\<forall>q. findex s q = Some f \<longrightarrow> q = p))"

definition sequential :: "'k os \<Rightarrow> 'k posix \<Rightarrow> store_request \<Rightarrow> 'k Context \<Rightarrow> (answer \<times> 'k Context) option" where
  "sequential E P q c = (case q of
      Ask_Getattr path \<Rightarrow>
        (case run_state (xmp_getattr P (fileIndex c) path) \<lparr>errno = 0, ctx_open = 0, sysk = kern c\<rparr> of
          ((r, st), pr) \<Rightarrow> Some (Stat_Returns r st, c\<lparr>kern := sysk pr\<rparr>))
    | Ask_Read path sz offset \<Rightarrow> map_option (\<lambda>(r, out, c'). (Read_Returns r out, c')) (xmp_read E path sz offset c)
    | Ask_Write path buf offset \<Rightarrow> map_option (\<lambda>(r, c'). (Returns r, c')) (xmp_write E path buf offset c)
    | Ask_Unlink path \<Rightarrow> map_option (\<lambda>(r, c'). (Returns r, c')) (xmp_unlink E path c))"

lemma set_store_simps [simp]:
  "store (set_store c s) = c" "findex (set_store c s) = findex s" "files (set_store c s) = files s"
  "next_file (set_store c s) = next_file s" "set_store c (set_store d s) = set_store c s" "set_store (store s) s = s"
  "file_at (set_store c s) = file_at s" "shared_ok (set_store c s) = shared_ok s"
  "ctx_of (set_store c s) = c\<lparr>fileIndex := file_at s\<rparr>"
proof -
  show f: "file_at (set_store c s) = file_at s" by (auto simp: file_at_def set_store_def fun_eq_iff split: option.splits)
  show "ctx_of (set_store c s) = c\<lparr>fileIndex := file_at s\<rparr>" by (simp add: ctx_of_def f) (simp add: set_store_def)
qed (simp_all add: set_store_def shared_ok_def)

lemma set_file_simps [simp]:
  "store (set_file f m s) = store s" "findex (set_file f m s) = findex s" "files (set_file f m s) = (files s)(f \<mapsto> m)"
  "next_file (set_file f m s) = next_file s" "set_file f m (set_file f m' s) = set_file f m s"
  "set_file f m (set_store c s) = set_store c (set_file f m s)"
  by (simp_all add: set_file_def set_store_def)

lemma set_file_same: "files s f = Some m \<Longrightarrow> set_file f m s = s"
  by (cases s) (auto simp: set_file_def)

section \<open>The parts of the programs\<close>

text \<open>Nothing but the handlers' first and last steps looks at the file index.\<close>

definition reindex :: "(string \<rightharpoonup> filemeta) \<Rightarrow> 'k Context \<Rightarrow> 'k Context" where
  "reindex F c = c\<lparr>fileIndex := F\<rparr>"

lemma reindex_simps [simp]:
  "heap (reindex F c) = heap c" "blockIndex (reindex F c) = blockIndex c" "kern (reindex F c) = kern c"
  "next_addr (reindex F c) = next_addr c" "freeList (reindex F c) = freeList c"
  "next_free_offset (reindex F c) = next_free_offset c" "backend_fd (reindex F c) = backend_fd c"
  "fileIndex (reindex F c) = F" "reindex F (reindex G c) = reindex F c"
  "(reindex F c)\<lparr>kern := k\<rparr> = reindex F (c\<lparr>kern := k\<rparr>)" "(reindex F c)\<lparr>fileIndex := G\<rparr> = reindex G c"
  by (simp_all add: reindex_def)

lemma reindex_acquire_block:
  "acquire_block h (reindex F c) l = map_option (\<lambda>(c', l'). (reindex F c', l')) (acquire_block h c l)"
  by (auto simp: acquire_block_def reindex_def Let_def split: option.splits)

lemma reindex_acquire_blocks:
  "acquire_blocks hs (reindex F c) l = map_option (\<lambda>(c', l'). (reindex F c', l')) (acquire_blocks hs c l)"
  by (induction hs arbitrary: c l) (auto simp: reindex_acquire_block split: option.splits)

lemma reindex_blocks_to_lock: "blocks_to_lock E (reindex F c) tab = blocks_to_lock E c tab"
  by (simp add: blocks_to_lock_def Let_def)

lemma reindex_assign_offset:
  "assign_offset created a (reindex F c) = map_option (reindex F) (assign_offset created a c)"
  by (auto simp: assign_offset_def reindex_def split: option.splits)

lemma reindex_assign_offsets:
  "assign_offsets created as (reindex F c) = map_option (reindex F) (assign_offsets created as c)"
  by (induction as arbitrary: c) (auto simp: reindex_assign_offset split: option.splits)

lemma reindex_write_one: "write_one E block buf (reindex F c) = map_prod id (reindex F) (write_one E block buf c)"
  by (auto simp: write_one_def reindex_def split: prod.splits sysres.splits)

lemma reindex_write_blocks:
  "write_blocks E as buf created fm (reindex F c) =
     map_option (\<lambda>(err, fm', c'). (err, fm', reindex F c')) (write_blocks E as buf created fm c)"
  by (induction as arbitrary: buf created fm c) (auto simp: reindex_write_one Let_def split: option.splits prod.splits)

lemma reindex_block_of_file: "block_of_file (reindex F c) f i = block_of_file c f i"
  by (simp add: block_of_file_def)

lemma reindex_read_one:
  "read_one E block rs n (reindex F c) = (case read_one E block rs n c of (err, bs, c') \<Rightarrow> (err, bs, reindex F c'))"
  by (auto simp: read_one_def reindex_def Let_def split: prod.splits sysres.splits)

lemma reindex_read_blocks:
  "read_blocks E f offset sz is tot out (reindex F c) =
     map_option (\<lambda>(err, tot, out, c'). (err, tot, out, reindex F c')) (read_blocks E f offset sz is tot out c)"
  by (induction "is" arbitrary: tot out c)
    (auto simp: reindex_read_one reindex_block_of_file Let_def split: option.splits prod.splits)

lemma reindex_release_block: "release_block a occ (reindex F c) = map_option (reindex F) (release_block a occ c)"
  by (auto simp: release_block_def reindex_def Let_def split: option.splits)

lemma reindex_release_blocks: "release_blocks tab as (reindex F c) = map_option (reindex F) (release_blocks tab as c)"
  by (induction as arbitrary: c) (auto simp: reindex_release_block split: option.splits)

lemma alone_with_file:
  "alone (with_file f g) s = (case files s f of None \<Rightarrow> None | Some m \<Rightarrow>
     (case g m s of None \<Rightarrow> None | Some (s', p) \<Rightarrow> alone p s'))"
  by (simp add: with_file_def split: option.splits)

lemma alone_lock_file: "alone (lock_file a f p) s = (case files s f of None \<Rightarrow> None | Some m \<Rightarrow> alone p s)"
  by (simp add: lock_file_def alone_with_file split: option.splits)

lemma alone_lock_blocks:
  "alone (lock_blocks m bs p) s = (if \<forall>b \<in> set bs. heap (store s) (snd b) \<noteq> None then alone p s else None)"
  by (induction bs) (auto simp: lock_block_def split: option.splits)

lemma alone_unlock_blocks [simp]: "alone (unlock_blocks m bs p) s = alone p s"
  by (induction bs) auto

lemma alone_acquire_prog:
  "alone (acquire_prog hs l k) s = (case acquire_blocks hs (store s) l of None \<Rightarrow> None
     | Some (c, l') \<Rightarrow> alone (k l') (set_store c s))"
  by (induction hs arbitrary: l s) (auto split: option.splits)

lemma alone_copy_blocks:
  "files s f = Some m \<Longrightarrow> alone (copy_blocks E f offset sz is tot out k) s =
     (case read_blocks E m offset sz is tot out (store s) of None \<Rightarrow> None
      | Some (err, tot', out', c) \<Rightarrow> alone (k err tot' out') (set_store c s))"
  by (induction "is" arbitrary: tot out s) (auto simp: alone_with_file Let_def split: option.splits prod.splits)

lemma alone_store_blocks:
  "files s f = Some m \<Longrightarrow> alone (store_blocks E f as buf created k) s =
     (case write_blocks E as buf created m (store s) of None \<Rightarrow> None
      | Some (err, m', c) \<Rightarrow> alone (k err) (set_file f m' (set_store c s)))"
  by (induction as arbitrary: buf created s m)
    (auto simp: alone_with_file set_file_same Let_def split: option.splits prod.splits)

lemma alone_release_prog:
  "alone (release_prog a occ p) s = (case release_block a occ (store s) of None \<Rightarrow> None
     | Some c \<Rightarrow> alone p (set_store c s))"
  by (auto simp: release_prog_def release_block_def drop_block_def Let_def split: option.splits)

lemma alone_release_progs:
  "alone (release_progs tab as p) s = (case release_blocks tab as (store s) of None \<Rightarrow> None
     | Some c \<Rightarrow> alone p (set_store c s))"
  by (induction as arbitrary: s) (auto simp: alone_release_prog split: option.splits)


section \<open>The order of the blocks\<close>

text \<open>The program sorts the table by its keys, \<open>Dedup_Write\<close> the values by the blocks' digests.\<close>

definition index_live :: "'k Context \<Rightarrow> bool" where
  "index_live c \<longleftrightarrow> (\<forall>h a. blockIndex c h = Some a \<longrightarrow> has_id c a h) \<and> (\<forall>a. heap c a \<noteq> None \<longrightarrow> a < next_addr c)"

definition table_ok :: "'k Context \<Rightarrow> write_locals \<Rightarrow> bool" where
  "table_ok c l \<longleftrightarrow> distinct (map fst (lockedBlocks l)) \<and>
     (\<forall>(h, a) \<in> set (lockedBlocks l). has_id c a h \<and> length h = 64)"

lemma index_ok_live: "index_ok c \<Longrightarrow> index_live c"
  by (auto simp: index_ok_def index_live_def has_id_def)

lemma acquire_block_ids:
  assumes "acquire_block h c l = Some (c', l')" and "index_live c"
  shows "index_live c' \<and> (\<forall>a d. has_id c a d \<longrightarrow> has_id c' a d) \<and> (lockedBlocks l' = lockedBlocks l \<or>
    (\<exists>a. lockedBlocks l' = lockedBlocks l @ [(h, a)] \<and> has_id c' a h \<and> h \<notin> fst ` set (lockedBlocks l)))"
proof (cases "blockIndex c h")
  case None
  then have e: "c' = c\<lparr>heap := (heap c)(next_addr c \<mapsto> new_block h), next_addr := Suc (next_addr c),
      blockIndex := (blockIndex c)(h \<mapsto> next_addr c)\<rparr>" using assms(1) by (simp add: acquire_block_def Let_def)
  have i: "has_id c a d \<longrightarrow> has_id c' a d" for a d using assms(2) by (auto simp: e index_live_def has_id_def)
  have "has_id c' (next_addr c) h" by (simp add: e has_id_def new_block_def)
  moreover from this have "index_live c'" using assms(2) i by (auto simp: index_live_def e less_Suc_eq)
  ultimately show ?thesis
    using assms(1) None i by (auto simp: e acquire_block_def note_block_def Let_def map_of_eq_None_iff split: if_splits)
next
  case (Some x)
  then obtain b where b: "heap c x = Some b" "block_id b = h" using assms(2) by (auto simp: index_live_def has_id_def)
  then have e: "c' = c\<lparr>heap := (heap c)(x \<mapsto> b\<lparr>counter := s32 (counter b + 1)\<rparr>)\<rparr>"
    using assms(1) Some by (simp add: acquire_block_def)
  have i: "has_id c a d \<longrightarrow> has_id c' a d" for a d using b by (auto simp: e has_id_def)
  have "has_id c' x h" using b by (simp add: e has_id_def)
  moreover have "index_live c'" using assms(2) i b(1) by (auto simp: index_live_def e)
  ultimately show ?thesis
    using assms(1) Some b i by (auto simp: e acquire_block_def note_block_def map_of_eq_None_iff split: if_splits)
qed

lemma acquire_blocks_table:
  "acquire_blocks hs c l = Some (c', l') \<Longrightarrow> index_live c \<Longrightarrow> table_ok c l \<Longrightarrow> \<forall>h \<in> set hs. length h = 64 \<Longrightarrow> table_ok c' l'"
proof (induction hs arbitrary: c l)
  case (Cons h hs)
  then obtain c1 l1 where s: "acquire_block h c l = Some (c1, l1)" "acquire_blocks hs c1 l1 = Some (c', l')"
    by (auto split: option.splits)
  note i = acquire_block_ids [OF s(1) Cons.prems(2)]
  then have "table_ok c1 l1" using Cons.prems(3,4) by (fastforce simp: table_ok_def)
  then show ?case using Cons s(2) i by simp
qed simp

lemma has_id_fun: "has_id c a h \<Longrightarrow> block_id (the (heap c a)) = h \<and> heap c a \<noteq> None"
  by (auto simp: has_id_def)

lemma by_digest_order:
  assumes E: "os_ok E fd view" and ok: "table_ok c l"
  shows "blocks_to_lock E c (lockedBlocks l) = Some (map snd (by_digest (lockedBlocks l)))"
proof -
  let ?tab = "lockedBlocks l" and ?key = "\<lambda>a. take 64 (block_id (the (heap c a)))"
  have key: "?key (snd e) = fst e" "heap c (snd e) \<noteq> None" if "e \<in> set ?tab" for e
    using ok that has_id_fun [of c "snd e" "fst e"] by (auto simp: table_ok_def split_beta)
  have m: "mset (iter_order E (map snd ?tab)) = mset (map snd (by_digest ?tab))"
    using os_ok_iter [OF E] by (simp add: by_digest_def)
  then have s: "set (iter_order E (map snd ?tab)) = snd ` set ?tab" by (metis mset_eq_setD set_map set_mset_mset set_sort by_digest_def)
  have "inj_on ?key (snd ` set ?tab)"
    using ok key(1) unfolding inj_on_def by (auto simp: table_ok_def distinct_map inj_on_def)
  moreover have "map ?key (map snd (by_digest ?tab)) = map fst (by_digest ?tab)" using key(1) by (auto simp: by_digest_def)
  then have "sorted (map ?key (map snd (by_digest ?tab)))" by (simp only:) (simp add: by_digest_def)
  ultimately have "sort_key ?key (iter_order E (map snd ?tab)) = map snd (by_digest ?tab)"
    using m s by (intro sort_key_inj_key_eq) simp_all
  then show ?thesis using s key(2) by (auto simp: blocks_to_lock_def Let_def list_all_iff)
qed


section \<open>The handlers\<close>

definition matches :: "('r \<times> 'k shared_store) option \<Rightarrow> ('r \<times> 'k Context) option \<Rightarrow> bool" where
  "matches x y \<longleftrightarrow> (case x of None \<Rightarrow> y = None | Some (r, s) \<Rightarrow> shared_ok s \<and> y = Some (r, ctx_of s))"

lemma matches_simps [simp]:
  "matches None None" "matches (Some (r, s)) (Some (r', c)) \<longleftrightarrow> shared_ok s \<and> r' = r \<and> c = ctx_of s"
  by (simp_all add: matches_def)

lemma ctx_reindex: "ctx_of s = reindex (file_at s) (store s)"
  by (simp add: ctx_of_def reindex_def)

lemma shared_ok_live: "shared_ok s \<Longrightarrow> findex s path = Some f \<Longrightarrow> \<exists>m. files s f = Some m"
  by (auto simp: shared_ok_def)

lemma set_file_ok:
  assumes "shared_ok s" and "findex s path = Some f"
  shows "shared_ok (set_file f m s)" "file_at (set_file f m s) = (file_at s)(path \<mapsto> m)"
  using assms by (auto simp: shared_ok_def file_at_def fun_eq_iff split: option.splits)

lemma file_atD: "shared_ok s \<Longrightarrow> findex s path = Some f \<Longrightarrow> files s f = Some m \<Longrightarrow> file_at s path = Some m"
  by (simp add: file_at_def)

lemma find_or_create_ok:
  assumes "shared_ok s"
  obtains f m s1 where "find_or_create path s = (f, s1)" "shared_ok s1" "findex s1 path = Some f" "files s1 f = Some m"
    "get_or_create_file path (ctx_of s) = (m, ctx_of s1)" "store s1 = store s"
proof (cases "findex s path")
  case (Some f)
  then obtain m where "files s f = Some m" using shared_ok_live [OF assms] by blast
  then show ?thesis using Some assms by (intro that [of f s m]) (simp_all add: find_or_create_def get_or_create_file_def ctx_of_def file_at_def)
next
  case None
  let ?s = "s\<lparr>findex := (findex s)(path \<mapsto> next_file s), next_file := Suc (next_file s),
    files := (files s)(next_file s \<mapsto> new_file path)\<rparr>"
  have fresh: "findex s q \<noteq> Some (next_file s)" for q using assms by (auto simp: shared_ok_def)
  have "shared_ok ?s" using assms fresh by (auto simp: shared_ok_def less_Suc_eq)
  moreover have "file_at ?s = (file_at s)(path \<mapsto> new_file path)"
    using fresh by (auto simp: file_at_def fun_eq_iff split: option.splits)
  moreover have "file_at s path = None" using None by (simp add: file_at_def)
  ultimately show ?thesis using None
    by (intro that [of "next_file s" ?s "new_file path"]) (simp_all add: find_or_create_def get_or_create_file_def ctx_of_def)
qed

lemma alone_getattr:
  assumes "shared_ok s"
  shows "matches (alone (getattr_prog P path) s) (sequential E P (Ask_Getattr path) (ctx_of s))"
  using assms
  by (auto simp: getattr_prog_def sequential_def xmp_getattr_def ctx_reindex sys_def neg_errno_def alone_lock_file alone_with_file
      file_at_def stat_of_file_def Let_def split: option.splits sysres.splits prod.splits dest: shared_ok_live)


lemma file_at_simps:
  "findex s path = None \<Longrightarrow> file_at s path = None" "findex s path = Some f \<Longrightarrow> file_at s path = files s f"
  by (simp_all add: file_at_def)

lemma unique_blocks_total:
  "unique_blocks c m is tab = None \<longleftrightarrow> collect_unique c m is tab' = None"
  by (induction "is" arbitrary: tab tab') (auto simp: block_of_file_def split: option.splits)

lemma in_update: "b \<in> set (AList.update k a tab) \<Longrightarrow> b = (k, a) \<or> b \<in> set tab"
  by (induction tab) (auto split: if_splits)

lemma unique_blocks_live:
  "unique_blocks c m is tab = Some tab' \<Longrightarrow> \<forall>b \<in> set tab. heap c (snd b) \<noteq> None \<Longrightarrow> \<forall>b \<in> set tab'. heap c (snd b) \<noteq> None"
proof (induction "is" arbitrary: tab)
  case (Cons i "is")
  then obtain a block where "heap c a = Some block" "unique_blocks c m is (AList.update (block_id block) a tab) = Some tab'"
    by (auto split: option.splits)
  then show ?case using Cons.IH Cons.prems(2) in_update by fastforce
qed simp

lemma alone_read_range:
  assumes "files s f = Some m"
  shows "alone (read_range E f offset sz is) s =
    (case collect_unique (store s) m is Map.empty of None \<Rightarrow> None | Some _ \<Rightarrow>
      (case read_blocks E m offset sz is 0 [] (store s) of None \<Rightarrow> None
       | Some (err, tot, out, c) \<Rightarrow> Some (Read_Returns (if err \<noteq> 0 then err else s32 tot) out, set_store c s)))"
  using assms unique_blocks_total [of "store s" m "is" "[]" Map.empty] unique_blocks_live [of "store s" m "is" "[]"]
  by (auto simp: read_range_def alone_with_file alone_lock_blocks alone_copy_blocks by_digest_def split: option.splits)

lemma reindex_collect_unique: "collect_unique (reindex F c) m is tab = collect_unique c m is tab"
  by (induction "is" arbitrary: tab) (auto simp: reindex_block_of_file split: option.splits)

lemma alone_read:
  assumes "shared_ok s"
  shows "matches (alone (read_prog E path sz offset) s) (sequential E P (Ask_Read path sz offset) (ctx_of s))"
proof (cases "findex s path")
  case None
  then show ?thesis using assms by (simp add: read_prog_def sequential_def xmp_read_def ctx_reindex file_at_simps)
next
  case (Some f)
  then obtain m where m: "files s f = Some m" using shared_ok_live [OF assms] by blast
  show ?thesis using assms Some m
    by (auto simp: read_prog_def sequential_def xmp_read_def ctx_reindex alone_lock_file alone_with_file
      alone_read_range [OF m] Let_def file_at_simps reindex_collect_unique reindex_read_blocks split: option.splits)
qed


definition sizes_set :: "int \<Rightarrow> int \<Rightarrow> int \<Rightarrow> filemeta \<Rightarrow> filemeta" where
  "sizes_set err offset sz m = (if err = 0 \<and> u64 (offset + sz) > u64 (logicalSize m)
     then m\<lparr>logicalSize := s64 (offset + sz)\<rparr> else m)"

lemma alone_write_cleanup:
  "files s f = Some m \<Longrightarrow> alone (write_cleanup f order offset sz err) s =
     Some (Returns (if err \<noteq> 0 then err else s32 sz), set_file f (sizes_set err offset sz m) s)"
  by (simp add: write_cleanup_def alone_with_file sizes_set_def set_file_same)

lemma alone_write_io:
  assumes "files s f = Some m"
  shows "alone (write_io E f order l buf offset) s =
    (let (aligned, k) = memalign E (kern (store s)); c = (store s)\<lparr>kern := k\<rparr>; sz = int (length buf) in
     case (if \<not> aligned then Some (- ENOMEM, m, c)
           else write_blocks E (newBlocksInfo l) buf (my_created_blocks l) m c) of None \<Rightarrow> None
     | Some (err, m', c') \<Rightarrow> Some (Returns (if err \<noteq> 0 then err else s32 sz),
         set_file f (sizes_set err offset sz m') (set_store c' s)))"
  using assms by (auto simp: write_io_def alone_write_cleanup alone_store_blocks [where m = m] Let_def
      set_file_same split: prod.splits option.splits)

lemma alone_write_layout:
  assumes "files s f = Some m" and E: "os_ok E fd view" and "table_ok (store s) l"
  shows "alone (write_layout E f buf offset l) s =
    (case blocks_to_lock E (store s) (lockedBlocks l) of None \<Rightarrow> None | Some order \<Rightarrow>
      (case assign_offsets (my_created_blocks l) order (store s) of None \<Rightarrow> None
       | Some c \<Rightarrow> alone (write_io E f (by_digest (lockedBlocks l)) l buf offset) (set_store c s)))"
proof -
  have "heap (store s) (snd b) \<noteq> None" if "b \<in> set (by_digest (lockedBlocks l))" for b
    using that assms(3) has_id_fun [of "store s" "snd b" "fst b"] by (auto simp: table_ok_def by_digest_def split_beta)
  then show ?thesis
    by (auto simp: write_layout_def alone_lock_blocks by_digest_order [OF E assms(3)] Let_def split: option.splits)
qed

lemma table_ok_start: "table_ok c no_locals"
  by (simp add: table_ok_def no_locals_def)

text \<open>What \<open>xmp_write\<close> does from the moment at which it has the file.\<close>

definition append_to :: "'k os \<Rightarrow> string \<Rightarrow> hash list \<Rightarrow> byte list \<Rightarrow> int \<Rightarrow> filemeta \<Rightarrow> 'k Context \<Rightarrow> (int \<times> 'k Context) option" where
  "append_to E path hs buf offset m c =
     (if offset \<noteq> logicalSize m then Some (- ENOTSUP, c) else
      case acquire_blocks hs c no_locals of None \<Rightarrow> None | Some (c2, l) \<Rightarrow>
      case blocks_to_lock E c2 (lockedBlocks l) of None \<Rightarrow> None | Some order \<Rightarrow>
      case assign_offsets (my_created_blocks l) order c2 of None \<Rightarrow> None | Some c3 \<Rightarrow>
      let (aligned, k) = memalign E (kern c3); c4 = c3\<lparr>kern := k\<rparr>; sz = int (length buf) in
      case (if \<not> aligned then Some (- ENOMEM, m, c4)
            else write_blocks E (newBlocksInfo l) buf (my_created_blocks l) m c4) of None \<Rightarrow> None
      | Some (err, m', c5) \<Rightarrow> Some (if err \<noteq> 0 then err else s32 sz,
          c5\<lparr>fileIndex := (fileIndex c5)(path \<mapsto> sizes_set err offset sz m')\<rparr>))"

lemma xmp_write_append:
  "xmp_write E path buf offset c =
     (if int (length buf) mod 4096 \<noteq> 0 then Some (- EINVAL, c)
      else let (m, c1) = get_or_create_file path c
        in append_to E path (map (\<lambda>i. sha512 E (block_at buf i)) [0..<nat (s32 (int (length buf) div 4096))]) buf offset m c1)"
  by (simp add: xmp_write_def append_to_def sizes_set_def Let_def bind_eq_None_conv split: prod.splits option.splits)

lemma alone_write_file:
  assumes ok: "shared_ok s" "findex s path = Some f" "files s f = Some m" and E: "os_ok E fd view"
    and live: "index_live (store s)" and hs: "\<forall>h \<in> set hs. length h = 64"
  shows "matches (alone (write_file E f hs buf offset) s)
    (map_option (\<lambda>(r, c). (Returns r, c)) (append_to E path hs buf offset m (ctx_of s)))"
proof (cases "acquire_blocks hs (store s) no_locals")
  case None
  then show ?thesis using ok
    by (simp add: write_file_def append_to_def alone_lock_file alone_with_file alone_acquire_prog ctx_reindex reindex_acquire_blocks)
next
  case (Some r)
  then obtain c l where a: "acquire_blocks hs (store s) no_locals = Some (c, l)" by (cases r) auto
  note t = acquire_blocks_table [OF a live table_ok_start hs]
  show ?thesis using ok a t
    by (auto simp: write_file_def append_to_def alone_lock_file alone_with_file alone_acquire_prog ctx_reindex
        reindex_acquire_blocks reindex_blocks_to_lock reindex_assign_offsets reindex_write_blocks
        alone_write_layout [OF _ E] alone_write_io [where m = m] set_file_ok Let_def split: option.splits prod.splits)
qed


lemma alone_write:
  assumes "shared_ok s" and E: "os_ok E fd view" and "index_ok (store s)"
  shows "matches (alone (write_prog E path buf offset) s) (sequential E P (Ask_Write path buf offset) (ctx_of s))"
proof -
  let ?hs = "map (\<lambda>i. sha512 E (block_at buf i)) [0..<nat (s32 (int (length buf) div 4096))]"
  have hs: "\<forall>h \<in> set ?hs. length h = 64" using os_ok_sha [OF E] by auto
  obtain f m s1 where c: "find_or_create path s = (f, s1)" "shared_ok s1" "findex s1 path = Some f" "files s1 f = Some m"
      "get_or_create_file path (ctx_of s) = (m, ctx_of s1)" "store s1 = store s"
    by (rule find_or_create_ok [OF assms(1)])
  have live: "index_live (store s1)" using index_ok_live [OF assms(3)] c(6) by simp
  have "alone (write_prog E path buf offset) s = (if int (length buf) mod 4096 \<noteq> 0 then Some (Returns (- EINVAL), s)
      else alone (write_file E f ?hs buf offset) s1)"
    using c(1) by (auto simp: write_prog_def find_or_create_def Let_def split: option.splits)
  moreover note alone_write_file [OF c(2,3,4) E live hs, of buf offset]
  ultimately show ?thesis using assms(1) by (simp add: sequential_def xmp_write_append c(5) Let_def)
qed

lemma file_at_removed:
  assumes "shared_ok s" and "findex s path = Some f"
  shows "file_at (free_file f (s\<lparr>findex := (findex s)(path := None)\<rparr>)) = (file_at s)(path := None)"
    "shared_ok (free_file f (s\<lparr>findex := (findex s)(path := None)\<rparr>))"
proof -
  have "findex s q \<noteq> Some f" if "q \<noteq> path" for q using assms that by (auto simp: shared_ok_def)
  then show "file_at (free_file f (s\<lparr>findex := (findex s)(path := None)\<rparr>)) = (file_at s)(path := None)"
    by (auto simp: file_at_def free_file_def fun_eq_iff split: option.splits)
  show "shared_ok (free_file f (s\<lparr>findex := (findex s)(path := None)\<rparr>))"
    using assms by (fastforce simp: shared_ok_def free_file_def)
qed

lemma remove_store: "(set_store c s)\<lparr>findex := x\<rparr> = set_store c (s\<lparr>findex := x\<rparr>)" "free_file f (set_store c s) = set_store c (free_file f s)"
  by (simp_all add: set_store_def free_file_def)

lemma alone_unlink_blocks:
  assumes "files s f = Some m"
  shows "alone (unlink_blocks E f) s = (let blockCounts = count_blocks (blockList m) [] in
    case release_blocks blockCounts (iter_order E (map fst blockCounts)) (store s) of None \<Rightarrow> None
    | Some c \<Rightarrow> Some (Returns 0, set_store c (free_file f s)))"
  using assms by (auto simp: unlink_blocks_def alone_with_file alone_release_progs remove_store Let_def split: option.splits)

lemma alone_unlink:
  assumes ok: "shared_ok s"
  shows "matches (alone (unlink_prog E path) s) (sequential E P (Ask_Unlink path) (ctx_of s))"
proof (cases "findex s path")
  case None
  then show ?thesis using assms by (simp add: unlink_prog_def sequential_def xmp_unlink_def ctx_reindex file_at_simps)
next
  case (Some f)
  then obtain m where m: "files s f = Some m" using shared_ok_live [OF ok] by blast
  let ?s = "s\<lparr>findex := (findex s)(path := None)\<rparr>"
  obtain res k where u: "sys_unlink E path (kern (store s)) = (res, k)" by (cases "sys_unlink E path (kern (store s))")
  let ?s1 = "set_store ((store s)\<lparr>kern := k\<rparr>) ?s"
  have restored: "insert_file path f ?s1 = set_store ((store s)\<lparr>kern := k\<rparr>) s"
    using Some by (auto simp: insert_file_def set_store_def fun_upd_idem)
  have m1: "files ?s1 f = Some m" using m by simp
  show ?thesis using ok Some m file_at_removed [OF ok Some]
    by (auto simp: unlink_prog_def sequential_def xmp_unlink_def ctx_reindex u file_at_simps alone_lock_file unlink_failed_def
        restored alone_unlink_blocks [OF m1] remove_store reindex_release_blocks fun_upd_idem Let_def split: option.splits sysres.splits)
qed

lemma alone_handler:
  assumes "shared_ok s" and "os_ok E fd view" and "index_ok (store s)"
  shows "matches (alone (handler E P q) s) (sequential E P q (ctx_of s))"
  using alone_getattr [OF assms(1)] alone_read [OF assms(1)] alone_write [OF assms] alone_unlink [OF assms(1)]
  by (cases q) simp_all

text \<open>C11. A handler that runs by itself, as the only thread of the system with its locks, does not block, comes to an end,
  and answers and changes the state as the definition that takes it for one step says (\<open>xmp_getattr\<close>, \<open>xmp_read\<close>,
  \<open>xmp_write\<close>, \<open>xmp_unlink\<close>): what is proved of those holds of the code with its locks.\<close>

theorem handlers_run_alone:
  assumes "os_ok E fd view" and "index_ok (store s)" and "shared_ok s"
    and "sequential E P q (ctx_of s) = Some (r, c)"
  shows "\<exists>n t. run_schedule (replicate n 0) (start_system s [handler E P q]) = Some t \<and> progs t = [Give r] \<and>
    ctx_of (shared t) = c \<and> shared_ok (shared t)"
proof -
  obtain s' where a: "alone (handler E P q) s = Some (r, s')" "shared_ok s'" "ctx_of s' = c"
    using alone_handler [OF assms(3,1,2), of P q] assms(4) by (auto simp: matches_def split: option.splits)
  have "\<exists>n t. run_schedule (replicate n 0) (start_system s [handler E P q]) = Some t \<and> shared t = s' \<and> progs t = [Give r]"
    using a(1) by (intro lone_thread start_ok) (simp_all add: start_system_def ordered_handler)
  then show ?thesis using a(2,3) by blast
qed

end
