(* ===== verification/Thread_Proofs.thy ===== *)
theory Thread_Proofs
  imports Threads
begin

text \<open>
  Proofs about what threads do to the data they share. A thread is seen as the locks it holds and a value of a type \<open>'g\<close>, what the
  proof has recorded of it so far; the threads together are a multiset of such views. \<open>proved Inv Q H g p\<close> says of a
  program that every step of it, of a thread that holds \<open>H\<close> and has recorded \<open>g\<close>, is defined and keeps the
  invariant \<open>Inv\<close> of the data and all threads, and that the record satisfies \<open>Q\<close> at the end. What the other threads hold
  excludes what this one does (\<open>apart\<close>). The locale \<open>preserving\<close> derives that a system of such programs
  never gets to an undefined step and keeps \<open>Inv\<close>.
\<close>

section \<open>Views of threads\<close>

type_synonym ('l, 'g) view = "('l \<rightharpoonup> access) \<times> 'g"

definition apart :: "('l \<rightharpoonup> access) \<Rightarrow> ('l \<rightharpoonup> access) \<Rightarrow> bool" where
  "apart H K \<longleftrightarrow> (\<forall>l. (H l = Some Writing \<longrightarrow> K l = None) \<and> (K l = Some Writing \<longrightarrow> H l = None))"

definition apart_all :: "('l \<rightharpoonup> access) \<Rightarrow> ('l, 'g) view multiset \<Rightarrow> bool" where
  "apart_all H M \<longleftrightarrow> (\<forall>w \<in># M. apart H (fst w))"

lemma apart_allD: "apart_all H M \<Longrightarrow> (K, g) \<in># M \<Longrightarrow> H l = Some Writing \<Longrightarrow> K l = None"
  by (force simp: apart_all_def apart_def)

definition others :: "nat \<Rightarrow> 'a list \<Rightarrow> 'a multiset" where
  "others i xs = mset xs - {#xs ! i#}"

lemma others_split: "i < length xs \<Longrightarrow> mset xs = add_mset (xs ! i) (others i xs)"
  by (simp add: others_def)

lemma others_update: "i < length xs \<Longrightarrow> mset (xs[i := x]) = add_mset x (others i xs)"
  by (simp add: others_def mset_update)

lemma others_nth:
  assumes "w \<in># others i xs" and "i < length xs"
  shows "\<exists>j<length xs. j \<noteq> i \<and> w = xs ! j"
proof -
  have "mset xs = mset (take i xs @ xs ! i # drop (Suc i) xs)" using assms(2) by (simp add: id_take_nth_drop [symmetric])
  then have "others i xs = mset (take i xs @ drop (Suc i) xs)" by (simp add: others_def)
  with assms(1) have "w \<in> set (take i xs) \<or> w \<in> set (drop (Suc i) xs)" by simp
  then show ?thesis
  proof
    assume "w \<in> set (take i xs)"
    then obtain k where "k < i" "w = xs ! k" by (auto simp: in_set_conv_nth)
    then show ?thesis using assms(2) by (intro exI [of _ k]) auto
  next
    assume "w \<in> set (drop (Suc i) xs)"
    then obtain k where "k < length (drop (Suc i) xs)" "w = drop (Suc i) xs ! k" by (auto simp: in_set_conv_nth)
    then show ?thesis using assms(2) by (intro exI [of _ "Suc i + k"]) auto
  qed
qed

section \<open>Programs that keep an invariant\<close>

inductive proved :: "('s \<Rightarrow> ('l, 'g) view multiset \<Rightarrow> bool) \<Rightarrow> ('g \<Rightarrow> bool) \<Rightarrow> ('l \<rightharpoonup> access) \<Rightarrow> 'g \<Rightarrow>
    ('l, 's, 'r) prog \<Rightarrow> bool" for Inv Q where
  proved_give: "Q g \<Longrightarrow> proved Inv Q H g (Give r)"
| proved_acquire: "(\<And>s M. Inv s (add_mset (H, g) M) \<Longrightarrow> apart_all (H(l \<mapsto> a)) M \<Longrightarrow> Inv s (add_mset (H', g') M)) \<Longrightarrow>
    H' \<subseteq>\<^sub>m H(l \<mapsto> a) \<Longrightarrow> proved Inv Q H' g' p \<Longrightarrow> proved Inv Q H g (Acquire a l p)"
| proved_release: "(\<And>s M. Inv s (add_mset (H, g) M) \<Longrightarrow> Inv s (add_mset (H', g') M)) \<Longrightarrow>
    H' \<subseteq>\<^sub>m H(l := None) \<Longrightarrow> proved Inv Q H' g' p \<Longrightarrow> proved Inv Q H g (Release a l p)"
| proved_run: "(\<And>s M. Inv s (add_mset (H, g) M) \<Longrightarrow> apart_all H M \<Longrightarrow>
      \<exists>s' p H' g'. f s = Some (s', p) \<and> H' \<subseteq>\<^sub>m H \<and> Inv s' (add_mset (H', g') M) \<and> proved Inv Q H' g' p) \<Longrightarrow>
    proved Inv Q H g (Atomic f)"

inductive_cases provedE:
  "proved Inv Q H g (Give r)" "proved Inv Q H g (Acquire a l p)" "proved Inv Q H g (Release a l p)"
  "proved Inv Q H g (Atomic f)"

lemma proved_atomic:
  assumes "\<And>s M. Inv s (add_mset (H, g) M) \<Longrightarrow> apart_all H M \<Longrightarrow>
      \<exists>s' p g'. f s = Some (s', p) \<and> Inv s' (add_mset (H, g') M) \<and> proved Inv Q H g' p"
  shows "proved Inv Q H g (Atomic f)"
proof (rule proved_run)
  fix s M
  assume "Inv s (add_mset (H, g) M)" "apart_all H M"
  from assms [OF this] show "\<exists>s' p H' g'. f s = Some (s', p) \<and> H' \<subseteq>\<^sub>m H \<and> Inv s' (add_mset (H', g') M) \<and> proved Inv Q H' g' p"
    using map_le_refl by blast
qed

text \<open>What a proof does not say of the locks it does not need.\<close>

lemma apart_mono: "apart H K \<Longrightarrow> H' \<subseteq>\<^sub>m H \<Longrightarrow> K' \<subseteq>\<^sub>m K \<Longrightarrow> apart H' K'"
  unfolding apart_def map_le_def dom_def by (metis (mono_tags, lifting) mem_Collect_eq option.distinct(1))

lemma apart_all_mono: "apart_all H M \<Longrightarrow> H' \<subseteq>\<^sub>m H \<Longrightarrow> apart_all H' M"
  unfolding apart_all_def using apart_mono map_le_refl by blast

lemma proved_fewer_locks:
  assumes p: "proved Inv Q H' g p" and le: "H' \<subseteq>\<^sub>m H"
    and inv: "\<And>s M. Inv s (add_mset (H, g) M) \<Longrightarrow> Inv s (add_mset (H', g) M)"
  shows "proved Inv Q H g p"
  using p
proof cases
  case (proved_give r)
  then show ?thesis by (simp add: proved.proved_give)
next
  case (proved_acquire l a H'' g' q)
  have le': "H'(l \<mapsto> a) \<subseteq>\<^sub>m H(l \<mapsto> a)" using le by (simp add: map_le_upd)
  show ?thesis unfolding proved_acquire(1)
    by (rule proved.proved_acquire [OF _ map_le_trans [OF proved_acquire(3) le'] proved_acquire(4)])
      (rule proved_acquire(2) [OF inv apart_all_mono [OF _ le']])
next
  case (proved_release H'' g' l q a)
  have le': "H'(l := None) \<subseteq>\<^sub>m H(l := None)" using le by (auto simp: map_le_def)
  show ?thesis unfolding proved_release(1)
    by (rule proved.proved_release [OF _ map_le_trans [OF proved_release(3) le'] proved_release(4)]) (rule proved_release(2) [OF inv])
next
  case (proved_run f)
  show ?thesis unfolding proved_run(1)
  proof (rule proved.proved_run)
    fix s M
    assume "Inv s (add_mset (H, g) M)" "apart_all H M"
    from proved_run(2) [OF inv [OF this(1)] apart_all_mono [OF this(2) le]]
    show "\<exists>s' p K g'. f s = Some (s', p) \<and> K \<subseteq>\<^sub>m H \<and> Inv s' (add_mset (K, g') M) \<and> proved Inv Q K g' p"
      using map_le_trans [OF _ le] by blast
  qed
qed

lemma proved_and_then:
  "proved Inv Q H g p \<Longrightarrow> (\<And>H g r. Q g \<Longrightarrow> proved Inv Q' H g (k r)) \<Longrightarrow> proved Inv Q' H g (and_then p k)"
proof (induction H g p rule: proved.induct)
  case (proved_run H g f)
  show ?case unfolding and_then_Atomic
  proof (rule proved.proved_run)
    fix s M
    assume "Inv s (add_mset (H, g) M)" "apart_all H M"
    then obtain s' p H' g' where "f s = Some (s', p)" "H' \<subseteq>\<^sub>m H" "Inv s' (add_mset (H', g') M)" "proved Inv Q' H' g' (and_then p k)"
      using proved_run.IH proved_run.prems by blast
    then show "\<exists>s' p H' g'. (case f s of None \<Rightarrow> None | Some (s', p) \<Rightarrow> Some (s', and_then p k)) = Some (s', p) \<and>
        H' \<subseteq>\<^sub>m H \<and> Inv s' (add_mset (H', g') M) \<and> proved Inv Q' H' g' p" by auto
  qed
qed (auto intro: proved.intros)

section \<open>What the threads hold after a step\<close>

lemma holds_apart:
  assumes "system_ok s" and "i \<noteq> j"
  shows "apart (holds i s) (holds j s)"
proof -
  have "mode i (lock_of s l) = Some Writing \<Longrightarrow> mode j (lock_of s l) = None"
    "mode j (lock_of s l) = Some Writing \<Longrightarrow> mode i (lock_of s l) = None" for l
    using assms(2) mode_exclusive [OF system_okD(2) [OF assms(1), of l]] by blast+
  then show ?thesis by (simp add: apart_def holds_mode)
qed

lemma step_holds:
  assumes ok: "system_ok s" and i: "i < length (progs s)" and st: "thread_step i s = Some s'"
  shows "case progs s ! i of
      Give r \<Rightarrow> False
    | Acquire a l p \<Rightarrow> shared s' = shared s \<and> (progs s' = progs s \<and> (\<forall>j. holds j s' = holds j s) \<or>
        progs s' = (progs s)[i := p] \<and> holds i s' = (holds i s)(l \<mapsto> a) \<and> (\<forall>j. j \<noteq> i \<longrightarrow> holds j s' = holds j s))
    | Release a l p \<Rightarrow> shared s' = shared s \<and> progs s' = (progs s)[i := p] \<and> holds i s' = (holds i s)(l := None) \<and>
        (\<forall>j. j \<noteq> i \<longrightarrow> holds j s' = holds j s)
    | Atomic g \<Rightarrow> \<exists>p. g (shared s) = Some (shared s', p) \<and> progs s' = (progs s)[i := p] \<and> (\<forall>j. holds j s' = holds j s)"
proof (cases "progs s ! i")
  case (Give r)
  then show ?thesis using st by (simp add: thread_step_def)
next
  case (Acquire a l p)
  note f = acquire_free [OF ok i Acquire] and k = system_okD(2) [OF ok, of l]
  show ?thesis
  proof (cases "asked i (lock_of s l)")
    case False
    then have "s' = set_lock l (join_queue a i (lock_of s l)) s" using st Acquire by (simp add: thread_step_def)
    then show ?thesis using Acquire join_lock(2) [OF k False i f(1)] by (auto simp: fun_eq_iff holds_mode)
  next
    case True
    then have m: "admissible a i (lock_of s l)" "s' = set_prog i p (set_lock l (admit a i (lock_of s l)) s)"
      using st Acquire by (auto simp: thread_step_def split: if_splits)
    then show ?thesis using Acquire admit_lock(2) [OF k m(1) f(1)] by (auto simp: fun_eq_iff holds_mode)
  qed
next
  case (Release a l p)
  have "mode i (lock_of s l) = Some a"
    using system_okD(1) [OF ok i] Release by (auto simp: ordered_simps simp flip: holds_mode)
  note j = leave_lock(2) [OF system_okD(2) [OF ok, of l] this]
  have "s' = set_prog i p (set_lock l (leave a i (lock_of s l)) s)" using st Release by (simp add: thread_step_def)
  then show ?thesis using Release j by (auto simp: fun_eq_iff holds_mode)
next
  case (Atomic g)
  then show ?thesis using st by (auto simp: thread_step_def split: option.splits)
qed

section \<open>Systems of such programs\<close>

definition seen :: "('s \<Rightarrow> ('l, 'g) view multiset \<Rightarrow> bool) \<Rightarrow> ('g \<Rightarrow> bool) \<Rightarrow> nat \<Rightarrow> ('l, 's, 'r) system \<Rightarrow> ('l, 'g) view \<Rightarrow> bool" where
  "seen Inv Q i s v \<longleftrightarrow> fst v \<subseteq>\<^sub>m holds i s \<and> proved Inv Q (fst v) (snd v) (progs s ! i)"

definition kept :: "('s \<Rightarrow> ('l :: linorder, 'g) view multiset \<Rightarrow> bool) \<Rightarrow> ('g \<Rightarrow> bool) \<Rightarrow> ('l, 's, 'r) system \<Rightarrow> bool" where
  "kept Inv Q s \<longleftrightarrow> system_ok s \<and> (\<exists>V. length V = length (progs s) \<and> Inv (shared s) (mset V) \<and>
     (\<forall>i<length V. seen Inv Q i s (V ! i)))"

lemma keptE:
  assumes "kept Inv Q s"
  obtains V where "system_ok s" "length V = length (progs s)" "Inv (shared s) (mset V)" "\<forall>i<length V. seen Inv Q i s (V ! i)"
  using assms by (auto simp: kept_def)

lemma others_apart:
  assumes "i < length V" and "\<And>j. j \<noteq> i \<Longrightarrow> j < length V \<Longrightarrow> apart H (fst (V ! j))"
  shows "apart_all H (others i V)"
  unfolding apart_all_def
proof
  fix w
  assume "w \<in># others i V"
  from others_nth [OF this assms(1)] obtain j where "j < length V" "j \<noteq> i" "w = V ! j" by (elim exE conjE)
  then show "apart H (fst w)" using assms(2) by simp
qed

lemma kept_change:
  assumes V: "length V = length (progs s)" "\<forall>j<length V. seen Inv Q j s (V ! j)"
    and i: "i < length V" and ok: "system_ok s'" and h: "\<forall>j. j \<noteq> i \<longrightarrow> holds j s' = holds j s"
    and p: "progs s' = (progs s)[i := p]" "proved Inv Q H g p" "H \<subseteq>\<^sub>m holds i s'"
    and inv: "Inv (shared s') (add_mset (H, g) (others i V))"
  shows "kept Inv Q s'"
proof -
  have "seen Inv Q j s' (V[i := (H, g)] ! j)" if "j < length V" for j
    using that V i h p by (cases "j = i") (auto simp: seen_def)
  then show ?thesis using V(1) ok inv p(1) others_update [OF i] unfolding kept_def
    by (intro conjI exI [of _ "V[i := (H, g)]"]) auto
qed

lemma kept_step:
  assumes k: "kept Inv Q s" and i: "i < length (progs s)" and st: "thread_step i s = Some s'"
  shows "kept Inv Q s'"
proof -
  from k obtain V where ok: "system_ok s" and V: "length V = length (progs s)" "\<forall>j<length V. seen Inv Q j s (V ! j)"
    and inv0: "Inv (shared s) (mset V)" by (rule keptE)
  obtain H g where v: "V ! i = (H, g)" by (cases "V ! i")
  have iV: "i < length V" using i V(1) by simp
  have ok': "system_ok s'" by (rule thread_step_ok [OF ok i st])
  have inv: "Inv (shared s) (add_mset (H, g) (others i V))" using inv0 others_split [OF iV] v by simp
  have pi: "proved Inv Q H g (progs s ! i)" "H \<subseteq>\<^sub>m holds i s" using V(2) iV v by (force simp: seen_def)+
  have sub: "fst (V ! j) \<subseteq>\<^sub>m holds j s" if "j < length V" for j using V(2) that by (simp add: seen_def)
  note sh = step_holds [OF ok i st] and ch = kept_change [OF V iV ok']
  show ?thesis
  proof (cases "progs s ! i")
    case (Give r)
    then show ?thesis using sh by simp
  next
    case (Acquire a l p)
    from sh consider "shared s' = shared s" "progs s' = progs s" "\<forall>j. holds j s' = holds j s"
      | "shared s' = shared s" "progs s' = (progs s)[i := p]" "holds i s' = (holds i s)(l \<mapsto> a)"
        "\<forall>j. j \<noteq> i \<longrightarrow> holds j s' = holds j s" using Acquire by auto
    then show ?thesis
    proof cases
      case 1
      then show ?thesis using ok' V inv0 by (auto simp: kept_def seen_def)
    next
      case 2
      from pi(1) obtain H' g' where r: "\<And>c M. Inv c (add_mset (H, g) M) \<Longrightarrow> apart_all (H(l \<mapsto> a)) M \<Longrightarrow>
          Inv c (add_mset (H', g') M)" "H' \<subseteq>\<^sub>m H(l \<mapsto> a)" "proved Inv Q H' g' p"
        unfolding Acquire by (rule provedE(2)) blast
      have le: "H(l \<mapsto> a) \<subseteq>\<^sub>m holds i s'" using pi(2) 2(3) by (simp add: map_le_upd)
      have "apart_all (H(l \<mapsto> a)) (others i V)"
      proof (rule others_apart [OF iV])
        fix j
        assume j: "j \<noteq> i" "j < length V"
        have "apart (holds i s') (holds j s)" using holds_apart [OF ok', of i j] j 2(4) by simp
        then show "apart (H(l \<mapsto> a)) (fst (V ! j))" using le sub [OF j(2)] by (rule apart_mono)
      qed
      then show ?thesis using 2 inv r map_le_trans [OF r(2) le] by (intro ch [of p H' g']) auto
    qed
  next
    case (Release a l p)
    from pi(1) obtain H' g' where r: "\<And>c M. Inv c (add_mset (H, g) M) \<Longrightarrow> Inv c (add_mset (H', g') M)"
      "H' \<subseteq>\<^sub>m H(l := None)" "proved Inv Q H' g' p" unfolding Release by (rule provedE(3)) blast
    have "H(l := None) \<subseteq>\<^sub>m (holds i s)(l := None)" using pi(2) by (auto simp: map_le_def)
    from map_le_trans [OF r(2) this] show ?thesis using sh Release inv r by (intro ch [of p H' g']) auto
  next
    case (Atomic f)
    have "apart_all H (others i V)"
      by (rule others_apart [OF iV]) (use holds_apart [OF ok, of i] apart_mono [OF _ pi(2) sub] in metis)
    then obtain c p H' g' where f: "f (shared s) = Some (c, p)" "H' \<subseteq>\<^sub>m H" "Inv c (add_mset (H', g') (others i V))"
      "proved Inv Q H' g' p" using pi(1) inv unfolding Atomic by (blast elim: provedE(4))
    then show ?thesis using sh Atomic map_le_trans [OF f(2) pi(2)] by (intro ch [of p H' g']) auto
  qed
qed

lemma kept_defined:
  assumes "kept Inv Q s" and i: "i < length (progs s)"
  shows "\<not> undefined_at i s"
proof
  assume "undefined_at i s"
  then obtain f where f: "progs s ! i = Atomic f" "f (shared s) = None" by (auto simp: undefined_at_def)
  from assms(1) obtain V where ok: "system_ok s" and V: "length V = length (progs s)" "\<forall>j<length V. seen Inv Q j s (V ! j)"
    and inv0: "Inv (shared s) (mset V)" by (rule keptE)
  obtain H g where v: "V ! i = (H, g)" by (cases "V ! i")
  have iV: "i < length V" using i V(1) by simp
  have inv: "Inv (shared s) (add_mset (H, g) (others i V))" using inv0 others_split [OF iV] v by simp
  have pi: "proved Inv Q H g (Atomic f)" "H \<subseteq>\<^sub>m holds i s" using V(2) iV v f(1) by (force simp: seen_def)+
  have sub: "fst (V ! j) \<subseteq>\<^sub>m holds j s" if "j < length V" for j using V(2) that by (simp add: seen_def)
  have "apart_all H (others i V)"
    by (rule others_apart [OF iV]) (use holds_apart [OF ok, of i] apart_mono [OF _ pi(2) sub] in metis)
  then show False using f(2) pi(1) inv by (fastforce elim: provedE(4))
qed

text \<open>When all have finished, the invariant holds of threads that hold nothing.\<close>

lemma kept_finished:
  assumes "kept Inv Q s" and "\<forall>i<length (progs s). finished i s"
  shows "\<exists>G. length G = length (progs s) \<and> (\<forall>g \<in> set G. Q g) \<and> Inv (shared s) (mset (map (Pair Map.empty) G))"
proof -
  from assms(1) obtain V where ok: "system_ok s" and V: "length V = length (progs s)" "\<forall>j<length V. seen Inv Q j s (V ! j)"
    and inv: "Inv (shared s) (mset V)" by (rule keptE)
  have e: "fst (V ! i) = Map.empty \<and> Q (snd (V ! i))" if "i < length V" for i
  proof -
    have i: "finished i s" "i < length (progs s)" using assms(2) that V(1) by simp_all
    then obtain r where r: "progs s ! i = Give r" unfolding finished_def by blast
    then have "holds i s = Map.empty" using system_okD(1) [OF ok i(2)] by (simp add: ordered_simps)
    moreover have "fst (V ! i) \<subseteq>\<^sub>m holds i s" "proved Inv Q (fst (V ! i)) (snd (V ! i)) (Give r)"
      using V(2) that r by (auto simp: seen_def)
    ultimately show ?thesis by (auto elim: provedE(1) intro: map_le_antisym)
  qed
  then have "V = map (Pair Map.empty) (map snd V)" by (intro nth_equalityI) (auto simp: prod_eq_iff)
  moreover have "Q g" if "g \<in> set (map snd V)" for g using that e by (fastforce simp: in_set_conv_nth)
  ultimately show ?thesis using V(1) inv by (intro exI [of _ "map snd V"]) simp
qed

lemma kept_schedule:
  "run_schedule sched s = Some s' \<Longrightarrow> kept Inv Q s \<Longrightarrow> set sched \<subseteq> {..<length (progs s)} \<Longrightarrow>
    kept Inv Q s' \<and> length (progs s') = length (progs s)"
proof (induction sched arbitrary: s)
  case (Cons i sched)
  then obtain t where t: "thread_step i s = Some t" "run_schedule sched t = Some s'" by (auto split: option.splits)
  have "kept Inv Q t" using Cons.prems by (intro kept_step [OF _ _ t(1)]) auto
  then show ?case using Cons.IH [OF t(2)] Cons.prems thread_step_length [OF t(1)] by simp
qed simp

text \<open>The programs come with what is recorded of them at the start.\<close>

locale preserving =
  fixes Inv :: "'s \<Rightarrow> ('l :: linorder, 'g) view multiset \<Rightarrow> bool" and Q :: "'g \<Rightarrow> bool"
    and P :: "(('l, 's, 'r) prog \<times> 'g) set"
  assumes in_order: "(p, g) \<in> P \<Longrightarrow> ordered Map.empty p"
    and keeps_inv: "(p, g) \<in> P \<Longrightarrow> proved Inv Q Map.empty g p"

sublocale preserving \<subseteq> disciplined "fst ` P"
  by unfold_locales (use in_order in force)

context preserving
begin

lemma reached_kept:
  assumes "reached c (map fst pgs) s" and "set pgs \<subseteq> P" and "Inv c (mset (map (\<lambda>pg. (Map.empty, snd pg)) pgs))"
  shows "kept Inv Q s \<and> length (progs s) = length pgs"
proof -
  let ?s = "start_system c (map fst pgs)" and ?V = "map (\<lambda>pg. (Map.empty, snd pg)) pgs"
  have ok: "system_ok ?s" by (rule start_ok) (use assms(2) in_order in force)
  have "seen Inv Q i ?s (?V ! i)" if "i < length pgs" for i
    using that keeps_inv [of "fst (pgs ! i)" "snd (pgs ! i)"] subsetD [OF assms(2) nth_mem [OF that]]
    by (simp add: seen_def start_system_def)
  then have "kept Inv Q ?s" unfolding kept_def using ok assms(3)
    by (intro conjI exI [of _ ?V]) (simp_all add: start_system_def)
  then show ?thesis using assms(1) kept_schedule unfolding reached_def by (force simp: start_system_def)
qed

lemma never_undefined:
  assumes "reached c (map fst pgs) s" and "set pgs \<subseteq> P" and "Inv c (mset (map (\<lambda>pg. (Map.empty, snd pg)) pgs))"
    and "i < length pgs"
  shows "\<not> undefined_at i s"
  using reached_kept [OF assms(1-3)] assms(4) kept_defined by metis

lemma all_finish:
  assumes "reached c (map fst pgs) s" and "set pgs \<subseteq> P" and "Inv c (mset (map (\<lambda>pg. (Map.empty, snd pg)) pgs))"
    and "\<nexists>s'. moves s s'"
  shows "(\<forall>i<length pgs. finished i s) \<and>
    (\<exists>G. length G = length pgs \<and> (\<forall>g \<in> set G. Q g) \<and> Inv (shared s) (mset (map (Pair Map.empty) G)))"
proof -
  have "set (map fst pgs) \<subseteq> fst ` P" using assms(2) by auto
  from stuck [OF assms(1) this assms(4)] have "\<forall>i<length pgs. finished i s"
    using never_undefined [OF assms(1-3)] by auto
  then show ?thesis using kept_finished reached_kept [OF assms(1-3)] by metis
qed

end

end
