(* ===== verification/Handler_Invariant.thy ===== *)
theory Handler_Invariant
  imports Handler_Alone Thread_Proofs "HOL-Library.Sublist"
begin

text \<open>
  The invariant that keeps the handlers of the store from using freed memory while they run side by side, and the steps of
  the handlers that keep it.

  A thread records (\<open>ghost\<close>) what it has of a file (\<open>role\<close>: it has looked it up, reads it, writes it, or has taken it out of
  the index to free it), the references to blocks that it has counted and not yet put into a file, or taken over from a
  file it frees (\<open>flight\<close>), the blocks it has created that have no slot yet (\<open>fresh\<close>), its table of blocks by digest
  (\<open>table\<close>), the block it is about to free (\<open>doomed\<close>), and how many blocks it has left to write, and has written for the request
  it serves (\<open>left\<close>, \<open>room\<close>), which bounds counters and offsets.

  \<open>consistent U s M\<close> is the invariant of the shared state \<open>s\<close> and the threads \<open>M\<close>, where \<open>U\<close> are the paths that
  are unlinked: a counter is at least the number of references from indexed files and threads; files outside the
  index belong to the thread that took them out, blocks outside the index to the thread that frees them; live
  blocks with a slot, and free slots, do not overlap.
\<close>

section \<open>What a thread has recorded\<close>

datatype role = Rests | Finds string nat | Reads nat "addr list" | Writes string nat "addr list"
  | Owns bool string nat | Frees nat

record ghost =
  role :: role
  flight :: "addr multiset"
  fresh :: "addr list"
  table :: "(hash \<times> addr) list"
  doomed :: "(addr \<times> bool) option"
  left :: nat
  room :: nat

type_synonym handler_view = "(lock, ghost) view"

definition rests :: "nat \<Rightarrow> ghost" where
  "rests n = \<lparr>role = Rests, flight = {#}, fresh = [], table = [], doomed = None, left = n, room = 0\<rparr>"

fun owned :: "role \<Rightarrow> nat set" where
  "owned (Owns e p f) = {f}"
| "owned (Frees f) = {f}"
| "owned _ = {}"

fun closed :: "role \<Rightarrow> nat set" where
  "closed (Owns e p f) = (if e then {f} else {})"
| "closed (Frees f) = {f}"
| "closed _ = {}"

fun reading :: "role \<Rightarrow> nat set" where
  "reading (Reads f xs) = {f}"
| "reading _ = {}"

fun unlinking :: "role \<Rightarrow> string set" where
  "unlinking (Owns e p f) = {p}"
| "unlinking _ = {}"

definition dooms :: "ghost \<Rightarrow> addr set" where
  "dooms g = fst ` set_option (doomed g)"

definition returned :: "ghost \<Rightarrow> addr set" where
  "returned g = {a. doomed g = Some (a, True)}"

text \<open>What two threads cannot both have.\<close>

definition compatible :: "ghost \<Rightarrow> ghost \<Rightarrow> bool" where
  "compatible g k \<longleftrightarrow> owned (role g) \<inter> owned (role k) = {} \<and> unlinking (role g) \<inter> unlinking (role k) = {} \<and>
     closed (role g) \<inter> reading (role k) = {} \<and> closed (role k) \<inter> reading (role g) = {} \<and>
     dooms g \<inter> dooms k = {} \<and> set (fresh g) \<inter> set (fresh k) = {}"

lemma compatible_sym: "compatible g k = compatible k g"
  by (auto simp: compatible_def)

definition pairs :: "('a \<Rightarrow> 'a \<Rightarrow> bool) \<Rightarrow> 'a multiset \<Rightarrow> bool" where
  "pairs R M \<longleftrightarrow> (\<forall>x y N. M = add_mset x (add_mset y N) \<longrightarrow> R x y)"

lemma pairs_empty [simp]: "pairs R {#}"
  by (simp add: pairs_def)

lemma pairs_add [simp]: "pairs compatible (add_mset x M) \<longleftrightarrow> (\<forall>y \<in># M. compatible x y) \<and> pairs compatible M"
proof (intro iffI conjI ballI)
  assume p: "pairs compatible (add_mset x M)"
  show "compatible x y" if "y \<in># M" for y using p multi_member_split [OF that] by (auto simp: pairs_def)
  show "pairs compatible M" unfolding pairs_def
  proof (intro allI impI)
    fix a b N
    assume "M = add_mset a (add_mset b N)"
    then have "add_mset x M = add_mset a (add_mset b (add_mset x N))" by simp
    then show "compatible a b" using p unfolding pairs_def by blast
  qed
next
  assume p: "(\<forall>y \<in># M. compatible x y) \<and> pairs compatible M"
  show "pairs compatible (add_mset x M)" unfolding pairs_def
  proof (intro allI impI)
    fix a b N
    assume e: "add_mset x M = add_mset a (add_mset b N)"
    then consider "x = a" "M = add_mset b N" | "x = b" "M = add_mset a N"
      | K where "M = add_mset a (add_mset b K)" by (auto simp: add_eq_conv_ex)
    then show "compatible a b" using p compatible_sym by cases (auto simp: pairs_def)
  qed
qed

section \<open>Totals\<close>

definition sum_of :: "(ghost \<Rightarrow> 'a :: comm_monoid_add) \<Rightarrow> handler_view multiset \<Rightarrow> 'a" where
  "sum_of f M = (\<Sum>v \<in># M. f (snd v))"

definition all_of :: "(ghost \<Rightarrow> 'a set) \<Rightarrow> handler_view multiset \<Rightarrow> 'a set" where
  "all_of f M = (\<Union>v \<in> set_mset M. f (snd v))"

lemma sum_of_simps [simp]: "sum_of f {#} = 0" "sum_of f (add_mset v M) = f (snd v) + sum_of f M"
  by (simp_all add: sum_of_def)

lemma all_of_simps [simp]: "all_of f {#} = {}" "all_of f (add_mset v M) = f (snd v) \<union> all_of f M"
  by (simp_all add: all_of_def)

lemma all_ofI: "v \<in># M \<Longrightarrow> x \<in> f (snd v) \<Longrightarrow> x \<in> all_of f M"
  by (auto simp: all_of_def)

lemma sum_of_member: "v \<in># M \<Longrightarrow> count (flight (snd v)) a \<le> count (sum_of flight M) a"
  by (drule multi_member_split) auto

section \<open>The invariant\<close>

text \<open>What a thread has recorded of a file. A path of \<open>U\<close> may leave the index, unless the lock of the index is held.\<close>

fun role_ok :: "string set \<Rightarrow> 'k shared_store \<Rightarrow> (lock \<rightharpoonup> access) \<Rightarrow> addr multiset \<Rightarrow> role \<Rightarrow> bool" where
  "role_ok U s H fl Rests = True"
| "role_ok U s H fl (Finds p f) = (findex s p = Some f \<and> (H File_Index \<noteq> None \<or> p \<notin> U))"
| "role_ok U s H fl (Reads f xs) = (H (File_Lock f) \<noteq> None \<and> (\<exists>m. files s f = Some m \<and> prefix xs (blockList m)))"
| "role_ok U s H fl (Writes p f xs) = (findex s p = Some f \<and> p \<notin> U \<and> (\<exists>m. files s f = Some m \<and> prefix xs (blockList m)))"
| "role_ok U s H fl (Owns e p f) = (p \<in> U \<and> findex s p = None \<and>
     (\<exists>m. files s f = Some m \<and> file_id m = p \<and> fl = mset (blockList m)))"
| "role_ok U s H fl (Frees f) = True"

definition known :: "'k shared_store \<Rightarrow> addr multiset \<Rightarrow> (hash \<times> addr) list \<Rightarrow> bool" where
  "known s fl tab \<longleftrightarrow> (\<forall>(h, a) \<in> set tab. a \<in># fl \<and> (\<exists>b. heap (store s) a = Some b \<and> block_id b = h))"

definition view_ok :: "string set \<Rightarrow> 'k shared_store \<Rightarrow> handler_view \<Rightarrow> bool" where
  "view_ok U s v \<longleftrightarrow> role_ok U s (fst v) (flight (snd v)) (role (snd v)) \<and>
     set (fresh (snd v)) \<subseteq> set_mset (flight (snd v)) \<and> known s (flight (snd v)) (table (snd v))"

definition sized :: "filemeta \<Rightarrow> bool" where
  "sized m \<longleftrightarrow> 0 \<le> logicalSize m \<and> logicalSize m \<le> 4096 * int (length (blockList m)) \<and> logicalSize m \<le> 2 ^ 43"

definition files_inv :: "'k shared_store \<Rightarrow> nat set \<Rightarrow> bool" where
  "files_inv s F \<longleftrightarrow> dom (files s) = ran (findex s) \<union> F \<and> ran (findex s) \<inter> F = {} \<and>
     dom (files s) \<subseteq> {..<next_file s} \<and> finite (dom (findex s)) \<and>
     (\<forall>p q f. findex s p = Some f \<longrightarrow> findex s q = Some f \<longrightarrow> p = q) \<and>
     (\<forall>p f m. findex s p = Some f \<longrightarrow> files s f = Some m \<longrightarrow> file_id m = p) \<and>
     (\<forall>f m. files s f = Some m \<longrightarrow> sized m)"

definition blocks_inv :: "'k Context \<Rightarrow> addr set \<Rightarrow> bool" where
  "blocks_inv c D \<longleftrightarrow> (\<forall>h a. blockIndex c h = Some a \<longrightarrow> a \<notin> D \<and> (\<exists>b. heap c a = Some b \<and> block_id b = h)) \<and>
     (\<forall>a b. heap c a = Some b \<longrightarrow> a < next_addr c \<and> block_size b = 4096 \<and>
       (if a \<in> D then counter b = 0 else blockIndex c (block_id b) = Some a \<and> 0 < counter b)) \<and> D \<subseteq> dom (heap c)"

definition counted :: "'k shared_store \<Rightarrow> addr multiset \<Rightarrow> bool" where
  "counted s fl \<longleftrightarrow> (\<forall>a. int (refs (file_at s) a + count fl a) \<le> ctr (heap (store s)) a)"

definition in_bounds :: "'k Context \<Rightarrow> nat \<Rightarrow> nat \<Rightarrow> bool" where
  "in_bounds c n m \<longleftrightarrow> (\<forall>a. ctr (heap c) a + int n < 2 ^ 31) \<and> next_free_offset c + 4096 * int (n + m) < 2 ^ 63"

definition consistent :: "string set \<Rightarrow> 'k shared_store \<Rightarrow> handler_view multiset \<Rightarrow> bool" where
  "consistent U s M \<longleftrightarrow> files_inv s (all_of (owned \<circ> role) M) \<and> blocks_inv (store s) (all_of dooms M) \<and>
     counted s (sum_of flight M) \<and> in_bounds (store s) (sum_of left M) (sum_of room M) \<and>
     layout_ok (store s) (dom (heap (store s)) - all_of (set \<circ> fresh) M - all_of returned M) \<and>
     (\<forall>v \<in># M. view_ok U s v) \<and> pairs compatible (image_mset snd M)"

lemma consistentD:
  assumes "consistent U s M"
  shows "files_inv s (all_of (owned \<circ> role) M)" "blocks_inv (store s) (all_of dooms M)" "counted s (sum_of flight M)"
    "in_bounds (store s) (sum_of left M) (sum_of room M)"
    "layout_ok (store s) (dom (heap (store s)) - all_of (set \<circ> fresh) M - all_of returned M)"
    "v \<in># M \<Longrightarrow> view_ok U s v" "pairs compatible (image_mset snd M)"
  using assms by (simp_all add: consistent_def)

lemma consistent_mine:
  assumes "consistent U s (add_mset (H, g) M)"
  shows "view_ok U s (H, g)" "v \<in># M \<Longrightarrow> view_ok U s v" "v \<in># M \<Longrightarrow> compatible g (snd v)"
    "pairs compatible (image_mset snd M)"
  using consistentD(6,7) [OF assms] by simp_all

section \<open>Consequences\<close>

lemma flight_live:
  assumes "consistent U s M" and "v \<in># M" and "a \<in># flight (snd v)"
  shows "\<exists>b. heap (store s) a = Some b \<and> blockIndex (store s) (block_id b) = Some a \<and> a \<notin> all_of dooms M"
proof -
  have "0 < count (sum_of flight M) a" using sum_of_member [OF assms(2), of a] assms(3) by (metis count_greater_zero_iff less_le_trans)
  moreover have "int (refs (file_at s) a + count (sum_of flight M) a) \<le> ctr (heap (store s)) a"
    using assms(1) by (simp add: consistent_def counted_def)
  ultimately have "0 < ctr (heap (store s)) a" by linarith
  then obtain b where b: "heap (store s) a = Some b" "0 < counter b" by (cases "heap (store s) a") (simp_all add: ctr_def)
  moreover have "blocks_inv (store s) (all_of dooms M)" using assms(1) by (simp add: consistent_def)
  then have "if a \<in> all_of dooms M then counter b = 0 else blockIndex (store s) (block_id b) = Some a"
    using b(1) by (fastforce simp: blocks_inv_def split: if_splits)
  ultimately show ?thesis by (auto split: if_splits)
qed

text \<open>The blocks of a file that is being read are live, whether the file is still indexed or not.\<close>

lemma file_blocks_live:
  assumes c: "consistent U s (add_mset (H, g) M)" and f: "files s f = Some m" and a: "a \<in> set (blockList m)"
    and r: "f \<in> reading (role g) \<or> f \<in> ran (findex s)"
  shows "\<exists>b. heap (store s) a = Some b"
proof (cases "f \<in> ran (findex s)")
  case True
  then obtain p where p: "findex s p = Some f" by (auto simp: ran_def)
  then have "file_at s p = Some m" using f by (simp add: file_at_def)
  moreover have "dom (file_at s) \<subseteq> dom (findex s)" by (auto simp: file_at_def dom_def split: option.splits)
  then have "finite (dom (file_at s))" using c by (auto simp: consistent_def files_inv_def intro: finite_subset)
  ultimately have "count_list (blockList m) a \<le> refs (file_at s) a" by (intro refs_ge)
  moreover have "0 < count_list (blockList m) a" using a by (metis count_list_0_iff gr0I)
  moreover have "int (refs (file_at s) a + count (sum_of flight (add_mset (H, g) M)) a) \<le> ctr (heap (store s)) a"
    using c unfolding consistent_def counted_def by blast
  ultimately have "0 < ctr (heap (store s)) a" by linarith
  then show ?thesis by (cases "heap (store s) a") (simp_all add: ctr_def)
next
  case False
  then have r: "f \<in> reading (role g)" using r by blast
  have "f \<in> all_of (owned \<circ> role) (add_mset (H, g) M)" using c f False by (auto simp: consistent_def files_inv_def)
  moreover have "f \<notin> owned (role g)" using r by (cases "role g") auto
  ultimately obtain v where v: "v \<in># M" "f \<in> owned (role (snd v))" by (auto simp: all_of_def)
  have "compatible g (snd v)" "view_ok U s v" using c v(1) by (auto simp: consistent_def)
  then have "f \<notin> closed (role (snd v))" "view_ok U s v" using r by (auto simp: compatible_def)
  then have "a \<in># flight (snd v)" using v(2) f a by (cases "role (snd v)") (auto simp: view_ok_def)
  then show ?thesis using flight_live [OF c, of v a] v(1) by auto
qed

section \<open>Frames\<close>

lemma store_frame [simp]:
  "files_inv (set_store c s) F = files_inv s F" "role_ok U (set_store c s) H fl r = role_ok U s H fl r"
  "counted (set_store c s) fl \<longleftrightarrow> (\<forall>a. int (refs (file_at s) a + count fl a) \<le> ctr (heap c) a)"
  "known (set_store c s) fl tab \<longleftrightarrow> (\<forall>(h, a) \<in> set tab. a \<in># fl \<and> (\<exists>b. heap c a = Some b \<and> block_id b = h))"
  by (simp_all add: files_inv_def counted_def known_def) (cases r; simp)

lemma kern_frame [simp]:
  "blocks_inv (c\<lparr>kern := k\<rparr>) D = blocks_inv c D" "in_bounds (c\<lparr>kern := k\<rparr>) n m = in_bounds c n m"
  by (simp_all add: blocks_inv_def in_bounds_def)

lemma consistent_kern [simp]: "consistent U (set_store ((store s)\<lparr>kern := k\<rparr>) s) M = consistent U s M"
  by (simp add: consistent_def view_ok_def) (simp add: counted_def known_def)

lemma layout_ok_cong:
  assumes "layout_ok c S" and "\<And>a. a \<in> S \<Longrightarrow> boff c' a = boff c a" and "freeList c' = freeList c"
    and "next_free_offset c' = next_free_offset c"
  shows "layout_ok c' S"
proof -
  have "boff c' ` S = boff c ` S" "inj_on (boff c') S = inj_on (boff c) S" using assms(2) by (auto cong: inj_on_cong)
  then show ?thesis using assms unfolding layout_ok_def slot_ok_def by simp
qed

text \<open>Identity of live blocks is all that a thread knows of the heap.\<close>

definition heap_keeps :: "'k Context \<Rightarrow> 'k Context \<Rightarrow> bool" where
  "heap_keeps c c' \<longleftrightarrow> (\<forall>a b. heap c a = Some b \<longrightarrow> (\<exists>b'. heap c' a = Some b' \<and> block_id b' = block_id b))"

lemma view_ok_heap: "view_ok U s v \<Longrightarrow> heap_keeps (store s) c \<Longrightarrow> view_ok U (set_store c s) v"
  by (fastforce simp: view_ok_def known_def heap_keeps_def)

lemma counted_mono:
  assumes "counted s fl" and "fl' \<subseteq># fl"
  shows "counted s fl'"
proof -
  have "int (refs (file_at s) a + count fl' a) \<le> int (refs (file_at s) a + count fl a)" for a
    using mset_subset_eq_count [OF assms(2)] by simp
  then show ?thesis using assms(1) unfolding counted_def by (meson order_trans)
qed

lemma in_bounds_mono:
  assumes "in_bounds c n m" and "n' \<le> n" and "m' \<le> m"
  shows "in_bounds c n' m'"
  unfolding in_bounds_def
proof (intro conjI allI)
  have b: "ctr (heap c) a + int n < 2 ^ 31" "next_free_offset c + 4096 * int (n + m) < 2 ^ 63" for a
    using assms(1) by (simp_all add: in_bounds_def)
  show "ctr (heap c) a + int n' < 2 ^ 31" for a using b(1) [of a] assms(2) by linarith
  show "next_free_offset c + 4096 * int (n' + m') < 2 ^ 63" by (rule le_less_trans [OF _ b(2)]) (use assms(2,3) in simp)
qed

text \<open>A thread changes what it has recorded, and the locks it holds, and nothing else.\<close>

lemma reassign:
  assumes c: "consistent U s (add_mset (H, g) M)" and v: "view_ok U s (H', g')"
    and same: "owned (role g') = owned (role g)" "doomed g' = doomed g" "fresh g' = fresh g"
    and less: "left g' \<le> left g" "room g' \<le> room g" "flight g' \<subseteq># flight g"
    and comp: "\<forall>v \<in># M. compatible g' (snd v)"
  shows "consistent U s (add_mset (H', g') M)"
proof -
  have "counted s (sum_of flight (add_mset (H', g') M))"
    by (rule counted_mono [OF consistentD(3) [OF c]]) (simp add: less(3))
  moreover have "in_bounds (store s) (sum_of left (add_mset (H', g') M)) (sum_of room (add_mset (H', g') M))"
    by (rule in_bounds_mono [OF consistentD(4) [OF c]]) (simp_all add: less)
  moreover have "dooms g' = dooms g" "returned g' = returned g" using same by (simp_all add: dooms_def returned_def)
  moreover note consistentD(1,2,5) [OF c] consistent_mine [OF c]
  ultimately show ?thesis using v same(1,3) comp by (simp add: consistent_def)
qed

section \<open>Steps on the blocks\<close>

lemma consistent_blocks:
  assumes c: "consistent U s (add_mset (H, g) M)" and keeps: "heap_keeps (store s) c'" and r: "role g' = role g"
    and b: "blocks_inv c' (dooms g' \<union> all_of dooms M)"
    and n: "\<And>a. int (count (flight g') a) - int (count (flight g) a) \<le> ctr (heap c') a - ctr (heap (store s)) a"
    and i: "in_bounds c' (left g' + sum_of left M) (room g' + sum_of room M)"
    and l: "layout_ok c' (dom (heap c') - (set (fresh g') \<union> all_of (set \<circ> fresh) M) - (returned g' \<union> all_of returned M))"
    and v: "view_ok U (set_store c' s) (H, g')" and comp: "\<forall>v \<in># M. compatible g' (snd v)"
  shows "consistent U (set_store c' s) (add_mset (H, g') M)"
proof -
  have "counted (set_store c' s) (sum_of flight (add_mset (H, g') M))"
    unfolding store_frame
  proof
    fix a
    have "int (refs (file_at s) a + count (sum_of flight (add_mset (H, g) M)) a) \<le> ctr (heap (store s)) a"
      using consistentD(3) [OF c] by (simp add: counted_def)
    then show "int (refs (file_at s) a + count (sum_of flight (add_mset (H, g') M)) a) \<le> ctr (heap c') a"
      using n [of a] by simp
  qed
  moreover have "view_ok U (set_store c' s) w" if "w \<in># M" for w
    using consistent_mine(2) [OF c that] keeps by (rule view_ok_heap)
  moreover have "files_inv (set_store c' s) (all_of (owned \<circ> role) (add_mset (H, g') M))"
    using consistentD(1) [OF c] r by simp
  ultimately show ?thesis using b i l v comp consistent_mine(4) [OF c] by (simp add: consistent_def)
qed

text \<open>What the locals of the lookup loop have to do with the record.\<close>

definition tracks :: "write_locals \<Rightarrow> ghost \<Rightarrow> bool" where
  "tracks l g \<longleftrightarrow> flight g = mset (newBlocksInfo l) \<and> fresh g = my_created_blocks l \<and> table g = lockedBlocks l \<and>
     room g = length (newBlocksInfo l) \<and> snd ` set (lockedBlocks l) = set (newBlocksInfo l) \<and>
     distinct (map fst (lockedBlocks l)) \<and> distinct (map snd (lockedBlocks l)) \<and> doomed g = None"

definition took :: "write_locals \<Rightarrow> ghost \<Rightarrow> ghost" where
  "took l g = g\<lparr>flight := mset (newBlocksInfo l), fresh := my_created_blocks l, table := lockedBlocks l,
     left := left g - 1, room := length (newBlocksInfo l)\<rparr>"

lemma note_tracks:
  assumes t: "tracks l g" and k: "known s (flight g) (table g)" and a: "heap (store s) a = Some b" "block_id b = h"
    and inj: "\<And>a' b'. heap (store s) a' = Some b' \<Longrightarrow> block_id b' = h \<Longrightarrow> a' \<in># flight g \<Longrightarrow> a' = a"
    and l: "l' = note_block a h (l\<lparr>my_created_blocks := cs\<rparr>)"
  shows "tracks l' (took l' g)" "known s (flight (took l' g)) (table (took l' g))"
proof -
  have k': "x \<in># flight g \<and> (\<exists>b. heap (store s) x = Some b \<and> block_id b = d)" if "(d, x) \<in> set (lockedBlocks l)" for d x
    using k t that by (auto simp: known_def tracks_def)
  have key: "(h, x) \<in> set (lockedBlocks l) \<Longrightarrow> x = a" for x using inj k' by blast
  have val: "(d, a) \<in> set (lockedBlocks l) \<Longrightarrow> d = h" for d using k' a by fastforce
  have new: "a \<notin> snd ` set (lockedBlocks l)" "h \<notin> fst ` set (lockedBlocks l)" if "map_of (lockedBlocks l) h = None"
    using that val by (auto simp: map_of_eq_None_iff image_iff)
  have old: "a \<in> snd ` set (lockedBlocks l)" if m: "map_of (lockedBlocks l) h = Some x" for x
    using key map_of_SomeD [OF m] by force
  show "tracks l' (took l' g)" using t new old unfolding tracks_def took_def l note_block_def
    by (cases "map_of (lockedBlocks l) h") (auto simp: insert_absorb)
  show "known s (flight (took l' g)) (table (took l' g))" using t a k' unfolding known_def tracks_def took_def l note_block_def
    by (auto simp: insert_absorb split: if_splits)
qed

lemma blocks_invD:
  assumes "blocks_inv c D"
  shows "blockIndex c h = Some a \<Longrightarrow> a \<notin> D \<and> (\<exists>b. heap c a = Some b \<and> block_id b = h)"
    "heap c a = Some b \<Longrightarrow> a < next_addr c \<and> block_size b = 4096"
    "heap c a = Some b \<Longrightarrow> a \<notin> D \<Longrightarrow> blockIndex c (block_id b) = Some a \<and> 0 < counter b"
    "heap c a = Some b \<Longrightarrow> a \<in> D \<Longrightarrow> counter b = 0"
    "D \<subseteq> dom (heap c)"
  using assms unfolding blocks_inv_def by (blast, metis, metis, metis, blast)

lemma blocks_inv_count:
  assumes bi: "blocks_inv c D" and a: "heap c a = Some b" "a \<notin> D" "0 < n"
  shows "blocks_inv (c\<lparr>heap := (heap c)(a \<mapsto> b\<lparr>counter := n\<rparr>)\<rparr>) D"
  unfolding blocks_inv_def
proof (intro conjI allI impI)
  let ?c = "c\<lparr>heap := (heap c)(a \<mapsto> b\<lparr>counter := n\<rparr>)\<rparr>"
  fix h x
  assume "blockIndex ?c h = Some x"
  then show "x \<notin> D" "\<exists>y. heap ?c x = Some y \<and> block_id y = h" using blocks_invD(1) [OF bi, of h x] a by auto
next
  let ?c = "c\<lparr>heap := (heap c)(a \<mapsto> b\<lparr>counter := n\<rparr>)\<rparr>"
  fix x y
  assume "heap ?c x = Some y"
  then show "x < next_addr ?c" "block_size y = 4096"
    "if x \<in> D then counter y = 0 else blockIndex ?c (block_id y) = Some x \<and> 0 < counter y"
    using blocks_invD(2-4) [OF bi, of x] blocks_invD(2,3) [OF bi a(1)] a by (auto split: if_splits)
qed (use blocks_invD(5) [OF bi] a in auto)

lemma took_simps [simp]:
  "role (took l g) = role g" "flight (took l g) = mset (newBlocksInfo l)" "fresh (took l g) = my_created_blocks l"
  "table (took l g) = lockedBlocks l" "doomed (took l g) = doomed g" "left (took l g) = left g - 1"
  "room (took l g) = length (newBlocksInfo l)" "dooms (took l g) = dooms g" "returned (took l g) = returned g"
  by (simp_all add: took_def dooms_def returned_def)

lemma in_bounds_took:
  assumes "in_bounds c (n + k) (m + j)" and "0 < n" and h: "\<And>x. ctr (heap c') x \<le> ctr (heap c) x + 1"
    and "next_free_offset c' = next_free_offset c"
  shows "in_bounds c' (n - 1 + k) (Suc m + j)"
  unfolding in_bounds_def
proof (intro conjI allI)
  fix x
  have "ctr (heap c) x + int (n + k) < 2 ^ 31" using assms(1) by (simp add: in_bounds_def)
  moreover have "int (n + k) = int (n - 1 + k) + 1" using assms(2) by simp
  ultimately show "ctr (heap c') x + int (n - 1 + k) < 2 ^ 31" using h [of x] by linarith
next
  have "n - 1 + k + (Suc m + j) = n + k + (m + j)" using assms(2) by simp
  then show "next_free_offset c' + 4096 * int (n - 1 + k + (Suc m + j)) < 2 ^ 63"
    using assms(1,4) by (simp only: in_bounds_def)
qed

lemma role_ok_flight: "owned r = {} \<Longrightarrow> role_ok U s H fl r = role_ok U s H fl' r"
  by (cases r) auto

lemma acquire_shared:
  assumes c: "consistent U s (add_mset (H, g) M)" and t: "tracks l g" and n: "0 < left g" and o: "owned (role g) = {}"
    and a: "blockIndex (store s) h = Some a"
  shows "\<exists>c' l'. acquire_block h (store s) l = Some (c', l') \<and> tracks l' (took l' g) \<and>
    consistent U (set_store c' s) (add_mset (H, took l' g) M)"
proof -
  have bi: "blocks_inv (store s) (dooms g \<union> all_of dooms M)" using consistentD(2) [OF c] by simp
  obtain b where b: "heap (store s) a = Some b" "block_id b = h" "a \<notin> dooms g \<union> all_of dooms M"
    using bi a unfolding blocks_inv_def by blast
  have bd: "counter b + int (left g + sum_of left M) < 2 ^ 31"
    using consistentD(4) [OF c] b(1) by (auto simp: in_bounds_def dest!: spec [of _ a])
  have pos: "0 < counter b" using blocks_invD(3) [OF bi b(1,3)] by simp
  let ?b = "b\<lparr>counter := counter b + 1\<rparr>"
  let ?c = "(store s)\<lparr>heap := (heap (store s))(a \<mapsto> ?b)\<rparr>" and ?l = "note_block a h l"
  have s32: "s32 (counter b + 1) = counter b + 1" using pos bd n by (intro s32_id) auto
  have e: "acquire_block h (store s) l = Some (?c, ?l)" using a b(1,2) s32 by (simp add: acquire_block_def)
  have kn: "known s (flight g) (table g)" using consistent_mine(1) [OF c] by (simp add: view_ok_def)
  have uniq: "a' = a" if "heap (store s) a' = Some b'" "block_id b' = h" "a' \<in># flight g" for a' b'
    using flight_live [OF c, of "(H, g)" a'] that a by auto
  have nt: "tracks ?l (took ?l g)" "known s (flight (took ?l g)) (table (took ?l g))"
    using note_tracks [OF t kn b(1,2) uniq, where l' = ?l and cs = "my_created_blocks l"] by simp_all
  have hk: "heap_keeps (store s) ?c" using b(1) by (auto simp: heap_keeps_def)
  have "consistent U (set_store ?c s) (add_mset (H, took ?l g) M)"
  proof (rule consistent_blocks [OF c hk])
    show "blocks_inv ?c (dooms (took ?l g) \<union> all_of dooms M)"
      using blocks_inv_count [OF bi b(1,3)] pos by simp
    show "int (count (flight (took ?l g)) x) - int (count (flight g) x) \<le> ctr (heap ?c) x - ctr (heap (store s)) x" for x
      using t b(1) by (simp add: tracks_def note_block_def)
    show "in_bounds ?c (left (took ?l g) + sum_of left M) (room (took ?l g) + sum_of room M)"
    proof -
      have "room (took ?l g) = Suc (room g)" using t by (simp add: tracks_def note_block_def)
      moreover have "in_bounds ?c (left g - 1 + sum_of left M) (Suc (room g) + sum_of room M)"
        by (rule in_bounds_took [of "store s"]) (use consistentD(4) [OF c] n b(1) in simp_all)
      ultimately show ?thesis by simp
    qed
    have d: "dom (heap ?c) = dom (heap (store s))" using b(1) by auto
    have f: "fresh (took ?l g) = fresh g" using t by (simp add: tracks_def note_block_def)
    have "layout_ok (store s) (dom (heap (store s)) - (set (fresh g) \<union> all_of (set \<circ> fresh) M) - (returned g \<union> all_of returned M))"
      using consistentD(5) [OF c] by simp
    then show "layout_ok ?c (dom (heap ?c) - (set (fresh (took ?l g)) \<union> all_of (set \<circ> fresh) M) -
        (returned (took ?l g) \<union> all_of returned M))"
      unfolding d f took_simps(9) by (rule layout_ok_cong) (use b(1) in \<open>simp_all add: boff_def\<close>)
    show "view_ok U (set_store ?c s) (H, took ?l g)"
      using consistent_mine(1) [OF c] t nt(2) role_ok_flight [OF o, of U s H "flight g" "flight (took ?l g)"] b(1)
      by (auto simp: view_ok_def tracks_def note_block_def known_def)
    show "\<forall>v \<in># M. compatible (took ?l g) (snd v)"
      using consistent_mine(3) [OF c] t by (auto simp: compatible_def tracks_def note_block_def)
  qed simp
  then show ?thesis using e nt(1) by blast
qed

lemma blocks_inv_fresh: "blocks_inv c D \<Longrightarrow> heap c (next_addr c) = None"
  using blocks_invD(2) by (cases "heap c (next_addr c)") (simp, blast)

lemma blocks_inv_create:
  assumes bi: "blocks_inv c D" and h: "blockIndex c h = None"
  shows "blocks_inv (c\<lparr>heap := (heap c)(next_addr c \<mapsto> new_block h), next_addr := Suc (next_addr c),
    blockIndex := (blockIndex c)(h \<mapsto> next_addr c)\<rparr>) D" (is "blocks_inv ?c D")
  unfolding blocks_inv_def
proof (intro conjI allI impI)
  note new = blocks_inv_fresh [OF bi]
  have D: "next_addr c \<notin> D" using blocks_invD(5) [OF bi] new by auto
  show "D \<subseteq> dom (heap ?c)" using blocks_invD(5) [OF bi] by auto
  fix d x
  assume "blockIndex ?c d = Some x"
  then show "x \<notin> D" "\<exists>y. heap ?c x = Some y \<and> block_id y = d" using blocks_invD(1) [OF bi, of d x] new D
    by (auto simp: new_block_def split: if_splits)
next
  fix x y
  assume y: "heap ?c x = Some y"
  have "next_addr c \<notin> D" using blocks_invD(5) [OF bi] blocks_inv_fresh [OF bi] by auto
  moreover have "block_id y \<noteq> h" if "x \<noteq> next_addr c" "x \<notin> D" using blocks_invD(3) [OF bi, of x y] y that h by auto
  ultimately show "x < next_addr ?c" "block_size y = 4096"
    "if x \<in> D then counter y = 0 else blockIndex ?c (block_id y) = Some x \<and> 0 < counter y"
    using blocks_invD(2-4) [OF bi, of x y] y by (auto simp: new_block_def split: if_splits)
qed

lemma acquire_created:
  assumes c: "consistent U s (add_mset (H, g) M)" and t: "tracks l g" and n: "0 < left g" and o: "owned (role g) = {}"
    and h: "blockIndex (store s) h = None"
  shows "\<exists>c' l'. acquire_block h (store s) l = Some (c', l') \<and> tracks l' (took l' g) \<and>
    consistent U (set_store c' s) (add_mset (H, took l' g) M)"
proof -
  let ?a = "next_addr (store s)"
  let ?c = "(store s)\<lparr>heap := (heap (store s))(?a \<mapsto> new_block h), next_addr := Suc ?a,
    blockIndex := (blockIndex (store s))(h \<mapsto> ?a)\<rparr>"
  let ?l = "note_block ?a h (l\<lparr>my_created_blocks := my_created_blocks l @ [?a]\<rparr>)"
  have bi: "blocks_inv (store s) (dooms g \<union> all_of dooms M)" using consistentD(2) [OF c] by simp
  note new = blocks_inv_fresh [OF bi]
  have e: "acquire_block h (store s) l = Some (?c, ?l)" using h by (simp add: acquire_block_def Let_def)
  have live: "x \<noteq> ?a" if "v \<in># add_mset (H, g) M" "x \<in># flight (snd v)" for v x
    using flight_live [OF c that] new by auto
  have D: "?a \<notin> dooms g \<union> all_of dooms M" using blocks_invD(5) [OF bi] new by auto
  have kn: "known s (flight g) (table g)" using consistent_mine(1) [OF c] by (simp add: view_ok_def)
  have hk: "heap_keeps (store s) ?c" using new by (auto simp: heap_keeps_def)
  have kn': "known (set_store ?c s) (flight g) (table g)" using kn hk by (fastforce simp: known_def heap_keeps_def)
  have a: "heap (store (set_store ?c s)) ?a = Some (new_block h)" "block_id (new_block h) = h" by (simp_all add: new_block_def)
  have uniq: "x = ?a" if "heap (store (set_store ?c s)) x = Some y" "block_id y = h" "x \<in># flight g" for x y
    using flight_live [OF c, of "(H, g)" x] that h by (auto split: if_splits)
  have nt: "tracks ?l (took ?l g)" "known (set_store ?c s) (flight (took ?l g)) (table (took ?l g))"
    using note_tracks [OF t kn' a uniq, where l' = ?l and cs = "my_created_blocks l @ [?a]"] by simp_all
  have f: "set (fresh (took ?l g)) = insert ?a (set (fresh g))" using t by (simp add: tracks_def note_block_def)
  have others: "?a \<notin> all_of (set \<circ> fresh) M" "?a \<notin> returned g \<union> all_of returned M"
  proof -
    show "?a \<notin> all_of (set \<circ> fresh) M"
    proof
      assume "?a \<in> all_of (set \<circ> fresh) M"
      then obtain v where v: "v \<in># M" "?a \<in> set (fresh (snd v))" by (auto simp: all_of_def)
      then have "?a \<in># flight (snd v)" using consistent_mine(2) [OF c v(1)] by (auto simp: view_ok_def)
      then show False using live [of v] v(1) by auto
    qed
    show "?a \<notin> returned g \<union> all_of returned M" using D by (auto simp: returned_def dooms_def all_of_def)
  qed
  have "consistent U (set_store ?c s) (add_mset (H, took ?l g) M)"
  proof (rule consistent_blocks [OF c hk])
    show "blocks_inv ?c (dooms (took ?l g) \<union> all_of dooms M)"
      using blocks_inv_create [OF bi h] by simp
    show "int (count (flight (took ?l g)) x) - int (count (flight g) x) \<le> ctr (heap ?c) x - ctr (heap (store s)) x" for x
      using t new by (simp add: tracks_def note_block_def new_block_def) (simp add: ctr_def)
    show "in_bounds ?c (left (took ?l g) + sum_of left M) (room (took ?l g) + sum_of room M)"
    proof -
      have "room (took ?l g) = Suc (room g)" using t by (simp add: tracks_def note_block_def)
      moreover have "in_bounds ?c (left g - 1 + sum_of left M) (Suc (room g) + sum_of room M)"
        by (rule in_bounds_took [of "store s"]) (use consistentD(4) [OF c] n new in \<open>simp_all add: new_block_def ctr_def\<close>)
      ultimately show ?thesis by simp
    qed
    have d: "dom (heap ?c) - (set (fresh (took ?l g)) \<union> all_of (set \<circ> fresh) M) = 
        dom (heap (store s)) - (set (fresh g) \<union> all_of (set \<circ> fresh) M)" using new f by auto
    have "layout_ok (store s) (dom (heap (store s)) - (set (fresh g) \<union> all_of (set \<circ> fresh) M) - (returned g \<union> all_of returned M))"
      using consistentD(5) [OF c] by simp
    then show "layout_ok ?c (dom (heap ?c) - (set (fresh (took ?l g)) \<union> all_of (set \<circ> fresh) M) -
        (returned (took ?l g) \<union> all_of returned M))"
      unfolding d took_simps(9) by (rule layout_ok_cong) (use new in \<open>auto simp: boff_def\<close>)
    show "view_ok U (set_store ?c s) (H, took ?l g)"
      using consistent_mine(1) [OF c] t nt(2) f role_ok_flight [OF o, of U s H "flight g" "flight (took ?l g)"]
      by (auto simp: view_ok_def tracks_def note_block_def)
    show "\<forall>v \<in># M. compatible (took ?l g) (snd v)"
      using consistent_mine(3) [OF c] f others(1) by (auto simp: compatible_def all_of_def)
  qed simp
  then show ?thesis using e nt(1) by blast
qed

lemma acquire_step:
  assumes "consistent U s (add_mset (H, g) M)" and "tracks l g" and "0 < left g" and "owned (role g) = {}"
  shows "\<exists>c' l'. acquire_block h (store s) l = Some (c', l') \<and> tracks l' (took l' g) \<and>
    consistent U (set_store c' s) (add_mset (H, took l' g) M)"
  using acquire_shared [OF assms] acquire_created [OF assms] by (cases "blockIndex (store s) h") blast+

text \<open>The new blocks get their slots.\<close>

lemma assign_offsets_room:
  assumes "assign_offsets created as c = Some c'" and "\<forall>a b. heap c a = Some b \<longrightarrow> block_size b = 4096"
    and "0 \<le> next_free_offset c" and "next_free_offset c + 4096 * int (length as) < 2 ^ 63"
  shows "next_free_offset c' \<le> next_free_offset c + 4096 * int (length as)"
  using assms
proof (induction as arbitrary: c)
  case (Cons a as)
  from Cons.prems(1) obtain d where d: "assign_offset created a c = Some d" "assign_offsets created as d = Some c'"
    by (auto split: option.splits)
  have n: "s64 (next_free_offset c + 4096) = next_free_offset c + 4096"
    using Cons.prems(3,4) by (intro s64_id) simp_all
  have h: "\<forall>x y. heap d x = Some y \<longrightarrow> block_size y = 4096"
    and l: "next_free_offset c \<le> next_free_offset d" "next_free_offset d \<le> next_free_offset c + 4096"
    using d(1) Cons.prems(2) n by (auto simp: assign_offset_def split: if_splits option.splits)
  have "next_free_offset c' \<le> next_free_offset d + 4096 * int (length as)"
    using l Cons.prems(3,4) by (intro Cons.IH [OF d(2) h]) simp_all
  then show ?case using l by simp
qed simp

lemma place_step:
  assumes c: "consistent U s (add_mset (H, g) M)" and t: "tracks l g" and o: "owned (role g) = {}"
    and ord: "distinct order" "set order = snd ` set (lockedBlocks l)"
  shows "\<exists>c'. assign_offsets (my_created_blocks l) order (store s) = Some c' \<and>
    consistent U (set_store c' s) (add_mset (H, g\<lparr>fresh := [], table := [], room := 0\<rparr>) M)"
proof -
  let ?g = "g\<lparr>fresh := [], table := [], room := 0\<rparr>"
  let ?F = "all_of (set \<circ> fresh) M" and ?R = "returned g \<union> all_of returned M"
  let ?S = "dom (heap (store s)) - (set (fresh g) \<union> ?F) - ?R"
  have tr: "fresh g = my_created_blocks l" "flight g = mset (newBlocksInfo l)" "room g = length (newBlocksInfo l)"
    "set order = set (newBlocksInfo l)" using t ord(2) by (simp_all add: tracks_def)
  have bi: "blocks_inv (store s) (dooms g \<union> all_of dooms M)" using consistentD(2) [OF c] by simp
  have bd: "in_bounds (store s) (left g + sum_of left M) (room g + sum_of room M)" using consistentD(4) [OF c] by simp
  have lay: "layout_ok (store s) ?S" using consistentD(5) [OF c] by simp
  have live: "\<exists>b. heap (store s) a = Some b \<and> block_size b = 4096" if "a \<in> set order" for a
    using flight_live [OF c, of "(H, g)" a] blocks_invD(2) [OF bi] that tr by fastforce
  have sub: "set (my_created_blocks l) \<subseteq> set order" using consistent_mine(1) [OF c] tr by (simp add: view_ok_def)
  have len: "length order \<le> room g" using distinct_card [OF ord(1)] card_length [of "newBlocksInfo l"] tr by simp
  have nf: "next_free_offset (store s) + 4096 * int (length order) < 2 ^ 63"
    by (rule le_less_trans [OF _ conjunct2 [OF bd [unfolded in_bounds_def]]]) (use len in simp)
  obtain c' where c': "assign_offsets (my_created_blocks l) order (store s) = Some c'"
    "layout_ok c' (?S \<union> (set order \<inter> set (my_created_blocks l)))" "off_frame (store s) c'"
    using assign_offsets_placed [OF lay _ ord(1) live nf, of "my_created_blocks l"] tr by auto
  have nfo: "next_free_offset c' \<le> next_free_offset (store s) + 4096 * int (length order)"
    using blocks_invD(2) [OF bi] lay by (intro assign_offsets_room [OF c'(1) _ _ nf]) (auto simp: layout_ok_def)
  have hk: "heap_keeps (store s) c'" using off_frame_Some [OF off_frame_sym [OF c'(3)]] by (force simp: heap_keeps_def)
  have "consistent U (set_store c' s) (add_mset (H, ?g) M)"
  proof (rule consistent_blocks [OF c hk])
    have "blocks_inv c' (dooms g \<union> all_of dooms M)" unfolding blocks_inv_def
    proof (intro conjI allI impI)
      note fr = off_frame_Some [OF c'(3)] off_frame_Some [OF off_frame_sym [OF c'(3)]]
      have same: "blockIndex c' = blockIndex (store s)" "next_addr c' = next_addr (store s)"
        using c'(3) by (simp_all add: off_frame_def)
      show "dooms g \<union> all_of dooms M \<subseteq> dom (heap c')" using blocks_invD(5) [OF bi] off_frame_dom [OF c'(3)] by simp
      show "a \<notin> dooms g \<union> all_of dooms M" "\<exists>b. heap c' a = Some b \<and> block_id b = h" if "blockIndex c' h = Some a" for h a
        using blocks_invD(1) [OF bi, of h a] that fr(2) unfolding same by fastforce+
      fix a b
      assume "heap c' a = Some b"
      then obtain b0 where b0: "heap (store s) a = Some b0" "block_id b = block_id b0" "block_size b = block_size b0"
        "counter b = counter b0" using fr(1) by blast
      then show "a < next_addr c'" "block_size b = 4096"
        "if a \<in> dooms g \<union> all_of dooms M then counter b = 0 else blockIndex c' (block_id b) = Some a \<and> 0 < counter b"
        using blocks_invD(2-4) [OF bi b0(1)] unfolding same by auto
    qed
    then show "blocks_inv c' (dooms ?g \<union> all_of dooms M)" by (simp add: dooms_def)
    show "int (count (flight ?g) a) - int (count (flight g) a) \<le> ctr (heap c') a - ctr (heap (store s)) a" for a
      using off_frame_ctr [OF c'(3)] by simp
    show "in_bounds c' (left ?g + sum_of left M) (room ?g + sum_of room M)"
      using bd len nfo unfolding in_bounds_def off_frame_ctr [OF c'(3)] by simp
    have "set (fresh g) \<inter> ?F = {}" using consistent_mine(3) [OF c] by (auto simp: compatible_def all_of_def)
    moreover have "a \<notin> ?R" if "a \<in> set order" for a
      using flight_live [OF c, of "(H, g)" a] that tr by (auto simp: returned_def dooms_def all_of_def)
    moreover have "set (fresh g) \<subseteq> dom (heap (store s))" using live sub tr(1) by fastforce
    ultimately have "?S \<union> (set order \<inter> set (my_created_blocks l)) = dom (heap c') - (set (fresh ?g) \<union> ?F) - (returned ?g \<union> all_of returned M)"
      using sub tr(1) unfolding off_frame_dom [OF c'(3)] by (auto simp: returned_def)
    then show "layout_ok c' (dom (heap c') - (set (fresh ?g) \<union> ?F) - (returned ?g \<union> all_of returned M))"
      using c'(2) by simp
    show "view_ok U (set_store c' s) (H, ?g)" using consistent_mine(1) [OF c] by (auto simp: view_ok_def)
    show "\<forall>v \<in># M. compatible ?g (snd v)" using consistent_mine(3) [OF c] by (auto simp: compatible_def dooms_def)
  qed simp
  then show ?thesis using c'(1) by blast
qed

end
