(* ===== verification/Handler_Steps.thy ===== *)
theory Handler_Steps
  imports Handler_Invariant
begin

text \<open>
  The steps of the handlers on files, and those of \<^verbatim>\<open>xmp_unlink\<close> on blocks, keep the invariant of \<open>Handler_Invariant\<close>: a file is
  created, extended, taken out of the index, put back and freed; the counter of a block is lowered, its slot
  goes to the free list, and it is freed.
\<close>

section \<open>Files of the index\<close>

lemma files_invD:
  assumes "files_inv s F"
  shows "dom (files s) = ran (findex s) \<union> F" "ran (findex s) \<inter> F = {}" "files s f \<noteq> None \<Longrightarrow> f < next_file s"
    "finite (dom (findex s))" "findex s p = Some f \<Longrightarrow> findex s q = Some f \<Longrightarrow> p = q"
    "findex s p = Some f \<Longrightarrow> files s f = Some m \<Longrightarrow> file_id m = p" "files s f = Some m \<Longrightarrow> sized m"
  using assms unfolding files_inv_def by (auto simp: dom_def)

lemma indexed_file:
  assumes "files_inv s F" and "findex s p = Some f"
  shows "f \<notin> F" "\<exists>m. files s f = Some m \<and> file_at s p = Some m \<and> sized m \<and> file_id m = p"
proof -
  have "f \<in> ran (findex s)" using assms(2) by (auto simp: ran_def)
  then show "f \<notin> F" using files_invD(2) [OF assms(1)] by blast
  have "f \<in> dom (files s)" using \<open>f \<in> ran (findex s)\<close> files_invD(1) [OF assms(1)] by blast
  then obtain m where "files s f = Some m" by blast
  then show "\<exists>m. files s f = Some m \<and> file_at s p = Some m \<and> sized m \<and> file_id m = p"
    using files_invD(6,7) [OF assms(1)] assms(2) by (auto simp: file_at_def)
qed

lemma finite_file_at: "files_inv s F \<Longrightarrow> finite (dom (file_at s))"
  by (rule finite_subset [of _ "dom (findex s)"]) (auto simp: file_at_def files_inv_def split: option.splits)

lemma not_owned:
  assumes "consistent U s M" and "findex s p = Some f" and "v \<in># M"
  shows "f \<notin> owned (role (snd v))"
proof -
  have "f \<notin> all_of (owned \<circ> role) M" using indexed_file(1) [OF consistentD(1) [OF assms(1)] assms(2)] .
  then show ?thesis using assms(3) by (auto simp: all_of_def)
qed

text \<open>A file changes under the thread that writes it.\<close>

lemma file_at_update:
  assumes i: "files_inv s F" and p: "findex s p = Some f"
  shows "file_at (set_file f m s) = (file_at s)(p \<mapsto> m)"
proof
  fix q
  show "file_at (set_file f m s) q = ((file_at s)(p \<mapsto> m)) q"
    using files_invD(5) [OF i p, of q] p by (cases "q = p") (auto simp: file_at_def split: option.splits)
qed

lemma write_file_step:
  assumes c: "consistent U s (add_mset (H, g) M)" and r: "role g = Writes p f xs" and t: "table g = []" "fresh g = []"
    and m: "files s f = Some m" "file_id m' = file_id m" "sized m'" "blockList m' = blockList m @ as"
    and A: "mset as \<subseteq># flight g"
  shows "consistent U (set_file f m' s) (add_mset (H, g\<lparr>flight := flight g - mset as, role := Writes p f (blockList m')\<rparr>) M)"
    (is "consistent U ?s (add_mset (H, ?g) M)")
proof -
  have fi: "files_inv s (all_of (owned \<circ> role) M)" using consistentD(1) [OF c] r by simp
  have p: "findex s p = Some f" "p \<notin> U" using consistent_mine(1) [OF c] r by (simp_all add: view_ok_def)
  have fa: "file_at ?s = (file_at s)(p \<mapsto> m')" by (rule file_at_update [OF fi p(1)])
  have old: "file_at s p = Some m" using p m(1) by (simp add: file_at_def)
  have dom: "dom (files ?s) = dom (files s)" using m(1) by auto
  note D = files_invD [OF fi]
  have "files_inv ?s (all_of (owned \<circ> role) M)" unfolding files_inv_def dom
  proof (intro conjI allI impI)
    show "file_id x = q" if "findex ?s q = Some e" "files ?s e = Some x" for q e x
      using that D(6) [of q e] D(6) [of q f m] m(1,2) by (cases "e = f") auto
    show "sized x" if "files ?s e = Some x" for e x using that D(7) [of e x] m(3) by (cases "e = f") auto
  qed (use D(1-4) D(5) in auto)
  moreover have "counted ?s (sum_of flight (add_mset (H, ?g) M))" unfolding counted_def
  proof
    fix a
    have "int (refs (file_at s) a + count (flight g + sum_of flight M) a) \<le> ctr (heap (store s)) a"
      using consistentD(3) [OF c] by (simp add: counted_def)
    moreover have "refs ((file_at s)(p \<mapsto> m')) a + count_list (blockList m) a = refs (file_at s) a + count_list (blockList m') a"
      by (rule refs_replace [OF finite_file_at [OF fi] old])
    then have "refs (file_at ?s) a = refs (file_at s) a + count_list as a" unfolding fa m(4) by simp
    moreover have "count_list as a \<le> count (flight g) a" using mset_subset_eq_count [OF A, of a] by (simp add: count_mset)
    ultimately show "int (refs (file_at ?s) a + count (sum_of flight (add_mset (H, ?g) M)) a) \<le> ctr (heap (store ?s)) a"
      by (simp add: count_mset)
  qed
  moreover have "view_ok U ?s v" if "v \<in># M" for v
  proof -
    have k: "known ?s = known s" by (simp add: known_def fun_eq_iff)
    have "f \<notin> owned (role (snd v))" using not_owned [OF c p(1), of v] that by simp
    then show ?thesis using consistent_mine(2) [OF c that] m(1,4) unfolding view_ok_def k
      by (cases "role (snd v)") (auto simp: prefix_def)
  qed
  moreover have "view_ok U ?s (H, ?g)" using p t by (simp add: view_ok_def known_def)
  moreover have "\<forall>v \<in># M. compatible ?g (snd v)" using consistent_mine(3) [OF c] r by (auto simp: compatible_def dooms_def)
  moreover note consistentD(2,4,5) [OF c] consistent_mine(4) [OF c]
  ultimately show ?thesis using r by (simp add: consistent_def dooms_def returned_def)
qed

text \<open>A new file of a path that is not unlinked.\<close>

lemma create_step:
  assumes c: "consistent U s (add_mset (H, rests n) M)" and new: "findex s p = None" "p \<notin> U"
  shows "consistent U (snd (find_or_create p s)) (add_mset (H, (rests n)\<lparr>role := Finds p (next_file s)\<rparr>) M)"
    (is "consistent U ?s (add_mset (H, ?g) M)")
proof -
  let ?f = "next_file s"
  have fi: "files_inv s (all_of (owned \<circ> role) M)" using consistentD(1) [OF c] by (simp add: rests_def)
  note D = files_invD [OF fi]
  have nf: "files s ?f = None" using D(3) by (metis less_irrefl)
  then have nr: "?f \<notin> ran (findex s)" "?f \<notin> all_of (owned \<circ> role) M" using D(1) by auto
  have s: "findex ?s = (findex s)(p \<mapsto> ?f)" "files ?s = (files s)(?f \<mapsto> new_file p)" "next_file ?s = Suc ?f" "store ?s = store s"
    using new(1) by (simp_all add: find_or_create_def)
  have fa: "file_at ?s = (file_at s)(p \<mapsto> new_file p)"
  proof
    fix q
    have "findex s q \<noteq> Some ?f" using nr(1) by (auto simp: ran_def)
    then show "file_at ?s q = ((file_at s)(p \<mapsto> new_file p)) q" by (auto simp: file_at_def s split: option.splits)
  qed
  have fp: "file_at s p = None" using new(1) by (simp add: file_at_def)
  have "files_inv ?s (all_of (owned \<circ> role) M)" unfolding files_inv_def
  proof (intro conjI allI impI)
    show "dom (files ?s) = ran (findex ?s) \<union> all_of (owned \<circ> role) M" "ran (findex ?s) \<inter> all_of (owned \<circ> role) M = {}"
      using D(1,2) new(1) nr by (auto simp: s)
    show "dom (files ?s) \<subseteq> {..<next_file ?s}" using D(3) by (fastforce simp: s less_Suc_eq)
    show "finite (dom (findex ?s))" using D(4) by (simp add: s)
    show "a = b" if "findex ?s a = Some f" "findex ?s b = Some f" for a b f
      using that D(5) [of a f b] nr(1) by (auto simp: s ranI split: if_splits)
    show "file_id m = a" if "findex ?s a = Some f" "files ?s f = Some m" for a f m
      using that D(6) [of a f m] nr(1) by (auto simp: s new_file_def ranI split: if_splits)
    show "sized m" if "files ?s f = Some m" for f m
      using that D(7) [of f m] by (auto simp: s new_file_def sized_def split: if_splits)
  qed
  moreover have "counted ?s (sum_of flight M)"
    using consistentD(3) [OF c] refs_insert [OF finite_file_at [OF fi] fp]
    by (simp add: counted_def s fa rests_def new_file_def)
  moreover have "view_ok U ?s v" if "v \<in># M" for v
  proof -
    have "known ?s = known s" by (simp add: known_def s fun_eq_iff)
    then show ?thesis using consistent_mine(2) [OF c that] new nf unfolding view_ok_def
      by (cases "role (snd v)") (auto simp: s)
  qed
  moreover have "view_ok U ?s (H, ?g)" using new(2) by (simp add: view_ok_def known_def rests_def s)
  moreover have "\<forall>v \<in># M. compatible ?g (snd v)" using consistent_mine(3) [OF c] by (auto simp: compatible_def dooms_def rests_def)
  moreover note consistentD(2,4,5) [OF c] consistent_mine(4) [OF c]
  ultimately show ?thesis by (simp add: consistent_def dooms_def returned_def rests_def s)
qed

section \<open>Taking a file out of the index\<close>

lemma take_step:
  assumes c: "consistent U s (add_mset (H, rests n) M)" and ap: "apart_all H M" and h: "H File_Index = Some Writing"
    and p: "findex s p = Some f" "p \<in> U" and m: "files s f = Some m"
  shows "consistent U (s\<lparr>findex := (findex s)(p := None)\<rparr>)
    (add_mset (H, (rests n)\<lparr>role := Owns False p f, flight := mset (blockList m)\<rparr>) M)" (is "consistent U ?s (add_mset (H, ?g) M)")
proof -
  have fi: "files_inv s (all_of (owned \<circ> role) M)" using consistentD(1) [OF c] by (simp add: rests_def)
  note D = files_invD [OF fi] and ix = indexed_file [OF fi p(1)]
  have id: "file_id m = p" and fp: "file_at s p = Some m" using ix(2) m by auto
  have other: "findex s q \<noteq> Some f" if "q \<noteq> p" for q using D(5) [OF p(1)] that by blast
  have fa: "file_at ?s = (file_at s)(p := None)" by (auto simp: file_at_def fun_eq_iff split: option.splits)
  have rn: "ran ((findex s)(p := None)) = ran (findex s) - {f}" using other p(1) by (auto simp: ran_def) (metis option.inject)
  have fr: "f \<in> ran (findex s)" using p(1) by (rule ranI)
  have "files_inv ?s (insert f (all_of (owned \<circ> role) M))" unfolding files_inv_def
    using D(1,2,4) D(3) rn fr by (auto simp: D(5-7) split: if_splits)
  moreover have "counted ?s (mset (blockList m) + sum_of flight M)" unfolding counted_def
  proof
    fix a
    have "refs ((file_at s)(p := None)) a + count_list (blockList m) a = refs (file_at s) a"
      by (rule refs_delete [OF finite_file_at [OF fi] fp])
    then show "int (refs (file_at ?s) a + count (mset (blockList m) + sum_of flight M) a) \<le> ctr (heap (store ?s)) a"
      using consistentD(3) [OF c] by (simp add: counted_def fa count_mset rests_def) (metis add.assoc add.commute of_nat_add)
  qed
  moreover have "view_ok U ?s v" if v: "v \<in># M" for v
  proof -
    have k: "known ?s = known s" by (simp add: known_def fun_eq_iff)
    obtain K k' where w: "v = (K, k')" by (cases v)
    have "K File_Index = None" using apart_allD [OF ap _ h] v unfolding w by blast
    then show ?thesis using consistent_mine(2) [OF c v] p(2) unfolding view_ok_def k w
      by (cases "role k'") auto
  qed
  moreover have "view_ok U ?s (H, ?g)" using p(2) m id by (simp add: view_ok_def known_def rests_def)
  moreover have "compatible ?g (snd v)" if v: "v \<in># M" for v
  proof -
    have "f \<notin> owned (role (snd v))" using not_owned [OF c p(1), of v] v by simp
    moreover have "p \<notin> unlinking (role (snd v))" using consistent_mine(2) [OF c v] p(1)
      by (cases "role (snd v)") (auto simp: view_ok_def)
    ultimately show ?thesis using consistent_mine(3) [OF c v] by (auto simp: compatible_def dooms_def rests_def)
  qed
  moreover note consistentD(2,4,5) [OF c] consistent_mine(4) [OF c]
  ultimately show ?thesis by (simp add: consistent_def dooms_def returned_def rests_def)
qed

text \<open>Putting it back when the \<^verbatim>\<open>unlink\<close> failed: nobody has created the path anew.\<close>

lemma put_back_step:
  assumes c: "consistent U s (add_mset (H, g) M)"
    and g: "g = (rests n)\<lparr>role := Owns e p f, flight := fl\<rparr>"
  shows "consistent U (insert_file p f s) (add_mset (H, rests n) M)" (is "consistent U ?s _")
proof -
  have fi: "files_inv s (insert f (all_of (owned \<circ> role) M))" using consistentD(1) [OF c] by (simp add: g rests_def)
  note D = files_invD [OF fi]
  obtain m where p: "p \<in> U" "findex s p = None" and m: "files s f = Some m" "file_id m = p" "fl = mset (blockList m)"
    using consistent_mine(1) [OF c] by (auto simp: g view_ok_def rests_def)
  have mine: "f \<notin> all_of (owned \<circ> role) M" using consistent_mine(3) [OF c] by (auto simp: g compatible_def all_of_def)
  have nf: "findex s q \<noteq> Some f" for q using D(2) by (auto simp: ran_def)
  have s: "findex ?s = (findex s)(p \<mapsto> f)" "files ?s = files s" "next_file ?s = next_file s" "store ?s = store s"
    using p(2) by (simp_all add: insert_file_def)
  have fa: "file_at ?s = (file_at s)(p \<mapsto> m)" using m(1) by (auto simp: file_at_def s fun_eq_iff split: option.splits)
  have fp: "file_at s p = None" using p(2) by (simp add: file_at_def)
  have "files_inv ?s (all_of (owned \<circ> role) M)" unfolding files_inv_def
  proof (intro conjI allI impI)
    show "dom (files ?s) = ran (findex ?s) \<union> all_of (owned \<circ> role) M" "ran (findex ?s) \<inter> all_of (owned \<circ> role) M = {}"
      using D(1,2) p(2) mine by (auto simp: s)
    show "dom (files ?s) \<subseteq> {..<next_file ?s}" using D(3) by (auto simp: s)
    show "finite (dom (findex ?s))" using D(4) by (simp add: s)
    show "a = b" if "findex ?s a = Some x" "findex ?s b = Some x" for a b x
      using that D(5) [of a x b] nf by (auto simp: s split: if_splits)
    show "file_id y = a" if "findex ?s a = Some x" "files ?s x = Some y" for a x y
      using that D(6) [of a x y] m by (auto simp: s split: if_splits)
    show "sized y" if "files ?s x = Some y" for x y using that D(7) by (simp add: s)
  qed
  moreover have "counted ?s (sum_of flight M)" unfolding counted_def
  proof
    fix a
    have "int (refs (file_at s) a + count (fl + sum_of flight M) a) \<le> ctr (heap (store s)) a"
      using consistentD(3) [OF c] by (simp add: counted_def g)
    then show "int (refs (file_at ?s) a + count (sum_of flight M) a) \<le> ctr (heap (store ?s)) a"
      using refs_insert [OF finite_file_at [OF fi] fp, of m a] by (simp add: fa s m(3) count_mset)
  qed
  moreover have "view_ok U ?s v" if v: "v \<in># M" for v
  proof -
    have k: "known ?s = known s" by (simp add: known_def s fun_eq_iff)
    have "p \<notin> unlinking (role (snd v))" using consistent_mine(3) [OF c v] by (simp add: g compatible_def)
    then show ?thesis using consistent_mine(2) [OF c v] p(2) unfolding view_ok_def k
      by (cases "role (snd v)") (auto simp: s)
  qed
  moreover have "view_ok U ?s (H, rests n)" by (simp add: view_ok_def known_def rests_def)
  moreover have "\<forall>v \<in># M. compatible (rests n) (snd v)"
    using consistent_mine(3) [OF c] by (auto simp: compatible_def dooms_def rests_def g)
  moreover note consistentD(2,4,5) [OF c] consistent_mine(4) [OF c]
  ultimately show ?thesis by (simp add: consistent_def dooms_def returned_def rests_def s g)
qed

text \<open>Freeing the file: its owner is the last that knows of it.\<close>

lemma free_file_step:
  assumes c: "consistent U s (add_mset (H, g) M)" and g: "g = (rests n)\<lparr>role := Frees f, flight := fl\<rparr>"
  shows "consistent U (free_file f s) (add_mset (H, rests n) M)" (is "consistent U ?s _")
proof -
  have fi: "files_inv s (insert f (all_of (owned \<circ> role) M))" using consistentD(1) [OF c] by (simp add: g rests_def)
  note D = files_invD [OF fi]
  have mine: "f \<notin> all_of (owned \<circ> role) M" using consistent_mine(3) [OF c] by (auto simp: g compatible_def all_of_def)
  have nf: "findex s q \<noteq> Some f" for q using D(2) by (auto simp: ran_def)
  have s: "findex ?s = findex s" "files ?s = (files s)(f := None)" "next_file ?s = next_file s" "store ?s = store s"
    by (simp_all add: free_file_def)
  have fa: "file_at ?s = file_at s" using nf by (auto simp: file_at_def s fun_eq_iff split: option.splits)
  have "files_inv ?s (all_of (owned \<circ> role) M)" unfolding files_inv_def
  proof (intro conjI allI impI)
    show "dom (files ?s) = ran (findex ?s) \<union> all_of (owned \<circ> role) M" using D(1,2) mine by (auto simp: s)
    show "ran (findex ?s) \<inter> all_of (owned \<circ> role) M = {}" using D(2) by (auto simp: s)
    show "dom (files ?s) \<subseteq> {..<next_file ?s}" using D(3) by (auto simp: s)
    show "a = b" if "findex ?s a = Some x" "findex ?s b = Some x" for a b x using that D(5) by (simp add: s)
    show "file_id y = a" if "findex ?s a = Some x" "files ?s x = Some y" for a x y
      using that D(6) by (simp add: s split: if_splits)
    show "sized y" if "files ?s x = Some y" for x y using that D(7) [of x y] by (simp add: s split: if_splits)
  qed (use D(4) in \<open>simp add: s\<close>)
  moreover have "counted ?s (sum_of flight M)"
    using counted_mono [OF consistentD(3) [OF c], of "sum_of flight M"] by (simp add: counted_def fa s)
  moreover have "view_ok U ?s v" if v: "v \<in># M" for v
  proof -
    have k: "known ?s = known s" by (simp add: known_def s fun_eq_iff)
    have "f \<notin> owned (role (snd v))" "f \<notin> reading (role (snd v))"
      using consistent_mine(3) [OF c v] by (auto simp: g compatible_def)
    then show ?thesis using consistent_mine(2) [OF c v] nf unfolding view_ok_def k
      by (cases "role (snd v)") (auto simp: s)
  qed
  moreover have "view_ok U ?s (H, rests n)" by (simp add: view_ok_def known_def rests_def)
  moreover have "\<forall>v \<in># M. compatible (rests n) (snd v)"
    using consistent_mine(3) [OF c] by (auto simp: compatible_def dooms_def rests_def g)
  moreover note consistentD(2,4,5) [OF c] consistent_mine(4) [OF c]
  ultimately show ?thesis by (simp add: consistent_def dooms_def returned_def rests_def s g)
qed

section \<open>Releasing a block\<close>

definition frees :: "nat \<Rightarrow> nat \<Rightarrow> addr multiset \<Rightarrow> (addr \<times> bool) option \<Rightarrow> ghost" where
  "frees n f fl d = (rests n)\<lparr>role := Frees f, flight := fl, doomed := d\<rparr>"

lemma frees_simps [simp]:
  "role (frees n f fl d) = Frees f" "flight (frees n f fl d) = fl" "fresh (frees n f fl d) = []"
  "table (frees n f fl d) = []" "doomed (frees n f fl d) = d" "left (frees n f fl d) = n" "room (frees n f fl d) = 0"
  by (simp_all add: frees_def rests_def)

lemma frees_sets [simp]:
  "dooms (frees n f fl None) = {}" "dooms (frees n f fl (Some (a, b))) = {a}" "returned (frees n f fl None) = {}"
  "returned (frees n f fl (Some (a, True))) = {a}" "returned (frees n f fl (Some (a, False))) = {}"
  by (auto simp: dooms_def returned_def)

lemma frees_view: "view_ok U s (H, frees n f fl d)"
  by (simp add: view_ok_def known_def)

lemma frees_compatible:
  assumes "compatible (frees n f fl d) k" and "dooms (frees n f fl' d') \<inter> dooms k = {}"
  shows "compatible (frees n f fl' d') k"
  using assms by (simp add: compatible_def)

text \<open>Lowering the counter by the number of references that the file had, and taking the block out of its index at zero.\<close>

lemma lower_step:
  fixes H :: "lock \<rightharpoonup> access"
  assumes c: "consistent U s (add_mset (H, frees n f fl None) M)" and a: "a \<in># fl"
  defines "fl' \<equiv> filter_mset (\<lambda>x. x \<noteq> a) fl"
  shows "\<exists>b. heap (store s) a = Some b \<and>
    (let n' = counter b - int (count fl a); c' = (store s)\<lparr>heap := (heap (store s))(a \<mapsto> b\<lparr>counter := n'\<rparr>)\<rparr> in
     s32 n' = n' \<and>
     (n' \<noteq> 0 \<longrightarrow> consistent U (set_store c' s) (add_mset (H, frees n f fl' None) M)) \<and>
     (n' = 0 \<longrightarrow> consistent U (set_store (c'\<lparr>blockIndex := (blockIndex c')(block_id b := None)\<rparr>) s)
        (add_mset (H, frees n f fl' (Some (a, False))) M)))"
proof -
  let ?D = "all_of dooms M"
  obtain b where b: "heap (store s) a = Some b" "blockIndex (store s) (block_id b) = Some a" "a \<notin> ?D"
    using flight_live [OF c, of "(H, frees n f fl None)" a] a by auto
  define n' where "n' = counter b - int (count fl a)"
  let ?c = "(store s)\<lparr>heap := (heap (store s))(a \<mapsto> b\<lparr>counter := n'\<rparr>)\<rparr>"
  let ?d = "?c\<lparr>blockIndex := (blockIndex ?c)(block_id b := None)\<rparr>"
  have bi: "blocks_inv (store s) ?D" and bd: "in_bounds (store s) (n + sum_of left M) (sum_of room M)"
    using consistentD(2,4) [OF c] by simp_all
  have ge: "int (refs (file_at s) x + count (fl + sum_of flight M) x) \<le> ctr (heap (store s)) x" for x
    using consistentD(3) [OF c] by (simp add: counted_def)
  have n0: "0 \<le> n'" using ge [of a] b(1) by (simp add: n'_def)
  have up: "counter b < 2 ^ 31" using bd b(1) by (auto simp: in_bounds_def dest!: spec [of _ a])
  have s32: "s32 n' = n'" using n0 up by (intro s32_id) (simp_all add: n'_def)
  have cnt: "int (count fl' x) - int (count fl x) \<le> ctr (heap ?c) x - ctr (heap (store s)) x" for x
    using b(1) by (simp add: fl'_def n'_def)
  have bd': "in_bounds ?c (n + sum_of left M) (sum_of room M)" unfolding in_bounds_def
  proof (intro conjI allI)
    show "ctr (heap ?c) x + int (n + sum_of left M) < 2 ^ 31" for x
    proof -
      have "ctr (heap (store s)) x + int (n + sum_of left M) < 2 ^ 31" using bd by (simp only: in_bounds_def)
      moreover have "ctr (heap ?c) x \<le> ctr (heap (store s)) x" using b(1) by (simp add: n'_def)
      ultimately show ?thesis by linarith
    qed
  qed (use bd in \<open>simp add: in_bounds_def\<close>)
  have lay: "layout_ok (store s) (dom (heap (store s)) - all_of (set \<circ> fresh) M - all_of returned M)"
    using consistentD(5) [OF c] by simp
  have d: "dom ((heap (store s))(a \<mapsto> x)) = dom (heap (store s))" for x using b(1) by auto
  have lay': "layout_ok c' (dom (heap (store s)) - all_of (set \<circ> fresh) M - all_of returned M)" if "c' = ?c \<or> c' = ?d" for c'
    by (rule layout_ok_cong [OF lay]) (use that b(1) in \<open>auto simp: boff_def\<close>)
  have one: "consistent U (set_store ?c s) (add_mset (H, frees n f fl' None) M)" if "n' \<noteq> 0"
  proof (rule consistent_blocks [OF c])
    show "blocks_inv ?c (dooms (frees n f fl' None) \<union> ?D)" using blocks_inv_count [OF bi b(1,3)] n0 that by simp
    show "\<forall>v \<in># M. compatible (frees n f fl' None) (snd v)" using consistent_mine(3) [OF c] frees_compatible by fastforce
    show "heap_keeps (store s) ?c" using b(1) by (auto simp: heap_keeps_def)
  qed (use cnt bd' lay' [of ?c] d in \<open>simp_all add: frees_view\<close>)
  have two: "consistent U (set_store ?d s) (add_mset (H, frees n f fl' (Some (a, False))) M)" if z: "n' = 0"
  proof (rule consistent_blocks [OF c])
    have "blocks_inv ?d (insert a ?D)" unfolding blocks_inv_def
    proof (intro conjI allI impI)
      show "insert a ?D \<subseteq> dom (heap ?d)" using blocks_invD(5) [OF bi] by auto
      show "x \<notin> insert a ?D" "\<exists>y. heap ?d x = Some y \<and> block_id y = h" if "blockIndex ?d h = Some x" for h x
        using blocks_invD(1) [OF bi, of h x] that b by (auto split: if_splits)
      fix x y
      assume y: "heap ?d x = Some y"
      have "block_id y \<noteq> block_id b" if "x \<noteq> a" "x \<notin> ?D" using blocks_invD(3) [OF bi, of x y] y that b(2) by auto
      then show "x < next_addr ?d" "block_size y = 4096"
        "if x \<in> insert a ?D then counter y = 0 else blockIndex ?d (block_id y) = Some x \<and> 0 < counter y"
        using blocks_invD(2-4) [OF bi, of x y] blocks_invD(2) [OF bi b(1)] y z by (auto split: if_splits)
    qed
    then show "blocks_inv ?d (dooms (frees n f fl' (Some (a, False))) \<union> ?D)" by simp
    have "compatible (frees n f fl' (Some (a, False))) (snd v)" if "v \<in># M" for v
    proof -
      have "a \<notin> dooms (snd v)" using b(3) that by (auto simp: all_of_def)
      then show ?thesis using frees_compatible [OF consistent_mine(3) [OF c that]] by simp
    qed
    then show "\<forall>v \<in># M. compatible (frees n f fl' (Some (a, False))) (snd v)" by blast
    show "heap_keeps (store s) ?d" using b(1) by (auto simp: heap_keeps_def)
  qed (use cnt bd' lay' [of ?d] d in \<open>simp_all add: frees_view in_bounds_def\<close>)
  show ?thesis using b(1) s32 one two unfolding n'_def Let_def by (intro exI [of _ b]) simp
qed

text \<open>Its slot goes to the free list.\<close>

lemma layout_ok_return:
  assumes lay: "layout_ok c S" and a: "a \<in> S" "heap c a = Some b"
  shows "layout_ok (c\<lparr>freeList := freeList c @ [block_offset b]\<rparr>) (S - {a})" (is "layout_ok ?c _")
proof -
  have inj: "inj_on (boff c) S" and dj: "boff c ` S \<inter> set (freeList c) = {}" and dist: "distinct (freeList c)"
    and slot: "\<And>off. off \<in> boff c ` S \<union> set (freeList c) \<Longrightarrow> slot_ok c off" using lay by (auto simp: layout_ok_def)
  have o: "block_offset b = boff c a" using a(2) by simp
  have e: "boff (c\<lparr>freeList := l\<rparr>) = boff c" for l by (simp add: boff_def fun_eq_iff)
  have "boff c a \<notin> boff c ` (S - {a})" using inj a(1) by (auto simp: inj_on_def)
  then have "boff ?c ` (S - {a}) \<inter> set (freeList ?c) = {}" using dj by (auto simp: e o)
  moreover have "distinct (freeList ?c)" using dist dj a(1) by (auto simp: o)
  moreover have "inj_on (boff ?c) (S - {a})" using inj by (simp add: e inj_on_diff)
  moreover have "slot_ok ?c off" if "off \<in> boff ?c ` (S - {a}) \<union> set (freeList ?c)" for off
    using slot [of off] that a(1) by (auto simp: e o slot_ok_def)
  ultimately show ?thesis using lay by (simp add: layout_ok_def)
qed

lemma return_step:
  fixes H :: "lock \<rightharpoonup> access"
  assumes c: "consistent U s (add_mset (H, frees n f fl (Some (a, False))) M)"
  shows "\<exists>b. heap (store s) a = Some b \<and>
    consistent U (set_store ((store s)\<lparr>freeList := freeList (store s) @ [block_offset b]\<rparr>) s)
      (add_mset (H, frees n f fl (Some (a, True))) M)"
proof -
  let ?D = "insert a (all_of dooms M)" and ?S = "dom (heap (store s)) - all_of (set \<circ> fresh) M - all_of returned M"
  have bi: "blocks_inv (store s) ?D" and bd: "in_bounds (store s) (n + sum_of left M) (sum_of room M)"
    and lay: "layout_ok (store s) ?S" using consistentD(2,4,5) [OF c] by simp_all
  obtain b where b: "heap (store s) a = Some b" using blocks_invD(5) [OF bi] by blast
  let ?c = "(store s)\<lparr>freeList := freeList (store s) @ [block_offset b]\<rparr>"
  have "a \<notin> set (fresh (snd v))" "a \<notin> returned (snd v)" if v: "v \<in># M" for v
  proof -
    have "a \<notin># flight (snd v)" using flight_live [OF c, of v a] v by auto
    then show "a \<notin> set (fresh (snd v))" using consistent_mine(2) [OF c v] by (auto simp: view_ok_def)
    show "a \<notin> returned (snd v)" using consistent_mine(3) [OF c v] by (auto simp: compatible_def dooms_def returned_def)
  qed
  then have "a \<in> ?S" using b by (auto simp: all_of_def)
  moreover have e: "dom (heap (store s)) - all_of (set \<circ> fresh) M - insert a (all_of returned M) = ?S - {a}" by auto
  ultimately have lay': "layout_ok ?c (dom (heap (store s)) - all_of (set \<circ> fresh) M - insert a (all_of returned M))"
    unfolding e by (intro layout_ok_return [OF lay _ b])
  have "consistent U (set_store ?c s) (add_mset (H, frees n f fl (Some (a, True))) M)"
  proof (rule consistent_blocks [OF c])
    show "blocks_inv ?c (dooms (frees n f fl (Some (a, True))) \<union> all_of dooms M)" using bi by (simp add: blocks_inv_def)
    show "\<forall>v \<in># M. compatible (frees n f fl (Some (a, True))) (snd v)"
      using consistent_mine(3) [OF c] by (auto simp: compatible_def)
  qed (use bd lay' in \<open>simp_all add: frees_view heap_keeps_def in_bounds_def\<close>)
  then show ?thesis using b by blast
qed

text \<open>\<^verbatim>\<open>freeBlockMeta\<close>: no thread knows of the block any more.\<close>

lemma drop_step:
  fixes H :: "lock \<rightharpoonup> access"
  assumes c: "consistent U s (add_mset (H, frees n f fl (Some (a, True))) M)"
  shows "consistent U (set_store ((store s)\<lparr>heap := (heap (store s))(a := None)\<rparr>) s) (add_mset (H, frees n f fl None) M)"
proof -
  let ?D = "insert a (all_of dooms M)" and ?c = "(store s)\<lparr>heap := (heap (store s))(a := None)\<rparr>"
  let ?R = "insert a (all_of returned M)"
  have bi: "blocks_inv (store s) ?D" and bd: "in_bounds (store s) (n + sum_of left M) (sum_of room M)"
    and lay: "layout_ok (store s) (dom (heap (store s)) - all_of (set \<circ> fresh) M - ?R)"
    using consistentD(2,4,5) [OF c] by simp_all
  obtain b where b: "heap (store s) a = Some b" using blocks_invD(5) [OF bi] by blast
  have z: "counter b = 0" using blocks_invD(4) [OF bi b] by simp
  have ct: "ctr (heap ?c) = ctr (heap (store s))" using b z by (auto simp: fun_eq_iff)
  have D: "a \<notin> all_of dooms M" using consistent_mine(3) [OF c] by (auto simp: compatible_def all_of_def)
  have "blocks_inv ?c (all_of dooms M)" unfolding blocks_inv_def
  proof (intro conjI allI impI)
    show "all_of dooms M \<subseteq> dom (heap ?c)" using blocks_invD(5) [OF bi] D by auto
    show "x \<notin> all_of dooms M" "\<exists>y. heap ?c x = Some y \<and> block_id y = h" if "blockIndex ?c h = Some x" for h x
      using blocks_invD(1) [OF bi, of h x] that by auto
    show "x < next_addr ?c" "block_size y = 4096"
      "if x \<in> all_of dooms M then counter y = 0 else blockIndex ?c (block_id y) = Some x \<and> 0 < counter y"
      if "heap ?c x = Some y" for x y using blocks_invD(2-4) [OF bi, of x y] that by (auto split: if_splits)
  qed
  moreover have "counted (set_store ?c s) (sum_of flight (add_mset (H, frees n f fl None) M))"
    using consistentD(3) [OF c] unfolding store_frame ct by (simp add: counted_def)
  moreover have "in_bounds ?c (n + sum_of left M) (sum_of room M)" using bd unfolding in_bounds_def ct by simp
  moreover have "layout_ok ?c (dom (heap ?c) - all_of (set \<circ> fresh) M - all_of returned M)"
  proof -
    have "dom (heap ?c) - all_of (set \<circ> fresh) M - all_of returned M = dom (heap (store s)) - all_of (set \<circ> fresh) M - ?R" by auto
    then show ?thesis using layout_ok_cong [OF lay, of ?c] by (simp add: boff_def)
  qed
  moreover have "view_ok U (set_store ?c s) v" if v: "v \<in># M" for v
  proof -
    have "a \<notin># flight (snd v)" using flight_live [OF c, of v a] v by auto
    then show ?thesis using consistent_mine(2) [OF c v] by (auto simp: view_ok_def known_def)
  qed
  moreover have "\<forall>v \<in># M. compatible (frees n f fl None) (snd v)"
    using consistent_mine(3) [OF c] by (auto simp: compatible_def)
  moreover note consistentD(1) [OF c] consistent_mine(4) [OF c] frees_view
  ultimately show ?thesis by (simp add: consistent_def)
qed

end
