(* ===== verification/Handler_Safety.thy ===== *)
theory Handler_Safety
  imports Handler_Steps
begin

text \<open>
  Every step of \<^verbatim>\<open>xmp_getattr\<close>, \<^verbatim>\<open>xmp_read\<close> and \<^verbatim>\<open>xmp_write\<close> is defined and keeps the invariant of
  \<open>Handler_Invariant\<close>, whatever the other threads do in between: \<open>safely U n H g p\<close> is \<open>proved\<close> for that invariant. The rules for
  lock operations say how what a thread has recorded and the locks it relies on change; each handler is then proved
  along its text, its loops by induction. \<open>Handler_Sound\<close> has \<^verbatim>\<open>xmp_unlink\<close> and the result.
\<close>

section \<open>Rules for programs\<close>

definition resting :: "nat \<Rightarrow> ghost \<Rightarrow> bool" where
  "resting n g \<longleftrightarrow> (\<exists>m\<ge>n. g = rests m)"

abbreviation safely :: "string set \<Rightarrow> nat \<Rightarrow> (lock \<rightharpoonup> access) \<Rightarrow> ghost \<Rightarrow> 'k handler \<Rightarrow> bool" where
  "safely U n \<equiv> proved (consistent U) (resting n)"

lemma role_ok_mono: "H \<subseteq>\<^sub>m H' \<Longrightarrow> role_ok U s H fl r \<Longrightarrow> role_ok U s H' fl r"
  by (cases r) (auto simp: map_le_def dom_def)

lemma consistent_more_locks:
  "consistent U s (add_mset (H, g) M) \<Longrightarrow> H \<subseteq>\<^sub>m H' \<Longrightarrow> consistent U s (add_mset (H', g) M)"
  using role_ok_mono by (fastforce simp: consistent_def view_ok_def)

text \<open>Locks that the record does not depend on are not followed.\<close>

lemma safely_lock: "H l = None \<Longrightarrow> safely U n H g p \<Longrightarrow> safely U n H g (Acquire a l p)"
  by (rule proved_acquire [where H' = H and g' = g]) (auto simp: map_le_def dom_def)

lemma safely_unlock: "H l = None \<Longrightarrow> safely U n H g p \<Longrightarrow> safely U n H g (Release a l p)"
  by (rule proved_release [where H' = H and g' = g]) (auto simp: map_le_def dom_def)

lemma safely_acquire: "H l = None \<Longrightarrow> safely U n (H(l \<mapsto> a)) g p \<Longrightarrow> safely U n H g (Acquire a l p)"
  by (rule proved_acquire [where H' = "H(l \<mapsto> a)" and g' = g], erule consistent_more_locks) (auto simp: map_le_def dom_def)

lemma safely_release:
  fixes p :: "'k handler"
  assumes "\<And>(s :: 'k shared_store) M. consistent U s (add_mset (H, g) M) \<Longrightarrow> consistent U s (add_mset (H(l := None), g') M)"
    and "safely U n (H(l := None)) g' p"
  shows "safely U n H g (Release a l p)"
  by (rule proved_release [where H' = "H(l := None)" and g' = g']) (use assms in simp_all)

lemma safely_with_file:
  fixes G :: "filemeta \<Rightarrow> 'k shared_store \<Rightarrow> ('k shared_store \<times> 'k handler) option"
  assumes "\<And>(s :: 'k shared_store) M. consistent U s (add_mset (H, g) M) \<Longrightarrow> \<exists>m. files s f = Some m"
    and "\<And>s M m. consistent U s (add_mset (H, g) M) \<Longrightarrow> files s f = Some m \<Longrightarrow>
      \<exists>s' p g'. G m s = Some (s', p) \<and> consistent U s' (add_mset (H, g') M) \<and> safely U n H g' p"
  shows "safely U n H g (with_file f G)"
  unfolding with_file_def
proof (rule proved_atomic)
  fix s :: "'k shared_store" and M
  assume c: "consistent U s (add_mset (H, g) M)"
  then obtain m where "files s f = Some m" using assms(1) by blast
  then show "\<exists>s' p g'. (case files s f of None \<Rightarrow> None | Some m \<Rightarrow> G m s) = Some (s', p) \<and>
      consistent U s' (add_mset (H, g') M) \<and> safely U n H g' p" using assms(2) [OF c] by simp
qed

lemma safely_unlock_blocks: "(\<And>h a. H (Block_Lock h a) = None) \<Longrightarrow> safely U n H g p \<Longrightarrow> safely U n H g (unlock_blocks m bs p)"
  by (induction bs) (simp_all add: safely_unlock)

lemma safely_lock_blocks:
  fixes p :: "'k handler"
  assumes "\<And>(s :: 'k shared_store) M b. consistent U s (add_mset (H, g) M) \<Longrightarrow> b \<in> set bs \<Longrightarrow> \<exists>x. heap (store s) (snd b) = Some x"
    and "\<And>h a. H (Block_Lock h a) = None" and "safely U n H g p"
  shows "safely U n H g (lock_blocks m bs p)"
  using assms(1)
proof (induction bs)
  case (Cons b bs)
  then have p: "safely U n H g (lock_blocks m bs p)" by simp
  show ?case unfolding lock_blocks.simps lock_block_def
  proof (rule proved_atomic)
    fix s :: "'k shared_store" and M
    assume c: "consistent U s (add_mset (H, g) M)"
    then obtain x where "heap (store s) (snd b) = Some x" using Cons.prems [of s M b] by auto
    then show "\<exists>s' q g'. (case heap (store s) (snd b) of None \<Rightarrow> None
        | Some block \<Rightarrow> Some (s, Acquire m (Block_Lock (fst b) (snd b)) (lock_blocks m bs p))) = Some (s', q) \<and>
        consistent U s' (add_mset (H, g') M) \<and> safely U n H g' q"
      using c safely_lock [OF assms(2) p] by auto
  qed
qed (use assms(3) in simp)

section \<open>Looking a file up and locking it\<close>

definition has :: "role \<Rightarrow> nat \<Rightarrow> ghost" where
  "has r n = (rests n)\<lparr>role := r\<rparr>"

lemma has_simps [simp]:
  "role (has r n) = r" "flight (has r n) = {#}" "fresh (has r n) = []" "table (has r n) = []" "doomed (has r n) = None"
  "left (has r n) = n" "room (has r n) = 0" "dooms (has r n) = {}" "returned (has r n) = {}" "has Rests n = rests n"
  by (simp_all add: has_def rests_def dooms_def returned_def)

lemma rests_simps [simp]:
  "role (rests n) = Rests" "flight (rests n) = {#}" "fresh (rests n) = []" "table (rests n) = []" "doomed (rests n) = None"
  "left (rests n) = n" "room (rests n) = 0" "dooms (rests n) = {}"
  by (simp_all add: rests_def dooms_def)

text \<open>A thread that has nothing but a role that frees nothing may take on another.\<close>

lemma change_role:
  assumes c: "consistent U s (add_mset (H, has r n) M)" and o: "owned r = {}" "owned r' = {}" "closed r' = {}"
    and v: "role_ok U s H' {#} r'" and rd: "\<And>v. v \<in># M \<Longrightarrow> reading r' \<inter> closed (role (snd v)) = {}"
  shows "consistent U s (add_mset (H', has r' n) M)"
proof (rule reassign [OF c])
  show "view_ok U s (H', has r' n)" using v by (simp add: view_ok_def known_def)
  have "unlinking r' = {}" using o(2) by (cases r') auto
  then show "\<forall>v \<in># M. compatible (has r' n) (snd v)" using rd o by (auto simp: compatible_def)
qed (use o in simp_all)

lemma closed_owned: "closed r \<subseteq> owned r"
  by (cases r) auto

text \<open>Back to rest, giving up what is recorded.\<close>

lemma settle:
  assumes c: "consistent U s (add_mset (H, g) M)" and "owned (role g) = {}" "doomed g = None" "fresh g = []"
  shows "consistent U s (add_mset (H', rests (left g)) M)"
  by (rule reassign [OF c]) (use assms(2-4) in \<open>auto simp: view_ok_def known_def compatible_def\<close>)

lemma found_live:
  assumes "consistent U s (add_mset (H, has (Finds p f) n) M)"
  shows "\<exists>m. files s f = Some m"
  using consistent_mine(1) [OF assms] indexed_file(2) [OF consistentD(1) [OF assms]] by (fastforce simp: view_ok_def)

lemma safely_lock_reading:
  fixes p :: "'k handler"
  assumes "H (File_Lock f) = None" and "safely U n (H(File_Lock f \<mapsto> Reading)) (has (Reads f []) k) p"
  shows "safely U n H (has (Finds path f) k) (lock_file Reading f p)"
  unfolding lock_file_def
proof (rule safely_with_file)
  fix s :: "'k shared_store" and M m
  assume c: "consistent U s (add_mset (H, has (Finds path f) k) M)"
  have "safely U n H (has (Finds path f) k) (Acquire Reading (File_Lock f) p)"
  proof (rule proved_acquire [where H' = "H(File_Lock f \<mapsto> Reading)" and g' = "has (Reads f []) k"])
    fix s :: "'k shared_store" and M
    assume c: "consistent U s (add_mset (H, has (Finds path f) k) M)"
    then have p: "findex s path = Some f" using consistent_mine(1) by (fastforce simp: view_ok_def)
    show "consistent U s (add_mset (H(File_Lock f \<mapsto> Reading), has (Reads f []) k) M)"
    proof (rule change_role [OF c])
      show "reading (Reads f []) \<inter> closed (role (snd v)) = {}" if "v \<in># M" for v
        using not_owned [OF c p, of v] closed_owned that by auto
    qed (use found_live [OF c] in auto)
  qed (use assms in simp_all)
  then show "\<exists>s' q g'. Some (s, Acquire Reading (File_Lock f) p) = Some (s', q) \<and>
      consistent U s' (add_mset (H, g') M) \<and> safely U n H g' q" using c by blast
qed (rule found_live)

lemma safely_lock_writing:
  fixes p :: "'k handler"
  assumes "H (File_Lock f) = None" and "path \<notin> U" and "safely U n H (has (Writes path f []) k) p"
  shows "safely U n H (has (Finds path f) k) (lock_file Writing f p)"
  unfolding lock_file_def
proof (rule safely_with_file)
  fix s :: "'k shared_store" and M m
  assume c: "consistent U s (add_mset (H, has (Finds path f) k) M)"
  have "safely U n H (has (Finds path f) k) (Acquire Writing (File_Lock f) p)"
  proof (rule proved_acquire [where H' = H and g' = "has (Writes path f []) k"])
    fix s :: "'k shared_store" and M
    assume c: "consistent U s (add_mset (H, has (Finds path f) k) M)"
    then have p: "findex s path = Some f" using consistent_mine(1) by (fastforce simp: view_ok_def)
    show "consistent U s (add_mset (H, has (Writes path f []) k) M)"
      by (rule change_role [OF c]) (use found_live [OF c] p assms(2) in auto)
  qed (use assms in \<open>auto simp: map_le_def dom_def\<close>)
  then show "\<exists>s' q g'. Some (s, Acquire Writing (File_Lock f) p) = Some (s', q) \<and>
      consistent U s' (add_mset (H, g') M) \<and> safely U n H g' q" using c by blast
qed (rule found_live)

lemma safely_rest: "n \<le> m \<Longrightarrow> safely U n H (rests m) (Give r)"
  by (rule proved_give) (auto simp: resting_def)

lemma safely_release_rest:
  assumes "safely U n (H(l := None)) (rests k) p"
  shows "safely U n H (rests k) (Release a l p)"
  by (rule safely_release [OF _ assms]) (use settle [of U _ H "rests k"] in simp)

text \<open>The lookup of the three handlers that do not change the index.\<close>

lemma safely_find:
  fixes p :: "'k shared_store \<Rightarrow> 'k handler"
  assumes "H File_Index \<noteq> None \<or> path \<notin> U" and "\<And>s. findex s path = None \<Longrightarrow> safely U n H (rests k) (p s)"
    and "\<And>f. safely U n H (has (Finds path f) k) (q f)"
  shows "safely U n H (rests k) (Atomic (\<lambda>s. case findex s path of None \<Rightarrow> Some (s, p s) | Some f \<Rightarrow> Some (s, q f)))"
proof (rule proved_atomic)
  fix s :: "'k shared_store" and M
  assume c: "consistent U s (add_mset (H, rests k) M)"
  show "\<exists>s' r g'. (case findex s path of None \<Rightarrow> Some (s, p s) | Some f \<Rightarrow> Some (s, q f)) = Some (s', r) \<and>
      consistent U s' (add_mset (H, g') M) \<and> safely U n H g' r"
  proof (cases "findex s path")
    case None
    then show ?thesis using c assms(2) by auto
  next
    case (Some f)
    have "consistent U s (add_mset (H, has (Finds path f) k) M)"
      by (rule change_role [where r = Rests and H = H]) (use c Some assms(1) in auto)
    then show ?thesis using Some assms(3) by auto
  qed
qed

section \<open>\<^verbatim>\<open>xmp_getattr\<close>\<close>

lemma reading_live: "consistent U s (add_mset (H, has (Reads f xs) k) M) \<Longrightarrow> \<exists>m. files s f = Some m \<and> prefix xs (blockList m)"
  by (drule consistent_mine(1)) (auto simp: view_ok_def)

lemma reading_file: "consistent U s (add_mset (H, has (Reads f xs) k) M) \<Longrightarrow> \<exists>m. files s f = Some m"
  using reading_live by blast

lemma safely_leave_reading:
  assumes "safely U n (H(File_Lock f := None)) (rests k) p"
  shows "safely U n H (has (Reads f xs) k) (Release a (File_Lock f) p)"
  by (rule safely_release [OF _ assms]) (use settle [of U _ H "has (Reads f xs) k"] in simp)

lemma safely_getattr: "n \<le> k \<Longrightarrow> safely U n Map.empty (rests k) (getattr_prog P path)"
proof (cases "reserved_path path")
  case False
  assume n: "n \<le> k"
  let ?p = "\<lambda>stbuf. Acquire Reading File_Index (Atomic (\<lambda>s. case findex s path of
      None \<Rightarrow> Some (s, Release Reading File_Index (Give (Stat_Returns 0 (Some stbuf))))
    | Some f \<Rightarrow> Some (s, lock_file Reading f (with_file f (\<lambda>file s.
        Some (s, Release Reading (File_Lock f) (Release Reading File_Index
          (Give (Stat_Returns 0 (Some (stat_of_file file stbuf))))))))))) :: 'a handler"
  have p: "safely U n Map.empty (rests k) (?p stbuf)" for stbuf
    by (intro safely_acquire safely_find safely_lock_reading safely_with_file [OF reading_file])
      (use n in \<open>auto intro!: safely_release_rest safely_rest safely_leave_reading exI\<close>)
  have "\<exists>s' q g'. (case p_lstat P path (kern (store s)) of (res, e) \<Rightarrow> case res of
        SysErr x \<Rightarrow> Some (set_store ((store s)\<lparr>kern := e\<rparr>) s, Give (Stat_Returns (- x) None))
      | SysOk stbuf \<Rightarrow> Some (set_store ((store s)\<lparr>kern := e\<rparr>) s, ?p stbuf)) = Some (s', q) \<and>
      consistent U s' (add_mset (H, g') M) \<and> safely U n Map.empty g' q"
    if c: "consistent U s (add_mset (H, rests k) M)" for s :: "'a shared_store" and H M
  proof -
    obtain res e where "p_lstat P path (kern (store s)) = (res, e)" by fastforce
    then show ?thesis using c p safely_rest [OF n] by (cases res) (auto intro!: exI [of _ "rests k"])
  qed
  then show ?thesis using False unfolding getattr_prog_def Let_def by (auto intro!: proved_atomic)
qed (simp add: getattr_prog_def safely_rest)

section \<open>\<^verbatim>\<open>xmp_read\<close>\<close>

lemma ptr_array_ok: "0 \<le> i \<Longrightarrow> i < int (length xs) \<Longrightarrow> ptr_array_index xs i = Some (xs ! nat i)"
  by (simp add: ptr_array_index_def)

text \<open>What a reader knows of the file stays so, and the blocks are live.\<close>

lemma reading_block:
  assumes c: "consistent U s (add_mset (H, has (Reads f xs) k) M)" and f: "files s f = Some m"
    and i: "0 \<le> i" "i < int (length xs)"
  shows "\<exists>b. ptr_array_index (blockList m) i = Some (xs ! nat i) \<and> heap (store s) (xs ! nat i) = Some b"
proof -
  from reading_live [OF c] f obtain ys where m: "blockList m = xs @ ys" by (auto simp: prefix_def)
  then have "xs ! nat i \<in> set (blockList m)" using i by auto
  moreover have "nat i < length xs" using i by linarith
  ultimately show ?thesis using file_blocks_live [OF c f] i m by (simp add: ptr_array_ok nth_append)
qed

lemma unique_blocks_defined:
  assumes c: "consistent U s (add_mset (H, has (Reads f xs) k) M)" and f: "files s f = Some m"
    and i: "\<forall>i \<in> set is. 0 \<le> i \<and> i < int (length xs)" and t: "snd ` set tab \<subseteq> set xs"
  shows "\<exists>tab'. unique_blocks (store s) m is tab = Some tab' \<and> snd ` set tab' \<subseteq> set xs"
  using i t
proof (induction "is" arbitrary: tab)
  case (Cons i "is")
  obtain b where b: "ptr_array_index (blockList m) i = Some (xs ! nat i)" "heap (store s) (xs ! nat i) = Some b"
    using reading_block [OF c f, of i] Cons.prems(1) by auto
  have "snd ` set (AList.update (block_id b) (xs ! nat i) tab) \<subseteq> set xs"
  proof
    fix a
    assume "a \<in> snd ` set (AList.update (block_id b) (xs ! nat i) tab)"
    then have "a = xs ! nat i \<or> a \<in> snd ` set tab"
      by (induction tab) (auto split: if_splits)
    then show "a \<in> set xs" using Cons.prems by auto
  qed
  then show ?case using Cons.IH b Cons.prems(1) by simp
qed simp

lemma read_block_step:
  assumes "block_of_file c m i = Some b"
  shows "\<exists>err tot' out' k. read_blocks E m offset sz [i] tot out c = Some (err, tot', out', c\<lparr>kern := k\<rparr>)"
proof -
  obtain err bs k where r: "read_one E b (read_start_in_block offset i) (bytes_to_read offset i sz tot) c = (err, bs, c\<lparr>kern := k\<rparr>)"
  proof -
    have "\<exists>err bs k. read_one E b rs n c = (err, bs, c\<lparr>kern := k\<rparr>)" for rs n
      by (auto simp: read_one_def Let_def split: prod.splits sysres.splits intro: exI [of _ "kern c"])
    then show ?thesis using that by blast
  qed
  then show ?thesis using assms by (auto simp: Let_def)
qed

lemma safely_copy_blocks:
  fixes cont :: "int \<Rightarrow> int \<Rightarrow> byte list \<Rightarrow> 'k handler"
  assumes "\<forall>i \<in> set is. 0 \<le> i \<and> i < int (length xs)"
    and k: "\<And>err tot out. safely U n H (has (Reads f xs) k) (cont err tot out)"
  shows "safely U n H (has (Reads f xs) k) (copy_blocks E f offset sz is tot out cont)"
  using assms(1)
proof (induction "is" arbitrary: tot out)
  case (Cons i "is")
  show ?case unfolding copy_blocks.simps
  proof (rule safely_with_file [OF reading_file])
    fix s :: "'k shared_store" and M m
    assume c: "consistent U s (add_mset (H, has (Reads f xs) k) M)" and f: "files s f = Some m"
    obtain b where "block_of_file (store s) m i = Some b"
      using reading_block [OF c f, of i] Cons.prems by (auto simp: block_of_file_def)
    from read_block_step [OF this] obtain err tot' out' e where
      r: "read_blocks E m offset sz [i] tot out (store s) = Some (err, tot', out', (store s)\<lparr>kern := e\<rparr>)" by blast
    have "safely U n H (has (Reads f xs) k) (if err \<noteq> 0 then cont err tot' out' else copy_blocks E f offset sz is tot' out' cont)"
      using k Cons by simp
    then show "\<exists>s' p g'. (case read_blocks E m offset sz [i] tot out (store s) of None \<Rightarrow> None
        | Some (err, tot', out', c) \<Rightarrow> Some (set_store c s,
            if err \<noteq> 0 then cont err tot' out' else copy_blocks E f offset sz is tot' out' cont)) = Some (s', p) \<and>
        consistent U s' (add_mset (H, g') M) \<and> safely U n H g' p" using r c by (auto intro!: exI)
  qed
qed (simp add: k)

lemma safely_read_range:
  fixes H :: "lock \<rightharpoonup> access"
  assumes i: "\<forall>i \<in> set is. 0 \<le> i \<and> i < int (length xs)" and H: "H = [File_Lock f \<mapsto> Reading]" and n: "n \<le> k"
  shows "safely U n H (has (Reads f xs) k) (read_range E f offset sz is :: 'k handler)"
  unfolding read_range_def
proof (rule safely_with_file [OF reading_file])
  fix s :: "'k shared_store" and M m
  assume c: "consistent U s (add_mset (H, has (Reads f xs) k) M)" and f: "files s f = Some m"
  obtain tab where tab: "unique_blocks (store s) m is [] = Some tab" "snd ` set tab \<subseteq> set xs"
    using unique_blocks_defined [OF c f i, of "[]"] by auto
  let ?p = "lock_blocks Reading (by_digest tab) (Release Reading Block_Index (copy_blocks E f offset sz is 0 [] (\<lambda>err tot out.
      unlock_blocks Reading tab (Release Reading (File_Lock f)
        (Give (Read_Returns (if err \<noteq> 0 then err else s32 tot) out)))))) :: 'k handler"
  have "safely U n H (has (Reads f xs) k) ?p"
  proof (rule safely_lock_blocks)
    fix s :: "'k shared_store" and M b
    assume c: "consistent U s (add_mset (H, has (Reads f xs) k) M)" and b: "b \<in> set (by_digest tab)"
    from reading_live [OF c] obtain m where m: "files s f = Some m" "prefix xs (blockList m)" by blast
    have "snd b \<in> set xs" using b tab(2) by (auto simp: by_digest_def)
    then have "snd b \<in> set (blockList m)" using m(2) by (auto simp: prefix_def)
    then show "\<exists>x. heap (store s) (snd b) = Some x" using file_blocks_live [OF c m(1)] by simp
  qed (use i n H in \<open>auto intro!: safely_unlock safely_copy_blocks safely_unlock_blocks safely_leave_reading safely_rest\<close>)
  then show "\<exists>s' p g'. (case unique_blocks (store s) m is [] of None \<Rightarrow> None | Some uniqueBlocks \<Rightarrow>
        Some (s, lock_blocks Reading (by_digest uniqueBlocks) (Release Reading Block_Index
          (copy_blocks E f offset sz is 0 [] (\<lambda>err tot out. unlock_blocks Reading uniqueBlocks (Release Reading (File_Lock f)
            (Give (Read_Returns (if err \<noteq> 0 then err else s32 tot) out)))))))) = Some (s', p) \<and>
      consistent U s' (add_mset (H, g') M) \<and> safely U n H g' p" using c tab(1) by auto
qed

lemma safely_release_index:
  assumes "safely U n (H(File_Index := None)) (has (Reads f xs) k) p"
  shows "safely U n H (has (Reads f xs) k) (Release a File_Index p)"
proof (rule safely_release [OF _ assms])
  fix s :: "'a shared_store" and M
  assume c: "consistent U s (add_mset (H, has (Reads f xs) k) M)"
  show "consistent U s (add_mset (H(File_Index := None), has (Reads f xs) k) M)"
    by (rule change_role [OF c]) (use consistent_mine(1,3) [OF c] in \<open>auto simp: view_ok_def compatible_def\<close>)
qed

lemma safely_read_file:
  assumes H: "H = [File_Lock f \<mapsto> Reading]" and n: "n \<le> k" and b: "0 \<le> offset" "0 \<le> sz" "sz < 2 ^ 31"
  shows "safely U n H (has (Reads f []) k) (with_file f (\<lambda>file s.
    if offset \<ge> logicalSize file then Some (s, Release Reading (File_Lock f) (Give (Read_Returns 0 [])))
    else
      let sz = (if u64 (offset + sz) > u64 (logicalSize file) then u64 (logicalSize file - offset) else sz);
          start_index = s32 (tdiv offset 4096);
          end_index = s32 (u64 (offset + sz - 1) div 4096)
      in Some (s, Acquire Reading Block_Index (read_range E f offset sz [start_index..end_index]))) :: 'k handler)"
    (is "safely U n H _ (with_file f ?G)")
proof (rule safely_with_file [OF reading_file])
  fix s :: "'k shared_store" and M m
  assume c: "consistent U s (add_mset (H, has (Reads f []) k) M)" and f: "files s f = Some m"
  show "\<exists>s' p g'. ?G m s = Some (s', p) \<and> consistent U s' (add_mset (H, g') M) \<and> safely U n H g' p"
  proof (cases "offset \<ge> logicalSize m")
    case True
    have "safely U n H (has (Reads f []) k) (Release Reading (File_Lock f) (Give (Read_Returns 0 [])) :: 'k handler)"
      using n H by (auto intro!: safely_leave_reading safely_rest)
    then show ?thesis using True c by auto
  next
    case False
    have sz: "sized m" using files_invD(7) [OF consistentD(1) [OF c] f] .
    let ?is = "[offset div 4096..s32 (u64 (offset + clip_size m sz offset - 1) div 4096)]"
    have p: "consistent U s (add_mset (H, has (Reads f (blockList m)) k) M)"
      by (rule change_role [OF c]) (use f consistent_mine(1,3) [OF c] in \<open>auto simp: view_ok_def compatible_def\<close>)
    have rng: "\<forall>i \<in> set ?is. 0 \<le> i \<and> i < int (length (blockList m))"
    proof
      fix i
      assume "i \<in> set ?is"
      then have "offset div 4096 \<le> i" "4096 * i < logicalSize m" using read_indices(4) [OF b] sz False by (auto simp: sized_def)
      moreover have "0 \<le> offset div 4096" using b(1) by simp
      ultimately show "0 \<le> i \<and> i < int (length (blockList m))" using sz by (simp add: sized_def)
    qed
    have "H Block_Index = None" using H by simp
    then have "safely U n H (has (Reads f (blockList m)) k)
        (Acquire Reading Block_Index (read_range E f offset (clip_size m sz offset) ?is) :: 'k handler)"
      by (rule safely_lock) (rule safely_read_range [OF rng H n])
    moreover have "?G m s = Some (s, Acquire Reading Block_Index (read_range E f offset (clip_size m sz offset) ?is))"
      using False read_indices(1,2) [OF b, of m] sz by (simp add: Let_def sized_def)
    ultimately show ?thesis using p by blast
  qed
qed

lemma safely_read:
  assumes "n \<le> k" and "0 \<le> offset" and "0 \<le> sz" and "sz < 2 ^ 31"
  shows "safely U n Map.empty (rests k) (read_prog E path sz offset)"
proof (cases "sz mod 4096 = 0")
  case True
  have u: "([File_Index \<mapsto> Reading, File_Lock f \<mapsto> Reading])(File_Index := None) = [File_Lock f \<mapsto> Reading]" for f by auto
  show ?thesis using True assms unfolding read_prog_def
    by (auto intro!: safely_acquire safely_find safely_lock_reading safely_release_index safely_read_file
        safely_release_rest safely_rest simp: u)
qed (simp add: read_prog_def safely_rest assms)

section \<open>\<^verbatim>\<open>xmp_write\<close>\<close>

text \<open>The lookup loop: what the locals say is what the record says.\<close>

definition acquiring :: "role \<Rightarrow> nat \<Rightarrow> write_locals \<Rightarrow> ghost" where
  "acquiring r n l = \<lparr>role = r, flight = mset (newBlocksInfo l), fresh = my_created_blocks l, table = lockedBlocks l,
     doomed = None, left = n, room = length (newBlocksInfo l)\<rparr>"

lemma acquiring_took: "took l' (acquiring r (Suc n) l) = acquiring r n l'"
  by (simp add: acquiring_def took_def)

lemma acquiring_simps [simp]:
  "role (acquiring r n l) = r" "left (acquiring r n l) = n" "flight (acquiring r n l) = mset (newBlocksInfo l)"
  "table (acquiring r n l) = lockedBlocks l" "fresh (acquiring r n l) = my_created_blocks l"
  by (simp_all add: acquiring_def)

definition locals_ok :: "write_locals \<Rightarrow> bool" where
  "locals_ok l \<longleftrightarrow> snd ` set (lockedBlocks l) = set (newBlocksInfo l) \<and> distinct (map fst (lockedBlocks l)) \<and>
     distinct (map snd (lockedBlocks l))"

lemma tracks_acquiring: "tracks l (acquiring r n l) \<longleftrightarrow> locals_ok l"
  by (simp add: tracks_def acquiring_def locals_ok_def)

lemma acquire_next:
  assumes "consistent U s (add_mset (H, acquiring r (Suc n) l) M)" and "locals_ok l" and "owned r = {}"
  shows "\<exists>c l'. acquire_block h (store s) l = Some (c, l') \<and> locals_ok l' \<and> length (newBlocksInfo l') = Suc (length (newBlocksInfo l)) \<and>
    consistent U (set_store c s) (add_mset (H, acquiring r n l') M)"
proof -
  from acquire_step [OF assms(1), of l h] assms(2,3) obtain c l' where
    a: "acquire_block h (store s) l = Some (c, l')" "tracks l' (took l' (acquiring r (Suc n) l))"
    "consistent U (set_store c s) (add_mset (H, took l' (acquiring r (Suc n) l)) M)"
    by (auto simp: tracks_acquiring)
  moreover have "length (newBlocksInfo l') = Suc (length (newBlocksInfo l))"
    using a(1) by (auto simp: acquire_block_def note_block_def Let_def split: option.splits)
  ultimately show ?thesis by (auto simp: acquiring_took tracks_acquiring)
qed

lemma safely_acquire_prog:
  fixes cont :: "write_locals \<Rightarrow> 'k handler"
  assumes r: "owned r = {}" and H: "H Block_Index = None"
    and k: "\<And>l. locals_ok l \<Longrightarrow> length (newBlocksInfo l) = N \<Longrightarrow> safely U n H (acquiring r k l) (cont l)"
  shows "locals_ok l \<Longrightarrow> length (newBlocksInfo l) + length hs = N \<Longrightarrow>
    safely U n H (acquiring r (length hs + k) l) (acquire_prog hs l cont)"
proof (induction hs arbitrary: l)
  case Nil
  then show ?case using k by simp
next
  case (Cons h hs)
  let ?g = "acquiring r (Suc (length hs + k)) l"
  have go: "\<exists>c l'. acquire_block h (store s) l = Some (c, l') \<and> consistent U (set_store c s) (add_mset (H, acquiring r (length hs + k) l') M) \<and>
      safely U n H (acquiring r (length hs + k) l') (acquire_prog hs l' cont)"
    if c: "consistent U s (add_mset (H, ?g) M)" for s :: "'k shared_store" and M
  proof -
    obtain c' l' where "acquire_block h (store s) l = Some (c', l')" "locals_ok l'"
      "length (newBlocksInfo l') = Suc (length (newBlocksInfo l))"
      "consistent U (set_store c' s) (add_mset (H, acquiring r (length hs + k) l') M)"
      using acquire_next [OF c Cons.prems(1) r] by blast
    then show ?thesis using Cons.IH [of l'] Cons.prems(2) by auto
  qed
  have again: "safely U n H ?g (Atomic (\<lambda>s. case acquire_block h (store s) l of None \<Rightarrow> None
      | Some (c, l') \<Rightarrow> Some (set_store c s, Release Writing Block_Index (Acquire Reading Block_Index (acquire_prog hs l' cont)))))"
    by (rule proved_atomic) (use go H in \<open>fastforce intro: safely_lock safely_unlock\<close>)
  have "safely U n H ?g (acquire_prog (h # hs) l cont)" unfolding acquire_prog.simps
  proof (rule proved_atomic)
    fix s :: "'k shared_store" and M
    assume c: "consistent U s (add_mset (H, ?g) M)"
    show "\<exists>s' p g'. (if blockIndex (store s) h = None then
          Some (s, Release Reading Block_Index (Acquire Writing Block_Index (Atomic (\<lambda>s. case acquire_block h (store s) l of None \<Rightarrow> None
            | Some (c, l') \<Rightarrow> Some (set_store c s, Release Writing Block_Index (Acquire Reading Block_Index (acquire_prog hs l' cont)))))))
        else (case acquire_block h (store s) l of None \<Rightarrow> None | Some (c, l') \<Rightarrow> Some (set_store c s, acquire_prog hs l' cont))) = Some (s', p) \<and>
      consistent U s' (add_mset (H, g') M) \<and> safely U n H g' p"
    proof (cases "blockIndex (store s) h = None")
      case True
      then show ?thesis using c safely_unlock [OF H safely_lock [OF H again]] by auto
    next
      case False
      then show ?thesis using go [OF c] by auto
    qed
  qed
  then show ?case by simp
qed

text \<open>A thread that writes: it knows a part of the file's list, and has references in flight.\<close>

definition writing :: "string \<Rightarrow> nat \<Rightarrow> addr list \<Rightarrow> addr list \<Rightarrow> nat \<Rightarrow> ghost" where
  "writing p f xs as n = (rests n)\<lparr>role := Writes p f xs, flight := mset as\<rparr>"

lemma writing_simps [simp]:
  "role (writing p f xs as n) = Writes p f xs" "flight (writing p f xs as n) = mset as" "fresh (writing p f xs as n) = []"
  "table (writing p f xs as n) = []" "doomed (writing p f xs as n) = None" "left (writing p f xs as n) = n"
  by (simp_all add: writing_def)

lemma writing_has: "has (Writes p f xs) n = writing p f xs [] n"
  by (simp add: has_def writing_def rests_def)

lemma writing_file:
  assumes "consistent U s (add_mset (H, writing p f xs as k) M)"
  shows "\<exists>m. files s f = Some m"
  using consistent_mine(1) [OF assms] by (auto simp: view_ok_def)

lemma writing_known:
  assumes "consistent U s (add_mset (H, writing p f xs as k) M)" and "files s f = Some m"
  shows "length xs \<le> length (blockList m)"
  using consistent_mine(1) [OF assms(1)] assms(2) by (auto simp: view_ok_def prefix_def)

lemma safely_rest_writing:
  assumes "safely U n (H(l := None)) (rests k) p"
  shows "safely U n H (writing path f xs as k) (Release a l p)"
  by (rule safely_release [OF _ assms]) (use settle [of U _ H "writing path f xs as k"] in simp)

definition written :: "int \<Rightarrow> int \<Rightarrow> nat \<Rightarrow> bool" where
  "written offset sz k \<longleftrightarrow> 0 \<le> offset \<and> 0 \<le> sz \<and> offset + sz \<le> 2 ^ 43 \<and> offset + sz \<le> 4096 * int k"

lemma safely_write_cleanup:
  assumes H: "H = Map.empty" and n: "n \<le> k" and w: "err = 0 \<Longrightarrow> written offset sz (length xs)"
  shows "safely U n H (writing p f xs as k) (write_cleanup f order offset sz err :: 'k handler)"
  unfolding write_cleanup_def
proof (rule safely_with_file [OF writing_file])
  fix s :: "'k shared_store" and M m
  assume c: "consistent U s (add_mset (H, writing p f xs as k) M)" and f: "files s f = Some m"
  let ?p = "unlock_blocks Writing order (Release Writing (File_Lock f) (Give (Returns (if err \<noteq> 0 then err else s32 sz)))) :: 'k handler"
  let ?s = "if err = 0 \<and> u64 (offset + sz) > u64 (logicalSize m) then set_file f (m\<lparr>logicalSize := s64 (offset + sz)\<rparr>) s else s"
  have p: "safely U n H (rests k) ?p" using H n by (auto intro!: safely_unlock_blocks safely_unlock safely_rest)
  have "consistent U ?s (add_mset (H, rests k) M)"
  proof (cases "err = 0 \<and> u64 (offset + sz) > u64 (logicalSize m)")
    case True
    have sz: "sized m" using files_invD(7) [OF consistentD(1) [OF c] f] .
    have "s64 (offset + sz) = offset + sz" using w True by (intro s64_id) (auto simp: written_def)
    then have "sized (m\<lparr>logicalSize := s64 (offset + sz)\<rparr>)"
      using w True writing_known [OF c f] by (simp add: sized_def written_def)
    then have "consistent U (set_file f (m\<lparr>logicalSize := s64 (offset + sz)\<rparr>) s)
        (add_mset (H, (writing p f xs as k)\<lparr>flight := flight (writing p f xs as k) - mset [], role := Writes p f (blockList m)\<rparr>) M)"
      using write_file_step [OF c, of p f xs m "m\<lparr>logicalSize := s64 (offset + sz)\<rparr>" "[]"] f by simp
    from settle [OF this, where H' = H] show ?thesis using True by simp
  next
    case False
    show ?thesis by (subst if_not_P [OF False]) (use settle [OF c, where H' = H] in simp)
  qed
  then show "\<exists>s' q g'. Some (?s, ?p) = Some (s', q) \<and> consistent U s' (add_mset (H, g') M) \<and> safely U n H g' q"
    using p by blast
qed

lemma write_block_step:
  assumes "heap c a = Some b"
  shows "\<exists>err e m'. write_blocks E [a] buf created m c = Some (err, m', c\<lparr>kern := e\<rparr>) \<and> file_id m' = file_id m \<and>
    logicalSize m' = logicalSize m \<and> blockList m' = blockList m @ [a]"
proof -
  obtain err e where w: "(if a \<in> set created then write_one E b buf c else (0, c)) = (err, c\<lparr>kern := e\<rparr>)"
    using write_step_frame by metis
  show ?thesis using assms by (cases "err = 0") (auto simp: Let_def w intro!: exI [of _ e])
qed

lemma safely_store_blocks:
  fixes cont :: "int \<Rightarrow> 'k handler"
  assumes H: "H = Map.empty"
    and k0: "\<And>xs. N \<le> length xs \<Longrightarrow> safely U n H (writing p f xs [] k) (cont 0)"
    and ke: "\<And>err xs as. err \<noteq> 0 \<Longrightarrow> safely U n H (writing p f xs as k) (cont err)"
  shows "N \<le> length xs + length as \<Longrightarrow> safely U n H (writing p f xs as k) (store_blocks E f as buf created cont)"
proof (induction as arbitrary: xs buf created)
  case Nil
  then show ?case using k0 by simp
next
  case (Cons a as)
  show ?case unfolding store_blocks.simps
  proof (rule safely_with_file [OF writing_file])
    fix s :: "'k shared_store" and M m
    assume c: "consistent U s (add_mset (H, writing p f xs (a # as) k) M)" and f: "files s f = Some m"
    obtain b where b: "heap (store s) a = Some b" using flight_live [OF c, of "(H, writing p f xs (a # as) k)" a] by auto
    obtain err e m' where w: "write_blocks E [a] buf created m (store s) = Some (err, m', (store s)\<lparr>kern := e\<rparr>)"
      and m': "file_id m' = file_id m" "logicalSize m' = logicalSize m" "blockList m' = blockList m @ [a]"
      using write_block_step [OF b] by blast
    have sz: "sized m'" using files_invD(7) [OF consistentD(1) [OF c] f] m' by (auto simp: sized_def)
    have "(writing p f xs (a # as) k)\<lparr>flight := flight (writing p f xs (a # as) k) - mset [a], role := Writes p f (blockList m')\<rparr> =
        writing p f (blockList m') as k" by (simp add: writing_def)
    then have "consistent U (set_file f m' s) (add_mset (H, writing p f (blockList m') as k) M)"
      using write_file_step [OF c _ _ _ f m'(1) sz m'(3), of p xs] by simp
    then have c': "consistent U (set_file f m' (set_store ((store s)\<lparr>kern := e\<rparr>) s)) (add_mset (H, writing p f (blockList m') as k) M)"
      using consistent_kern [of U e "set_file f m' s"] by simp
    have "N \<le> length (blockList m') + length as" using writing_known [OF c f] m'(3) Cons.prems by simp
    then have "safely U n H (writing p f (blockList m') as k)
        (if err \<noteq> 0 then cont err else store_blocks E f as (drop 4096 buf) (removeAll a created) cont)"
      using Cons.IH ke by simp
    then show "\<exists>s' q g'. (case write_blocks E [a] buf created m (store s) of None \<Rightarrow> None
        | Some (err, file', c) \<Rightarrow> Some (set_file f file' (set_store c s),
            if err \<noteq> 0 then cont err else store_blocks E f as (drop 4096 buf) (removeAll a created) cont)) = Some (s', q) \<and>
        consistent U s' (add_mset (H, g') M) \<and> safely U n H g' q" using c' w by auto
  qed
qed

lemma safely_write_io:
  assumes H: "H = Map.empty" and n: "n \<le> k" and w: "written offset (int (length buf)) (length xs + length (newBlocksInfo l))"
  shows "safely U n H (writing p f xs (newBlocksInfo l) k) (write_io E f order l buf offset :: 'k handler)"
  unfolding write_io_def
proof (rule proved_atomic)
  fix s :: "'k shared_store" and M
  assume c: "consistent U s (add_mset (H, writing p f xs (newBlocksInfo l) k) M)"
  obtain al e where m: "memalign E (kern (store s)) = (al, e)" by fastforce
  let ?cleanup = "write_cleanup f order offset (int (length buf)) :: int \<Rightarrow> 'k handler"
  have "safely U n H (writing p f xs (newBlocksInfo l) k) (?cleanup (- ENOMEM))"
    by (rule safely_write_cleanup [OF H n]) simp
  moreover have "written offset (int (length buf)) (length ys)" if "length xs + length (newBlocksInfo l) \<le> length ys" for ys
    using w that by (simp add: written_def)
  then have "safely U n H (writing p f xs (newBlocksInfo l) k) (store_blocks E f (newBlocksInfo l) buf (my_created_blocks l) ?cleanup)"
    by (intro safely_store_blocks [OF H, where N = "length xs + length (newBlocksInfo l)"] safely_write_cleanup [OF H n]) simp_all
  ultimately have "safely U n H (writing p f xs (newBlocksInfo l) k) (if \<not> al then ?cleanup (- ENOMEM)
      else store_blocks E f (newBlocksInfo l) buf (my_created_blocks l) ?cleanup)" by simp
  then show "\<exists>s' q g'. (let (aligned, k) = memalign E (kern (store s)); s1 = set_store ((store s)\<lparr>kern := k\<rparr>) s;
        cleanup = write_cleanup f order offset (int (length buf))
      in Some (s1, if \<not> aligned then cleanup (- ENOMEM)
        else store_blocks E f (newBlocksInfo l) buf (my_created_blocks l) cleanup)) = Some (s', q) \<and>
      consistent U s' (add_mset (H, g') M) \<and> safely U n H g' q" using c m by (auto simp: Let_def)
qed

lemma safely_write_layout:
  assumes H: "H = Map.empty" and n: "n \<le> k" and l: "locals_ok l"
    and w: "written offset (int (length buf)) (length xs + length (newBlocksInfo l))"
  shows "safely U n H (acquiring (Writes p f xs) k l) (write_layout E f buf offset l :: 'k handler)"
  unfolding write_layout_def Let_def
proof (rule safely_lock_blocks)
  let ?g = "acquiring (Writes p f xs) k l" and ?order = "by_digest (lockedBlocks l)"
  note io = safely_write_io [OF H n w]
  fix s :: "'k shared_store" and M b
  assume c: "consistent U s (add_mset (H, ?g) M)" and b: "b \<in> set ?order"
  have "snd b \<in># flight ?g" using b l by (auto simp: by_digest_def locals_ok_def)
  then show "\<exists>x. heap (store s) (snd b) = Some x" using flight_live [OF c, of "(H, ?g)"] by auto
next
  let ?g = "acquiring (Writes p f xs) k l" and ?order = "by_digest (lockedBlocks l)"
  let ?p = "Release Writing Offset_Lock (Release Writing Free_List
    (Release Reading Block_Index (Release Reading File_Index (write_io E f ?order l buf offset)))) :: 'k handler"
  have p: "safely U n H (writing p f xs (newBlocksInfo l) k) ?p"
    using safely_write_io [OF H n w] H by (auto intro!: safely_unlock)
  have "safely U n H ?g (Atomic (\<lambda>s. case assign_offsets (my_created_blocks l) (map snd ?order) (store s) of None \<Rightarrow> None
      | Some c \<Rightarrow> Some (set_store c s, ?p)))"
  proof (rule proved_atomic)
    fix s :: "'k shared_store" and M
    assume c: "consistent U s (add_mset (H, ?g) M)"
    have ms: "mset (map snd ?order) = mset (map snd (lockedBlocks l))" by (simp add: by_digest_def)
    have "distinct (map snd ?order)" using l mset_eq_imp_distinct_iff [OF ms] by (simp add: locals_ok_def)
    moreover have "set (map snd ?order) = snd ` set (lockedBlocks l)" by (simp add: by_digest_def)
    moreover have "?g\<lparr>fresh := [], table := [], room := 0\<rparr> = writing p f xs (newBlocksInfo l) k"
      by (simp add: acquiring_def writing_def rests_def)
    ultimately show "\<exists>s' q g'. (case assign_offsets (my_created_blocks l) (map snd ?order) (store s) of None \<Rightarrow> None
        | Some c \<Rightarrow> Some (set_store c s, ?p)) = Some (s', q) \<and> consistent U s' (add_mset (H, g') M) \<and> safely U n H g' q"
      using place_step [OF c, of l "map snd ?order"] l p by (auto simp: tracks_acquiring)
  qed
  then show "safely U n H ?g (Acquire Writing Free_List (Acquire Writing Offset_Lock (Atomic (\<lambda>s.
      case assign_offsets (my_created_blocks l) (map snd ?order) (store s) of None \<Rightarrow> None | Some c \<Rightarrow> Some (set_store c s, ?p)))))"
    using H by (intro safely_lock) simp_all
qed (use H in simp)

lemma safely_write_file:
  assumes H: "H = Map.empty" and n: "n + length hs \<le> k" and U: "path \<notin> U" and hs: "int (length buf) = 4096 * int (length hs)"
    and b: "offset + int (length buf) \<le> 2 ^ 43"
  shows "safely U n H (has (Finds path f) k) (write_file E f hs buf offset :: 'k handler)"
  unfolding write_file_def
proof (rule safely_lock_writing [OF _ U])
  show "H (File_Lock f) = None" using H by simp
  show "safely U n H (has (Writes path f []) k) (with_file f (\<lambda>file s.
      if offset \<noteq> logicalSize file then
        Some (s, Release Writing (File_Lock f) (Release Reading File_Index (Give (Returns (- ENOTSUP)))))
      else Some (s, Acquire Reading Block_Index (acquire_prog hs no_locals (write_layout E f buf offset)))) :: 'k handler)"
    unfolding writing_has
  proof (rule safely_with_file [OF writing_file])
    fix s :: "'k shared_store" and M m
    assume c: "consistent U s (add_mset (H, writing path f [] [] k) M)" and f: "files s f = Some m"
    show "\<exists>s' q g'. (if offset \<noteq> logicalSize m then
          Some (s, Release Writing (File_Lock f) (Release Reading File_Index (Give (Returns (- ENOTSUP)))))
        else Some (s, Acquire Reading Block_Index (acquire_prog hs no_locals (write_layout E f buf offset)))) = Some (s', q) \<and>
        consistent U s' (add_mset (H, g') M) \<and> safely U n H g' q"
    proof (cases "offset = logicalSize m")
      case False
      have "safely U n H (writing path f [] [] k) (Release Writing (File_Lock f) (Release Reading File_Index (Give (Returns (- ENOTSUP)))) :: 'k handler)"
        using H n by (auto intro!: safely_rest_writing safely_release_rest safely_rest)
      then show ?thesis using c False by auto
    next
      case True
      let ?xs = "blockList m"
      have "sized m" using files_invD(7) [OF consistentD(1) [OF c] f] .
      then have w: "written offset (int (length buf)) (length ?xs + length hs)"
        using True b hs by (simp add: sized_def written_def)
      have p: "findex s path = Some f" using consistent_mine(1) [OF c] by (simp add: view_ok_def)
      have r: "has (Writes path f ?xs) k = acquiring (Writes path f ?xs) (length hs + (k - length hs)) no_locals"
        using n by (simp add: has_def rests_def acquiring_def no_locals_def)
      have "consistent U s (add_mset (H, has (Writes path f ?xs) k) M)"
        by (rule change_role [OF c [folded writing_has]]) (use p U f in auto)
      moreover have "safely U n H (has (Writes path f ?xs) k) (acquire_prog hs no_locals (write_layout E f buf offset) :: 'k handler)"
        unfolding r
      proof (rule safely_acquire_prog [where N = "length hs"])
        fix l
        assume "locals_ok l" "length (newBlocksInfo l) = length hs"
        then show "safely U n H (acquiring (Writes path f ?xs) (k - length hs) l) (write_layout E f buf offset l :: 'k handler)"
          using w n by (intro safely_write_layout [OF H]) simp_all
      qed (use H in \<open>simp_all add: no_locals_def locals_ok_def\<close>)
      then have "safely U n H (has (Writes path f ?xs) k)
          (Acquire Reading Block_Index (acquire_prog hs no_locals (write_layout E f buf offset)) :: 'k handler)"
        using H by (intro safely_lock) simp_all
      ultimately show ?thesis using True by auto
    qed
  qed
qed

lemma safely_write:
  assumes n: "n + length buf div 4096 \<le> k" and U: "path \<notin> U" and b: "length buf < 2 ^ 31" "offset + int (length buf) \<le> 2 ^ 43"
  shows "safely U n Map.empty (rests k) (write_prog E path buf offset :: 'k handler)"
proof (cases "int (length buf) mod 4096 = 0")
  case False
  then show ?thesis using n by (simp add: write_prog_def Let_def safely_rest)
next
  case True
  let ?hs = "map (\<lambda>i. sha512 E (block_at buf i)) [0..<nat (s32 (int (length buf) div 4096))]"
  have "s32 (int (length buf) div 4096) = int (length buf) div 4096" using b(1) by (intro s32_id) simp_all
  then have len: "length ?hs = length buf div 4096" by (simp add: nat_div_distrib)
  have "int (length buf) = 4096 * (int (length buf) div 4096)" using mult_div_mod_eq [of 4096 "int (length buf)"] True by linarith
  moreover have "int (length buf div 4096) = int (length buf) div 4096" by (simp add: zdiv_int)
  ultimately have hs: "n + length ?hs \<le> k" "int (length buf) = 4096 * int (length ?hs)" unfolding len using n by linarith+
  have w: "safely U n Map.empty (has (Finds path f) k) (write_file E f ?hs buf offset :: 'k handler)" for f
    by (rule safely_write_file [OF refl hs(1) U hs(2) b(2)])
  let ?q = "Atomic (\<lambda>s. let (f, s1) = find_or_create path s in
      Some (s1, Release Writing File_Index (Acquire Reading File_Index (write_file E f ?hs buf offset)))) :: 'k handler"
  have q: "safely U n Map.empty (rests k) ?q"
  proof (rule proved_atomic)
    fix s :: "'k shared_store" and M
    assume c: "consistent U s (add_mset (Map.empty, rests k) M)"
    obtain f s1 where fs: "find_or_create path s = (f, s1)" by fastforce
    have "consistent U s1 (add_mset (Map.empty, has (Finds path f) k) M)"
    proof (cases "findex s path")
      case None
      then have e: "f = next_file s" "s1 = snd (find_or_create path s)" using fs by (auto simp: find_or_create_def)
      show ?thesis unfolding e has_def by (rule create_step [OF c None U])
    next
      case (Some e)
      then have e: "s1 = s" "f = e" using fs by (simp_all add: find_or_create_def)
      show ?thesis unfolding e by (rule change_role [where r = Rests and H = Map.empty]) (use c Some U in auto)
    qed
    then show "\<exists>s' r g'. (let (f, s1) = find_or_create path s in
        Some (s1, Release Writing File_Index (Acquire Reading File_Index (write_file E f ?hs buf offset)))) = Some (s', r) \<and>
        consistent U s' (add_mset (Map.empty, g') M) \<and> safely U n Map.empty g' r"
      using fs w by (auto intro!: safely_lock safely_unlock)
  qed
  have "safely U n Map.empty (rests k) (Atomic (\<lambda>s. case findex s path of
      None \<Rightarrow> Some (s, Release Reading File_Index (Acquire Writing File_Index ?q))
    | Some f \<Rightarrow> Some (s, write_file E f ?hs buf offset)))"
    by (rule safely_find) (use U w q in \<open>auto intro: safely_lock safely_unlock\<close>)
  then have "safely U n Map.empty (rests k) (Acquire Reading File_Index (Atomic (\<lambda>s. case findex s path of
      None \<Rightarrow> Some (s, Release Reading File_Index (Acquire Writing File_Index ?q))
    | Some f \<Rightarrow> Some (s, write_file E f ?hs buf offset))))"
    by (intro safely_lock) simp_all
  then show ?thesis using True unfolding write_prog_def Let_def by (simp cong: option.case_cong)
qed

end
