(* ===== verification/Handler_Races.thy ===== *)
theory Handler_Races
  imports Handler_Alone
begin

text \<open>
  What can go wrong between handlers, because a lock is let go and taken again, or taken too late. Each theorem gives
  a schedule of the threads that leads to it.
\<close>

lemmas system_exec = start_system_def thread_step_def set_lock_def set_prog_def asked_def join_queue_def fifo_start_def
  admissible_def

lemmas programs_exec = write_prog_def unlink_prog_def read_prog_def find_or_create_def write_file_def lock_file_def with_file_def
  lock_block_def unlink_blocks_def write_layout_def write_io_def write_cleanup_def read_range_def free_file_def
  no_locals_def acquire_block_def note_block_def new_block_def new_file_def assign_offset_def by_digest_def Let_def

lemma write_unlink_steps:
  assumes "findex s path = None" and "path \<noteq> ''/backend/.metadata''" "path \<noteq> ''/backend/.sysdata''"
    and "int (length buf) mod 4096 = 0" and "iter_order E [] = []" and "sys_unlink E path (kern (store s)) = (SysOk (), k)"
  shows "\<exists>t. run_schedule [0,0,0,0,0,0,0,0,1,1,1,1,1,1,1,1,1,1,1,1,1,1,0,0]
    (start_system s [write_prog E path buf offset, unlink_prog E path]) = Some t \<and> undefined_at 0 t"
  using assms by (simp add: system_exec programs_exec undefined_at_def)

lemma dedup_race_steps:
  assumes X: "length X = 4096" and new: "blockIndex (store s) (sha512 E X) = None"
    and fi: "findex s pa = None" "findex s pb = Some f" "files s f = Some (new_file pb)" "f \<noteq> next_file s"
    and fd: "backend_fd (store s) \<noteq> -1"
    and k: "memalign E (kern (store s)) = (True, k1)" "memalign E k1 = (True, k2)"
      "sys_pread E (backend_fd (store s)) 4096 0 k2 = (SysOk Y, k3)"
    and Y: "length Y = 4096"
  shows "\<exists>t. run_schedule ([0,0,0,0,0,0,0,0,0,0,0,0,0,0,0,0,0,0,0,0,0,0,
      1,1,1,1,1,1,1,1,1,1,1,1,1,1,1,1,1,1,1,1,1,1,1,1,1,1,1, 2,2,2,2,2,2,2,2,2,2,2,2,2,2,2,2,2,2])
    (start_system s [write_prog E pa X 0, write_prog E pb X 0, read_prog E pb 4096 0]) = Some t \<and>
    progs t ! 1 = Give (Returns 4096) \<and> progs t ! 2 = Give (Read_Returns 4096 Y)"
proof -
  have "pa \<noteq> pb" using fi by auto
  then show ?thesis using assms
    by (simp add: system_exec programs_exec s32_def u64_def s64_def tdiv_def read_one_def read_start_in_block_def bytes_to_read_def
      block_of_file_def ptr_array_index_def)
qed


text \<open>C22. \<^verbatim>\<open>xmp_write\<close> lets go of the file index between creating a file and locking it (lines 638 to 642). An
  \<^verbatim>\<open>xmp_unlink\<close> of that path that fits into the gap takes the file, and frees it: the write then locks and uses
  freed memory. The handlers do not keep the two apart.\<close>

theorem write_unlink_race:
  assumes "findex s path = None" and "path \<noteq> ''/backend/.metadata''" "path \<noteq> ''/backend/.sysdata''"
    and "int (length buf) mod 4096 = 0" and "iter_order E [] = []" and "sys_unlink E path (kern (store s)) = (SysOk (), k)"
  shows "\<exists>t. reached s [handler E P (Ask_Write path buf offset), handler E P (Ask_Unlink path)] t \<and> undefined_at 0 t"
proof -
  obtain t where r: "run_schedule [0,0,0,0,0,0,0,0,1,1,1,1,1,1,1,1,1,1,1,1,1,1,0,0]
    (start_system s [write_prog E path buf offset, unlink_prog E path]) = Some t" and t: "undefined_at 0 t"
    using write_unlink_steps [OF assms] by blast
  have "reached s [write_prog E path buf offset, unlink_prog E path] t" by (rule reachedI [OF r]) simp
  then show ?thesis using t by auto
qed

text \<open>C21. A block is in the index, for others to find, before its creator has locked it or given it a slot (lines 672 to
  693). A second \<^verbatim>\<open>xmp_write\<close> of the same contents \<open>X\<close>, to another file, that runs in between takes the block for stored and reports
  success; an \<^verbatim>\<open>xmp_read\<close> of that file then returns success with whatever the data file has at offset 0, the contents \<open>Y\<close> of some
  other block.\<close>

theorem dedup_read_race:
  assumes E: "io_ok E (backend_fd (store s)) view" and fd: "backend_fd (store s) \<noteq> -1"
    and mem: "\<And>k. fst (memalign E k)" and rd: "\<And>k. \<exists>b. fst (sys_pread E (backend_fd (store s)) 4096 0 k) = SysOk b"
    and s: "shared_ok s" "findex s pa = None" "findex s pb = Some f" "files s f = Some (new_file pb)"
    and X: "length X = 4096" "blockIndex (store s) (sha512 E X) = None"
    and Y: "view (kern (store s)) 0 = Some Y" "length Y = 4096"
  shows "\<exists>t. reached s [handler E P (Ask_Write pa X 0), handler E P (Ask_Write pb X 0), handler E P (Ask_Read pb 4096 0)] t \<and>
    progs t ! 1 = Give (Returns 4096) \<and> progs t ! 2 = Give (Read_Returns 4096 Y)"
proof -
  let ?k1 = "snd (memalign E (kern (store s)))"
  let ?k2 = "snd (memalign E ?k1)"
  have k: "memalign E (kern (store s)) = (True, ?k1)" "memalign E ?k1 = (True, ?k2)" using mem by (simp_all add: prod_eq_iff)
  obtain b k3 where b: "sys_pread E (backend_fd (store s)) 4096 0 ?k2 = (SysOk b, k3)" using rd [of ?k2] by (metis prod.collapse)
  have "view ?k2 = view (kern (store s))" using os_ok_frame(1) [OF io_ok_os [OF E]] by simp
  then have "b = Y" using io_ok_pread [OF E _ Y(2) b] Y(1) by simp
  moreover have "f \<noteq> next_file s" using s(1,3) by (auto simp: shared_ok_def)
  ultimately obtain t where r: "run_schedule ([0,0,0,0,0,0,0,0,0,0,0,0,0,0,0,0,0,0,0,0,0,0,
      1,1,1,1,1,1,1,1,1,1,1,1,1,1,1,1,1,1,1,1,1,1,1,1,1,1,1, 2,2,2,2,2,2,2,2,2,2,2,2,2,2,2,2,2,2])
    (start_system s [write_prog E pa X 0, write_prog E pb X 0, read_prog E pb 4096 0]) = Some t"
    and t: "progs t ! 1 = Give (Returns 4096)" "progs t ! 2 = Give (Read_Returns 4096 Y)"
    using dedup_race_steps [OF X s(2-4) _ fd k] b Y(2) by auto
  have "reached s [write_prog E pa X 0, write_prog E pb X 0, read_prog E pb 4096 0] t" by (rule reachedI [OF r]) simp
  then show ?thesis using t by auto
qed

section \<open>The properties on a concrete store\<close>

text \<open>A store with the block \<open>blockB\<close> at offset 0, as the file \<^verbatim>\<open>/g\<close>, and the empty file \<^verbatim>\<open>/b\<close>.\<close>

definition demo_shared :: "demo_kernel shared_store" where
  "demo_shared = \<lparr>store = \<lparr>fileIndex = Map.empty, blockIndex = [replicate 64 9 \<mapsto> 0], freeList = [], backend_fd = 3,
     next_free_offset = 4096,
     heap = [0 \<mapsto> \<lparr>block_offset = 0, block_id = replicate 64 9, block_size = 4096, counter = 1\<rparr>], next_addr = 1,
     kern = \<lparr>dk_view = [0 \<mapsto> blockB], dk_left = 9\<rparr>\<rparr>,
   findex = [''/g'' \<mapsto> 0, ''/b'' \<mapsto> 1],
   files = [0 \<mapsto> \<lparr>file_id = ''/g'', realSize = 4096, logicalSize = 4096, blockList = [0]\<rparr>, 1 \<mapsto> new_file ''/b''],
   next_file = 2\<rparr>"

lemma demo_shared_ok: "shared_ok demo_shared" "index_ok (store demo_shared)"
  by (auto simp: shared_ok_def demo_shared_def index_ok_def split: if_splits)

theorem handlers_finish_witness:
  "\<forall>P. \<exists>t. reached demo_shared (map (worker demo_os P) [[Ask_Unlink ''/x''], [Ask_Read ''/x'' 4096 0]]) t \<and>
     ((\<forall>i<2. finished i t) \<or> (\<exists>i<2. undefined_at i t))"
proof
  fix P
  let ?ps = "map (worker demo_os P) [[Ask_Unlink ''/x''], [Ask_Read ''/x'' 4096 0]]"
  have "\<exists>t. run_schedule [0,0,0,0,1,1,1,1] (start_system demo_shared ?ps) = Some t \<and> (\<nexists>s'. moves t s')"
    by (simp add: system_exec programs_exec demo_shared_def moves_def nth_Cons split: nat.splits)
  then obtain t where r: "run_schedule [0,0,0,0,1,1,1,1] (start_system demo_shared ?ps) = Some t" and "\<nexists>s'. moves t s'" by blast
  moreover have "reached demo_shared ?ps t" using r by (rule reachedI) simp
  ultimately have t: "reached demo_shared ?ps t" "\<nexists>s'. moves t s'" by simp_all
  with handlers_finish [of demo_shared demo_os P "[[Ask_Unlink ''/x''], [Ask_Read ''/x'' 4096 0]]"]
  have "(\<forall>i<2. finished i t) \<or> (\<exists>i<2. undefined_at i t)" by (simp add: numeral_2_eq_2)
  with t(1) show "\<exists>t. reached demo_shared ?ps t \<and> ((\<forall>i<2. finished i t) \<or> (\<exists>i<2. undefined_at i t))" by blast
qed

text \<open>Thread 0 has the write lock of the file index, thread 1 sleeps in its call for the read lock.\<close>

text \<open>An \<^verbatim>\<open>unlink\<close> has the lock of the index, and a read sleeps until it gets it.\<close>

lemma demo_ticket_run:
  assumes "p \<noteq> ''/backend/.metadata''" and "p \<noteq> ''/backend/.sysdata''"
  shows "\<exists>s. ticket_moves\<^sup>*\<^sup>* (ticket_start demo_shared (map (worker demo_os P) [[Ask_Unlink p], [Ask_Read p 4096 0]])) s \<and>
    threads (tlocks s File_Index) = [Holding Writing, Waiting Reading 1 True]"
proof -
  let ?ps = "map (worker demo_os P) [[Ask_Unlink p], [Ask_Read p 4096 0]]"
  define s0 where "s0 = ticket_start demo_shared ?ps"
  obtain s1 where s1: "ticket_step 0 s0 = Some s1" "length (tprogs s1) = 2"
      "\<exists>s2. ticket_step 1 s1 = Some s2 \<and> threads (tlocks s2 File_Index) = [Holding Writing, Waiting Reading 1 True]"
    using assms by (simp add: s0_def ticket_start_def ticket_step_def after_call_def programs_exec call_lock_def rwlock_start_def
        ticket_rwlock_init_def ticket_rwlock_write_lock_def ticket_rwlock_read_lock_def take_ticket_def set_phase_def)
  then obtain s2 where s2: "ticket_step 1 s1 = Some s2" "threads (tlocks s2 File_Index) = [Holding Writing, Waiting Reading 1 True]"
    by blast
  have "0 < length (tprogs s0)" by (simp add: s0_def ticket_start_def)
  from by_thread [OF this s1(1)] have "ticket_moves s0 s1" .
  moreover have "ticket_moves s1 s2" by (rule by_thread [OF _ s2(1)]) (simp add: s1(2))
  ultimately have "ticket_moves\<^sup>*\<^sup>* s0 s2" by (meson converse_rtranclp_into_rtranclp rtranclp.rtrancl_refl)
  then show ?thesis using s2(2) unfolding s0_def by blast
qed

theorem handlers_over_ticket_locks_witness:
  "\<forall>P. \<exists>s q. threads (tlocks s File_Index) = [Holding Writing, Waiting Reading 1 True] \<and> abstracts s q \<and>
     reached demo_shared (map (worker demo_os P) [[Ask_Unlink ''/x''], [Ask_Read ''/x'' 4096 0]]) q"
proof
  fix P
  let ?ps = "map (worker demo_os P) [[Ask_Unlink ''/x''], [Ask_Read ''/x'' 4096 0]]"
  obtain s where s: "ticket_moves\<^sup>*\<^sup>* (ticket_start demo_shared ?ps) s" "threads (tlocks s File_Index) = [Holding Writing, Waiting Reading 1 True]"
    using demo_ticket_run [of "''/x''" P] by auto
  from handlers_over_ticket_locks [OF s(1)] obtain q where "reached demo_shared ?ps q" "abstracts s q" by auto
  then show "\<exists>s q. threads (tlocks s File_Index) = [Holding Writing, Waiting Reading 1 True] \<and> abstracts s q \<and> reached demo_shared ?ps q"
    using s(2) by blast
qed

theorem handlers_run_alone_witness:
  "\<forall>P. \<exists>n t. run_schedule (replicate n 0) (start_system demo_shared [handler demo_os P (Ask_Write ''/b'' blockA 0)]) = Some t \<and>
     progs t = [Give (Returns 4096)]"
proof
  fix P
  obtain c where "sequential demo_os P (Ask_Write ''/b'' blockA 0) (ctx_of demo_shared) = Some (Returns 4096, c)"
    by (simp add: sequential_def ctx_of_def file_at_def demo_shared_def xmp_write_exec demo_exec)
  from handlers_run_alone [OF demo_os_ok demo_shared_ok(2,1) this]
  show "\<exists>n t. run_schedule (replicate n 0) (start_system demo_shared [handler demo_os P (Ask_Write ''/b'' blockA 0)]) = Some t \<and>
     progs t = [Give (Returns 4096)]" by blast
qed

theorem write_unlink_race_witness:
  "\<forall>P. \<exists>t. reached demo_shared [handler demo_os P (Ask_Write ''/f'' blockA 0), handler demo_os P (Ask_Unlink ''/f'')] t \<and> undefined_at 0 t"
  by (intro allI write_unlink_race) (simp_all add: demo_shared_def demo_os_def)

theorem dedup_read_race_witness:
  "\<forall>P. \<exists>t. reached demo_shared [handler demo_os P (Ask_Write ''/a'' blockA 0), handler demo_os P (Ask_Write ''/b'' blockA 0),
      handler demo_os P (Ask_Read ''/b'' 4096 0)] t \<and>
    progs t ! 1 = Give (Returns 4096) \<and> progs t ! 2 = Give (Read_Returns 4096 blockB)"
proof
  fix P
  have "\<exists>b. fst (sys_pread demo_os fd 4096 0 k) = SysOk b" for fd k
    by (simp add: demo_os_def demo_pread_def split: option.splits)
  then show "\<exists>t. reached demo_shared [handler demo_os P (Ask_Write ''/a'' blockA 0), handler demo_os P (Ask_Write ''/b'' blockA 0),
      handler demo_os P (Ask_Read ''/b'' 4096 0)] t \<and>
    progs t ! 1 = Give (Returns 4096) \<and> progs t ! 2 = Give (Read_Returns 4096 blockB)"
    using demo_shared_ok(1) by (intro dedup_read_race [OF demo_io_ok(1), where f = 1]) (simp_all add: demo_shared_def demo_os_simps)
qed

end
