(* ===== verification/Handler_Sound.thy ===== *)
theory Handler_Sound
  imports Handler_Safety Handler_Races
begin

text \<open>
  The handlers of the store side by side never use freed memory, and leave a sound store, whatever the interleaving.

  First \<^verbatim>\<open>xmp_unlink\<close> is proved along its text like the other handlers in \<open>Handler_Safety\<close>, with what a thread records while it
  frees the blocks of a file; then workers, which serve one request after the other. A store at rest (\<open>store_sound\<close>) is one of which
  the invariant holds with threads that have recorded nothing. The locale \<open>preserving\<close> then gives \<open>handlers_memory_safe\<close>,
  and with the simulation of queues by the code of the locks \<open>handlers_answer_all\<close>. What the requests have to satisfy
  is \<open>requests_ok\<close>: no path is both written and unlinked, because \<open>write_unlink_race\<close> shows what happens otherwise, sizes
  fit the C types (\<open>request_fits\<close>), and counters and the data file have room for all blocks together (\<open>in_bounds\<close>).
\<close>

section \<open>\<^verbatim>\<open>xmp_unlink\<close>\<close>

lemma safely_rest_frees:
  assumes "n \<le> k"
  shows "safely U n H (frees k f fl None) (Atomic (\<lambda>s. Some (free_file f s, Give (Returns 0))))"
  by (rule proved_atomic) (use assms in \<open>auto intro!: exI safely_rest free_file_step simp: frees_def rests_def\<close>)

lemma safely_release_prog:
  fixes p :: "'k handler"
  assumes a: "a \<in># fl" and H: "\<And>h b. H (Block_Lock h b) = None" "H Free_List = None"
    and p: "safely U n H (frees k f (filter_mset (\<lambda>x. x \<noteq> a) fl) None) p"
  shows "safely U n H (frees k f fl None) (release_prog a (int (count fl a)) p)"
  unfolding release_prog_def
proof (rule proved_atomic)
  fix s :: "'k shared_store" and M
  let ?g = "frees k f fl None" and ?fl = "filter_mset (\<lambda>x. x \<noteq> a) fl"
  assume c: "consistent U s (add_mset (H, ?g) M)"
  obtain b0 where b0: "heap (store s) a = Some b0" using flight_live [OF c, of "(H, ?g)" a] a by auto
  let ?lk = "Block_Lock (block_id b0) a"
  let ?drop = "Release Writing Free_List (Release Writing ?lk (drop_block a p))"
  let ?return = "Acquire Writing Free_List (Atomic (\<lambda>s. case heap (store s) a of None \<Rightarrow> None
      | Some b \<Rightarrow> Some (set_store ((store s)\<lparr>freeList := freeList (store s) @ [block_offset b]\<rparr>) s, ?drop)))"
  have d: "safely U n H (frees k f ?fl (Some (a, True))) ?drop"
    unfolding drop_block_def by (intro safely_unlock H proved_atomic) (use p drop_step in blast)
  have r: "safely U n H (frees k f ?fl (Some (a, False))) ?return"
  proof (intro safely_lock H(2) proved_atomic)
    fix s :: "'k shared_store" and M
    assume "consistent U s (add_mset (H, frees k f ?fl (Some (a, False))) M)"
    from return_step [OF this] d show "\<exists>s' q g'. (case heap (store s) a of None \<Rightarrow> None
        | Some b \<Rightarrow> Some (set_store ((store s)\<lparr>freeList := freeList (store s) @ [block_offset b]\<rparr>) s, ?drop)) = Some (s', q) \<and>
        consistent U s' (add_mset (H, g') M) \<and> safely U n H g' q" by auto
  qed
  have "safely U n H ?g (Atomic (\<lambda>s. case heap (store s) a of None \<Rightarrow> None | Some b \<Rightarrow>
      let block = b\<lparr>counter := s32 (counter b - int (count fl a))\<rparr>; c = (store s)\<lparr>heap := (heap (store s))(a \<mapsto> block)\<rparr> in
      if counter block = 0 then Some (set_store (c\<lparr>blockIndex := (blockIndex c)(block_id block := None)\<rparr>) s, ?return)
      else Some (set_store c s, Release Writing ?lk p)))" (is "safely U n H ?g (Atomic ?G)")
  proof (rule proved_atomic)
    fix s :: "'k shared_store" and M
    assume c: "consistent U s (add_mset (H, ?g) M)"
    obtain b where b: "heap (store s) a = Some b" and s32: "s32 (counter b - int (count fl a)) = counter b - int (count fl a)"
      and one: "counter b - int (count fl a) \<noteq> 0 \<Longrightarrow>
        consistent U (set_store ((store s)\<lparr>heap := (heap (store s))(a \<mapsto> b\<lparr>counter := counter b - int (count fl a)\<rparr>)\<rparr>) s)
          (add_mset (H, frees k f ?fl None) M)"
      and two: "counter b - int (count fl a) = 0 \<Longrightarrow>
        consistent U (set_store ((store s)\<lparr>heap := (heap (store s))(a \<mapsto> b\<lparr>counter := counter b - int (count fl a)\<rparr>),
          blockIndex := (blockIndex (store s))(block_id b := None)\<rparr>) s) (add_mset (H, frees k f ?fl (Some (a, False))) M)"
      using lower_step [OF c a] by (auto simp: Let_def)
    show "\<exists>s' q g'. ?G s = Some (s', q) \<and> consistent U s' (add_mset (H, g') M) \<and> safely U n H g' q"
    proof (cases "counter b - int (count fl a) = 0")
      case True
      then show ?thesis using b s32 two [OF True] r by (simp add: Let_def) blast
    next
      case False
      then show ?thesis using b s32 one [OF False] safely_unlock [OF H(1) p] by (simp add: Let_def) blast
    qed
  qed
  then have "safely U n H ?g (Acquire Writing ?lk (Atomic ?G))" by (intro safely_lock H(1))
  then show "\<exists>s' q g'. (case heap (store s) a of None \<Rightarrow> None | Some b0 \<Rightarrow> (let lk = Block_Lock (block_id b0) a in Some (s, Acquire Writing lk (Atomic (\<lambda>s.
       case heap (store s) a of None \<Rightarrow> None
       | Some b \<Rightarrow>
         let block = b\<lparr>counter := s32 (counter b - int (count fl a))\<rparr>;
             c = (store s)\<lparr>heap := (heap (store s))(a \<mapsto> block)\<rparr> in
         if counter block = 0 then
           Some (set_store (c\<lparr>blockIndex := (blockIndex c)(block_id block := None)\<rparr>) s,
             Acquire Writing Free_List (Atomic (\<lambda>s. case heap (store s) a of None \<Rightarrow> None
               | Some b \<Rightarrow> Some (set_store ((store s)\<lparr>freeList := freeList (store s) @ [block_offset b]\<rparr>) s,
                 Release Writing Free_List (Release Writing lk (drop_block a p))))))
         else Some (set_store c s, Release Writing lk p)))))) = Some (s', q) \<and>
      consistent U s' (add_mset (H, g') M) \<and> safely U n H g' q" (is "\<exists>s' q g'. ?F = _ \<and> _ s' g' \<and> _ q g'")
    using c by (intro exI [of _ s] exI [of _ "Acquire Writing ?lk (Atomic ?G)"] exI [of _ ?g] conjI)
      (simp_all only: b0 option.case Let_def)
qed

lemma safely_release_progs:
  fixes p :: "'k handler"
  assumes H: "\<And>h b. H (Block_Lock h b) = None" "H Free_List = None" and p: "\<And>fl. safely U n H (frees k f fl None) p"
  shows "distinct as \<Longrightarrow> (\<And>a. a \<in> set as \<Longrightarrow> a \<in># fl \<and> map_of tab a = Some (int (count fl a))) \<Longrightarrow>
    safely U n H (frees k f fl None) (release_progs tab as p)"
proof (induction as arbitrary: fl)
  case (Cons a as)
  let ?fl = "filter_mset (\<lambda>x. x \<noteq> a) fl"
  have "safely U n H (frees k f ?fl None) (release_progs tab as p)"
    using Cons.prems by (intro Cons.IH) auto
  moreover have a: "a \<in># fl" "map_of tab a = Some (int (count fl a))" using Cons.prems(2) [of a] by simp_all
  ultimately show ?case unfolding release_progs.simps a(2) option.case by (intro safely_release_prog [OF a(1) H])
qed (simp add: p)

text \<open>An unlink that has taken the file out of the index.\<close>

definition owns :: "bool \<Rightarrow> string \<Rightarrow> nat \<Rightarrow> addr list \<Rightarrow> nat \<Rightarrow> ghost" where
  "owns e p f as n = (rests n)\<lparr>role := Owns e p f, flight := mset as\<rparr>"

lemma owns_simps [simp]:
  "role (owns e p f as n) = Owns e p f" "flight (owns e p f as n) = mset as" "fresh (owns e p f as n) = []"
  "table (owns e p f as n) = []" "doomed (owns e p f as n) = None" "left (owns e p f as n) = n" "room (owns e p f as n) = 0"
  "dooms (owns e p f as n) = {}"
  by (simp_all add: owns_def dooms_def)

lemma owns_file:
  assumes "consistent U s (add_mset (H, owns e p f as k) M)"
  shows "\<exists>m. files s f = Some m"
  using consistent_mine(1) [OF assms] by (auto simp: view_ok_def)

lemma owns_blocks:
  assumes "consistent U s (add_mset (H, owns e p f as k) M)" and "files s f = Some m"
  shows "mset as = mset (blockList m)"
  using consistent_mine(1) [OF assms(1)] assms(2) by (auto simp: view_ok_def)

text \<open>Once it has the lock of the file nobody else knows of it.\<close>

lemma close_step:
  assumes c: "consistent U s (add_mset (H, owns False p f as k) M)" and ap: "apart_all (H(File_Lock f \<mapsto> Writing)) M"
  shows "consistent U s (add_mset (H, owns True p f as k) M)"
proof (rule reassign [OF c])
  show "view_ok U s (H, owns True p f as k)" using consistent_mine(1) [OF c] by (simp add: view_ok_def)
  show "\<forall>v \<in># M. compatible (owns True p f as k) (snd v)"
  proof
    fix v
    assume v: "v \<in># M"
    obtain K g where w: "v = (K, g)" by (cases v)
    have "K (File_Lock f) = None" using apart_allD [OF ap, of K g] v w by simp
    then have "f \<notin> reading (role g)" using consistent_mine(2) [OF c v] w by (cases "role g") (auto simp: view_ok_def)
    then show "compatible (owns True p f as k) (snd v)" using consistent_mine(3) [OF c v] w by (auto simp: compatible_def)
  qed
qed simp_all

lemma safely_unlink_failed:
  assumes "n \<le> k"
  shows "safely U n Map.empty (owns True p f as k) (unlink_failed p f err :: 'k handler)"
  unfolding unlink_failed_def
proof (intro safely_unlock safely_lock proved_atomic)
  fix s :: "'k shared_store" and M
  assume c: "consistent U s (add_mset (Map.empty, owns True p f as k) M)"
  show "\<exists>s' q g'. Some (insert_file p f s, Release Writing File_Index (Give (Returns err))) = Some (s', q) \<and>
      consistent U s' (add_mset (Map.empty, g') M) \<and> safely U n Map.empty g' q"
    using put_back_step [OF c owns_def] assms by (auto intro!: exI [of _ "rests k"] safely_unlock safely_rest)
qed simp_all

lemma safely_unlink_blocks:
  assumes n: "n \<le> k" and E: "\<And>xs. mset (iter_order E xs) = mset xs"
  shows "safely U n Map.empty (owns True p f as k) (unlink_blocks E f :: 'k handler)"
  unfolding unlink_blocks_def
proof (rule safely_with_file [OF owns_file])
  fix s :: "'k shared_store" and M m
  assume c: "consistent U s (add_mset (Map.empty, owns True p f as k) M)" and f: "files s f = Some m"
  let ?bs = "blockList m" and ?tab = "count_blocks (blockList m) []"
  have fl: "mset as = mset ?bs" by (rule owns_blocks [OF c f])
  have own: "consistent U s (add_mset (Map.empty, frees k f (mset ?bs) None) M)"
    by (rule reassign [OF c]) (use consistent_mine(3) [OF c] fl in \<open>auto simp: frees_view compatible_def\<close>)
  have "count_list ?bs a < 2 ^ 31" for a
  proof -
    have "int (refs (file_at s) a + count (sum_of flight (add_mset (Map.empty, owns True p f as k) M)) a) \<le> ctr (heap (store s)) a"
      using consistentD(3) [OF c] by (simp only: counted_def)
    moreover have "ctr (heap (store s)) a + int (sum_of left (add_mset (Map.empty :: lock \<rightharpoonup> access, owns True p f as k) M)) < 2 ^ 31"
      using consistentD(4) [OF c] by (simp only: in_bounds_def)
    moreover have "count_list ?bs a \<le> count (sum_of flight (add_mset (Map.empty, owns True p f as k) M)) a"
      using fl by (simp add: count_mset)
    ultimately have "int (count_list ?bs a) < 2 ^ 31" by linarith
    then show ?thesis by simp
  qed
  then have counts: "distinct (map fst ?tab)" "set (map fst ?tab) = set ?bs"
    "\<And>a. a \<in> set ?bs \<Longrightarrow> map_of ?tab a = Some (int (count_list ?bs a))" using block_counts by blast+
  have ms: "mset (iter_order E (map fst ?tab)) = mset (map fst ?tab)" by (rule E)
  have p: "safely U n Map.empty (frees k f (mset ?bs) None) (release_progs ?tab (iter_order E (map fst ?tab))
      (Release Writing Block_Index (Release Writing (File_Lock f) (Atomic (\<lambda>s. Some (free_file f s, Give (Returns 0)))))) :: 'k handler)"
  proof (rule safely_release_progs)
    show "distinct (iter_order E (map fst ?tab))" using counts(1) mset_eq_imp_distinct_iff [OF ms] by simp
    fix a
    assume "a \<in> set (iter_order E (map fst ?tab))"
    then have "a \<in> set ?bs" using mset_eq_setD [OF ms] counts(2) by simp
    then show "a \<in># mset ?bs \<and> map_of ?tab a = Some (int (count (mset ?bs) a))" using counts(3) by (simp add: count_mset)
  qed (use n in \<open>simp_all add: safely_unlock safely_rest_frees\<close>)
  show "\<exists>s' q g'. (let blockCounts = ?tab in Some (s, release_progs blockCounts (iter_order E (map fst blockCounts))
      (Release Writing Block_Index (Release Writing (File_Lock f) (Atomic (\<lambda>s. Some (free_file f s, Give (Returns 0)))))))) = Some (s', q) \<and>
      consistent U s' (add_mset (Map.empty, g') M) \<and> safely U n Map.empty g' (q :: 'k handler)"
    unfolding Let_def by (intro exI conjI, rule refl, rule own, rule p)
qed

lemma safely_unlink_file:
  assumes n: "n \<le> k" and E: "\<And>xs. mset (iter_order E xs) = mset xs"
  shows "safely U n Map.empty (owns False p f as k) (lock_file Writing f (Atomic (\<lambda>s.
      let (res, k) = sys_unlink E p (kern (store s)); s1 = set_store ((store s)\<lparr>kern := k\<rparr>) s;
          failed = (case res of SysErr e \<Rightarrow> e \<noteq> ENOENT | SysOk _ \<Rightarrow> False)
      in Some (s1, if failed then unlink_failed p f (- sys_errno res) else Acquire Writing Block_Index (unlink_blocks E f)))) :: 'k handler)"
    (is "safely U n _ _ (lock_file Writing f ?p)")
  unfolding lock_file_def
proof (rule safely_with_file [OF owns_file])
  fix s :: "'k shared_store" and M m
  assume c: "consistent U s (add_mset (Map.empty, owns False p f as k) M)"
  have "safely U n Map.empty (owns True p f as k) ?p"
  proof (rule proved_atomic)
    fix s :: "'k shared_store" and M
    assume c: "consistent U s (add_mset (Map.empty, owns True p f as k) M)"
    obtain res e where u: "sys_unlink E p (kern (store s)) = (res, e)" by fastforce
    have "safely U n Map.empty (owns True p f as k) (if (case res of SysErr e \<Rightarrow> e \<noteq> ENOENT | SysOk _ \<Rightarrow> False)
        then unlink_failed p f (- sys_errno res) else Acquire Writing Block_Index (unlink_blocks E f) :: 'k handler)"
      by (simp add: safely_lock safely_unlink_failed [OF n] safely_unlink_blocks [OF n E])
    then show "\<exists>s' q g'. (let (res, k) = sys_unlink E p (kern (store s)); s1 = set_store ((store s)\<lparr>kern := k\<rparr>) s;
          failed = (case res of SysErr e \<Rightarrow> e \<noteq> ENOENT | SysOk _ \<Rightarrow> False)
        in Some (s1, if failed then unlink_failed p f (- sys_errno res) else Acquire Writing Block_Index (unlink_blocks E f))) = Some (s', q) \<and>
        consistent U s' (add_mset (Map.empty, g') M) \<and> safely U n Map.empty g' q" using c u by (auto simp: Let_def)
  qed
  then have "safely U n Map.empty (owns False p f as k) (Acquire Writing (File_Lock f) ?p)"
    by (intro proved_acquire [where H' = Map.empty and g' = "owns True p f as k"] close_step) simp_all
  then show "\<exists>s' q g'. Some (s, Acquire Writing (File_Lock f) ?p) = Some (s', q) \<and>
      consistent U s' (add_mset (Map.empty, g') M) \<and> safely U n Map.empty g' q" using c by blast
qed

lemma safely_unlink:
  assumes n: "n \<le> k" and U: "path \<in> U" and E: "\<And>xs. mset (iter_order E xs) = mset xs"
  shows "safely U n Map.empty (rests k) (unlink_prog E path :: 'k handler)"
proof (cases "path = ''/backend/.metadata'' \<or> path = ''/backend/.sysdata''")
  case False
  let ?H = "[File_Index \<mapsto> Writing] :: lock \<rightharpoonup> access"
  let ?p = "\<lambda>f. lock_file Writing f (Atomic (\<lambda>s. let (res, k) = sys_unlink E path (kern (store s)); s1 = set_store ((store s)\<lparr>kern := k\<rparr>) s;
      failed = (case res of SysErr e \<Rightarrow> e \<noteq> ENOENT | SysOk _ \<Rightarrow> False)
    in Some (s1, if failed then unlink_failed path f (- sys_errno res) else Acquire Writing Block_Index (unlink_blocks E f)))) :: 'k handler"
  have "safely U n ?H (rests k) (Atomic (\<lambda>s. case findex s path of
      None \<Rightarrow> Some (s, Release Writing File_Index (Give (Returns (- ENOENT))))
    | Some f \<Rightarrow> Some (s\<lparr>findex := (findex s)(path := None)\<rparr>, Release Writing File_Index (?p f))))"
  proof (rule proved_atomic)
    fix s :: "'k shared_store" and M
    assume c: "consistent U s (add_mset (?H, rests k) M)" and ap: "apart_all ?H M"
    show "\<exists>s' q g'. (case findex s path of None \<Rightarrow> Some (s, Release Writing File_Index (Give (Returns (- ENOENT))))
        | Some f \<Rightarrow> Some (s\<lparr>findex := (findex s)(path := None)\<rparr>, Release Writing File_Index (?p f))) = Some (s', q) \<and>
        consistent U s' (add_mset (?H, g') M) \<and> safely U n ?H g' q"
    proof (cases "findex s path")
      case None
      have "safely U n ?H (rests k) (Release Writing File_Index (Give (Returns (- ENOENT))) :: 'k handler)"
        using n by (intro safely_release_rest safely_rest)
      then show ?thesis using None c by auto
    next
      case (Some f)
      obtain m where m: "files s f = Some m" using indexed_file(2) [OF consistentD(1) [OF c] Some] by blast
      have "consistent U (s\<lparr>findex := (findex s)(path := None)\<rparr>) (add_mset (?H, owns False path f (blockList m) k) M)"
        unfolding owns_def by (rule take_step [OF c ap _ Some U m]) simp
      moreover have "safely U n ?H (owns False path f (blockList m) k) (Release Writing File_Index (?p f))"
      proof (rule safely_release)
        show "safely U n (?H(File_Index := None)) (owns False path f (blockList m) k) (?p f)"
          using safely_unlink_file [OF n E] by simp
        fix s :: "'k shared_store" and M
        assume c: "consistent U s (add_mset (?H, owns False path f (blockList m) k) M)"
        show "consistent U s (add_mset (?H(File_Index := None), owns False path f (blockList m) k) M)"
          by (rule reassign [OF c]) (use consistent_mine(1,3) [OF c] in \<open>auto simp: view_ok_def\<close>)
      qed
      ultimately show ?thesis using Some by auto
    qed
  qed
  then have "safely U n Map.empty (rests k) (Acquire Writing File_Index (Atomic (\<lambda>s. case findex s path of
      None \<Rightarrow> Some (s, Release Writing File_Index (Give (Returns (- ENOENT))))
    | Some f \<Rightarrow> Some (s\<lparr>findex := (findex s)(path := None)\<rparr>, Release Writing File_Index (?p f)))))"
    by (intro safely_acquire) simp_all
  then show ?thesis using False by (simp add: unlink_prog_def)
qed (use n in \<open>auto simp: unlink_prog_def intro: safely_rest\<close>)

section \<open>Requests and workers\<close>

text \<open>Requests whose sizes fit: FUSE hands over less than \<open>2 ^ 31\<close> bytes, and files stay below \<open>2 ^ 43\<close> bytes.\<close>

fun request_fits :: "store_request \<Rightarrow> bool" where
  "request_fits (Ask_Getattr path) = True"
| "request_fits (Ask_Read path sz offset) = (0 \<le> offset \<and> 0 \<le> sz \<and> sz < 2 ^ 31)"
| "request_fits (Ask_Write path buf offset) = (length buf < 2 ^ 31 \<and> offset + int (length buf) \<le> 2 ^ 43)"
| "request_fits (Ask_Unlink path) = True"

fun blocks_asked :: "store_request \<Rightarrow> nat" where
  "blocks_asked (Ask_Write path buf offset) = length buf div 4096"
| "blocks_asked _ = 0"

fun writes_to :: "store_request \<Rightarrow> string set" where
  "writes_to (Ask_Write path buf offset) = {path}"
| "writes_to _ = {}"

fun unlinks :: "store_request \<Rightarrow> string set" where
  "unlinks (Ask_Unlink path) = {path}"
| "unlinks _ = {}"

definition admitted_request :: "string set \<Rightarrow> store_request \<Rightarrow> bool" where
  "admitted_request U q \<longleftrightarrow> request_fits q \<and> writes_to q \<inter> U = {} \<and> unlinks q \<subseteq> U"

lemma safely_handler:
  assumes "admitted_request U q" and "n + blocks_asked q \<le> k" and "\<And>xs. mset (iter_order E xs) = mset xs"
  shows "safely U n Map.empty (rests k) (handler E P q)"
  using assms by (cases q) (auto simp: admitted_request_def intro!: safely_getattr safely_read safely_write safely_unlink)

lemma proved_worker:
  assumes E: "\<And>xs. mset (iter_order E xs) = mset xs"
  shows "\<forall>q \<in> set qs. admitted_request U q \<Longrightarrow> n + sum_list (map blocks_asked qs) \<le> k \<Longrightarrow>
    proved (consistent U) (resting n) H (rests k) (worker E P qs)"
proof (induction qs arbitrary: H k)
  case Nil
  then show ?case by (auto intro!: proved_give simp: resting_def)
next
  case (Cons q qs)
  let ?n = "n + sum_list (map blocks_asked qs)"
  have "proved (consistent U) (resting n) K g (and_then (worker E P qs) (\<lambda>rs. Give (r # rs)))" if g: "resting ?n g" for K g r
  proof -
    obtain m where m: "g = rests m" "?n \<le> m" using g by (auto simp: resting_def)
    have "proved (consistent U) (resting n) K (rests m) (worker E P qs)" using Cons.prems m(2) by (intro Cons.IH) simp_all
    then show ?thesis unfolding m(1) by (rule proved_and_then) (rule proved_give)
  qed
  moreover have "safely U ?n Map.empty (rests k) (handler E P q)"
    using Cons.prems by (intro safely_handler E) simp_all
  ultimately have "proved (consistent U) (resting n) Map.empty (rests k) (worker E P (q # qs))"
    unfolding worker.simps by (rule proved_and_then [rotated])
  then show ?case
    by (rule proved_fewer_locks) (use settle [of U _ H "rests k"] in simp_all)
qed

section \<open>Sound stores\<close>

text \<open>A store as a mount finds it: files and index match, and the context is \<open>mem_safe\<close>.\<close>

definition store_sound :: "'k shared_store \<Rightarrow> bool" where
  "store_sound s \<longleftrightarrow> shared_ok s \<and> dom (files s) = ran (findex s) \<and> mem_safe (ctx_of s) \<and>
     (\<forall>m \<in> ran (files s). logicalSize m \<le> 2 ^ 43)"

lemma dom_file_at: "shared_ok s \<Longrightarrow> dom (file_at s) = dom (findex s)"
  by (fastforce simp: shared_ok_def file_at_def dom_def split: option.splits)

lemma sound_inv:
  "store_sound s \<longleftrightarrow> files_inv s {} \<and> blocks_inv (store s) {} \<and> counted s {#} \<and> layout_ok (store s) (dom (heap (store s)))"
proof
  assume snd: "store_sound s"
  then have sh: "shared_ok s" and d: "dom (files s) = ran (findex s)" and ms: "mem_safe (ctx_of s)"
    and big: "\<And>f m. files s f = Some m \<Longrightarrow> logicalSize m \<le> 2 ^ 43" by (auto simp: store_sound_def ranI)
  have fo: "finite (dom (file_at s))" "\<And>p m. file_at s p = Some m \<Longrightarrow>
      file_id m = p \<and> 0 \<le> logicalSize m \<and> logicalSize m \<le> 4096 * int (length (blockList m))"
    using ms by (auto simp: mem_safe_def files_ok_def ctx_of_def)
  have at: "file_at s p = Some m" if "findex s p = Some f" "files s f = Some m" for p f m using that by (simp add: file_at_def)
  have "files_inv s {}" unfolding files_inv_def
  proof (intro conjI allI impI)
    show "dom (files s) \<subseteq> {..<next_file s}" using sh d by (auto simp: shared_ok_def ran_def)
    show "finite (dom (findex s))" using fo(1) dom_file_at [OF sh] by simp
    show "p = q" if "findex s p = Some f" "findex s q = Some f" for p q f using that sh unfolding shared_ok_def by blast
    show "file_id m = p" if "findex s p = Some f" "files s f = Some m" for p f m using fo(2) [OF at [OF that]] by simp
    show "sized m" if f: "files s f = Some m" for f m
    proof -
      have "f \<in> ran (findex s)" using d f by auto
      then obtain p where "findex s p = Some f" by (auto simp: ran_def)
      from fo(2) [OF at [OF this f]] big [OF f] show ?thesis by (simp add: sized_def)
    qed
  qed (use d in simp_all)
  moreover have "blocks_inv (store s) {}" using ms by (simp add: mem_safe_def index_ok_def blocks_inv_def ctx_of_def)
  moreover have "counted s {#}" using ms by (simp add: mem_safe_def refs_ok_def counted_def ctx_of_def)
  moreover have "layout_ok (store s) (dom (heap (store s)))" using ms by (simp add: mem_safe_def ctx_of_def)
  ultimately show "files_inv s {} \<and> blocks_inv (store s) {} \<and> counted s {#} \<and> layout_ok (store s) (dom (heap (store s)))" by blast
next
  assume r: "files_inv s {} \<and> blocks_inv (store s) {} \<and> counted s {#} \<and> layout_ok (store s) (dom (heap (store s)))"
  then have fi: "files_inv s {}" by blast
  note D = files_invD [OF fi]
  have sh: "shared_ok s" unfolding shared_ok_def
  proof (intro allI impI conjI)
    fix p f
    assume f: "findex s p = Some f"
    show "files s f \<noteq> None" using indexed_file(2) [OF fi f] by auto
    then show "f < next_file s" by (rule D(3))
    show "q = p" if "findex s q = Some f" for q using D(5) [OF that f] .
  qed
  have "files_ok (ctx_of s)" unfolding files_ok_def
  proof (intro conjI allI impI)
    show "finite (dom (fileIndex (ctx_of s)))" using finite_file_at [OF fi] by (simp add: ctx_of_def)
    fix p m
    assume "fileIndex (ctx_of s) p = Some m"
    then obtain f where f: "findex s p = Some f" "files s f = Some m" by (auto simp: ctx_of_def file_at_def split: option.splits)
    show "file_id m = p" "0 \<le> logicalSize m" "logicalSize m \<le> 4096 * int (length (blockList m))"
      using D(6) [OF f] D(7) [OF f(2)] by (simp_all add: sized_def)
  qed
  moreover have "index_ok (ctx_of s)" using r by (simp add: index_ok_def blocks_inv_def ctx_of_def)
  moreover have "refs_ok (ctx_of s) []" using r by (simp add: refs_ok_def counted_def ctx_of_def)
  moreover have "layout_ok (ctx_of s) (dom (heap (ctx_of s)))" using r by (simp add: ctx_of_def)
  ultimately have "mem_safe (ctx_of s)" by (simp add: mem_safe_def)
  then show "store_sound s" using sh D(1,7) by (auto simp: store_sound_def sized_def ran_def)
qed

lemma resting_totals:
  assumes "\<forall>v \<in># M. \<exists>k. snd v = rests k"
  shows "all_of (owned \<circ> role) M = {}" "all_of dooms M = {}" "all_of returned M = {}" "all_of (set \<circ> fresh) M = {}"
    "sum_of flight M = {#}" "sum_of room M = 0" "pairs compatible (image_mset snd M)" "v \<in># M \<Longrightarrow> view_ok U s v"
proof -
  have "all_of (owned \<circ> role) M = {} \<and> all_of dooms M = {} \<and> all_of returned M = {} \<and> all_of (set \<circ> fresh) M = {} \<and>
    sum_of flight M = {#} \<and> sum_of room M = 0 \<and> pairs compatible (image_mset snd M) \<and> (\<forall>v \<in># M. view_ok U s v)"
    using assms
  proof (induction M)
    case (add w M)
    then obtain k where w: "snd w = rests k" by auto
    have "returned (rests k) = {}" "view_ok U s w" by (simp_all add: w returned_def view_ok_def known_def)
    moreover have "compatible (rests k) g" for g by (simp add: compatible_def)
    ultimately show ?case using add w by auto
  qed simp
  then show "all_of (owned \<circ> role) M = {}" "all_of dooms M = {}" "all_of returned M = {}" "all_of (set \<circ> fresh) M = {}"
    "sum_of flight M = {#}" "sum_of room M = 0" "pairs compatible (image_mset snd M)" "v \<in># M \<Longrightarrow> view_ok U s v" by auto
qed

lemma consistent_resting:
  assumes "\<forall>v \<in># M. \<exists>k. snd v = rests k"
  shows "consistent U s M \<longleftrightarrow> store_sound s \<and> in_bounds (store s) (sum_of left M) 0"
  using resting_totals [OF assms] unfolding consistent_def sound_inv by auto

section \<open>What the threads do to the store\<close>

text \<open>Requests that fit the types and the free space, with no path that is both written and unlinked.\<close>

definition requests_ok :: "'k os \<Rightarrow> 'k shared_store \<Rightarrow> store_request list list \<Rightarrow> bool" where
  "requests_ok E s reqs \<longleftrightarrow> (\<forall>xs. mset (iter_order E xs) = mset xs) \<and> (\<forall>q \<in> set (concat reqs). request_fits q) \<and>
     (\<Union>q \<in> set (concat reqs). writes_to q) \<inter> (\<Union>q \<in> set (concat reqs). unlinks q) = {} \<and>
     in_bounds (store s) (sum_list (map blocks_asked (concat reqs))) 0"

interpretation sound: preserving "consistent U" "resting 0"
    "{(worker E P qs, rests (sum_list (map blocks_asked qs))) | qs. (\<forall>xs. mset (iter_order E xs) = mset xs) \<and>
       (\<forall>q \<in> set qs. admitted_request U q)}" for U and E :: "'k os" and P :: "'k posix"
  by unfold_locales (auto simp: ordered_worker intro: proved_worker)

lemma requests_admitted:
  fixes P :: "'k posix"
  assumes "requests_ok E s reqs" and "store_sound s"
  defines "U \<equiv> (\<Union>q \<in> set (concat reqs). unlinks q)"
    and "pgs \<equiv> map (\<lambda>qs. (worker E P qs, rests (sum_list (map blocks_asked qs)))) reqs"
  shows "set pgs \<subseteq> {(worker E P qs, rests (sum_list (map blocks_asked qs))) | qs. (\<forall>xs. mset (iter_order E xs) = mset xs) \<and>
       (\<forall>q \<in> set qs. admitted_request U q)}"
    and "consistent U s (mset (map (\<lambda>pg. (Map.empty, snd pg)) pgs))"
    and "map fst pgs = map (worker E P) reqs"
proof -
  have "admitted_request U q" if "qs \<in> set reqs" "q \<in> set qs" for qs q
    using assms(1) that by (fastforce simp: requests_ok_def admitted_request_def U_def)
  then show "set pgs \<subseteq> {(worker E P qs, rests (sum_list (map blocks_asked qs))) | qs. (\<forall>xs. mset (iter_order E xs) = mset xs) \<and>
       (\<forall>q \<in> set qs. admitted_request U q)}" using assms(1) by (auto simp: pgs_def requests_ok_def)
  let ?M = "mset (map (\<lambda>pg. (Map.empty, snd pg)) pgs) :: handler_view multiset"
  have "sum_of left ?M = sum_list (map blocks_asked (concat reqs))" unfolding pgs_def by (induction reqs) simp_all
  then have "in_bounds (store s) (sum_of left ?M) 0" using assms(1) by (simp add: requests_ok_def)
  moreover have "\<forall>v \<in># ?M. \<exists>k. snd v = rests k" by (auto simp: pgs_def)
  ultimately show "consistent U s ?M" using consistent_resting assms(2) by blast
  show "map fst pgs = map (worker E P) reqs" by (simp add: pgs_def)
qed

lemma reached_defined:
  assumes "store_sound s0" and "requests_ok E s0 reqs" and "reached s0 (map (worker E P) reqs) s" and "i < length reqs"
  shows "\<not> undefined_at i s"
  using sound.never_undefined [OF _ requests_admitted(1,2) [OF assms(2,1), of P], unfolded requests_admitted(3) [OF assms(2,1)]]
    assms(3,4) by simp

text \<open>When all have answered, the store is sound again.\<close>

lemma rest_sound:
  assumes "store_sound s0" and "requests_ok E s0 reqs" and "reached s0 (map (worker E P) reqs) s" and "\<forall>i<length reqs. finished i s"
  shows "store_sound (shared s)"
proof -
  let ?pgs = "map (\<lambda>qs. (worker E P qs, rests (sum_list (map blocks_asked qs)))) reqs" and ?U = "\<Union>q \<in> set (concat reqs). unlinks q"
  have "reached s0 (map fst ?pgs) s" using assms(3) by (simp add: comp_def)
  from sound.reached_kept [OF this requests_admitted(1,2) [OF assms(2,1), of P]]
  have k: "kept (consistent ?U) (resting 0) s" "length (progs s) = length reqs" by simp_all
  from kept_finished [OF k(1)] assms(4) k(2) obtain G where
    G: "\<forall>g \<in> set G. resting 0 g" "consistent ?U (shared s) (mset (map (Pair Map.empty) G))" by auto
  then have "\<forall>v \<in># mset (map (Pair Map.empty) G) :: handler_view multiset. \<exists>k. snd v = rests k" by (auto simp: resting_def)
  then show ?thesis using consistent_resting G(2) by blast
qed


text \<open>C10. All requests are answered: over the code of \<^verbatim>\<open>ticket_rwlock.c\<close>, such threads can always go on until all of them have
  answered all their requests and left a sound store.\<close>

theorem handlers_answer_all:
  assumes "store_sound s0" and "requests_ok E s0 reqs" and "length reqs < 2 ^ 32"
    and "ticket_moves\<^sup>*\<^sup>* (ticket_start s0 (map (worker E P) reqs)) s"
  shows "\<exists>q. reached s0 (map (worker E P) reqs) q \<and> abstracts s q \<and>
    ((\<forall>i<length reqs. finished i q) \<and> store_sound (shared q) \<or>
     (\<exists>j<length reqs. \<exists>s'. ticket_step j s = Some s' \<and> advances s s'))"
proof -
  have "set (map (worker E P) reqs) \<subseteq> range (worker E P)" by auto
  from workers.over_tickets [OF assms(4) this] obtain q where q: "reached s0 (map (worker E P) reqs) q" "abstracts s q"
    "(\<forall>i<length reqs. finished i q) \<or>
     (\<exists>j<length reqs. undefined_at j q \<or> (\<exists>s'. ticket_step j s = Some s' \<and> advances s s'))" using assms(3) by auto
  then show ?thesis using reached_defined [OF assms(1,2) q(1)] rest_sound [OF assms(1,2) q(1)] by blast
qed

section \<open>The properties on a concrete store\<close>

lemma demo_shared_sound: "store_sound demo_shared"
proof -
  have at: "file_at demo_shared = [''/g'' \<mapsto> \<lparr>file_id = ''/g'', realSize = 4096, logicalSize = 4096, blockList = [0]\<rparr>, ''/b'' \<mapsto> new_file ''/b'']"
    by (auto simp: file_at_def demo_shared_def fun_eq_iff)
  have "index_ok (ctx_of demo_shared)" using demo_shared_ok(2) by (simp add: ctx_of_def)
  moreover have "refs_ok (ctx_of demo_shared) []" unfolding refs_ok_def
    by (simp add: ctx_of_def at refs_def new_file_def) (simp add: demo_shared_def ctr_def)
  moreover have "files_ok (ctx_of demo_shared)" unfolding files_ok_def by (simp add: ctx_of_def at new_file_def)
  moreover have "layout_ok (ctx_of demo_shared) (dom (heap (ctx_of demo_shared)))"
    by (simp add: layout_ok_def ctx_of_def slot_ok_def) (simp add: demo_shared_def boff_def)
  ultimately have "mem_safe (ctx_of demo_shared)" by (simp add: mem_safe_def)
  moreover have "dom (files demo_shared) = ran (findex demo_shared)" by (auto simp: demo_shared_def)
  moreover have "\<forall>m \<in> ran (files demo_shared). logicalSize m \<le> 2 ^ 43" by (auto simp: demo_shared_def new_file_def)
  ultimately show ?thesis using demo_shared_ok(1) by (simp add: store_sound_def)
qed

text \<open>A read that holds the file while its \<^verbatim>\<open>unlink\<close> waits for it.\<close>

lemma demo_requests_ok: "requests_ok demo_os demo_shared [[Ask_Unlink ''/g''], [Ask_Read ''/g'' 4096 0]]"
  by (auto simp: requests_ok_def demo_os_simps in_bounds_def demo_shared_def ctr_def)

lemma demo_read_unlink_run:
  "\<exists>t. run_schedule [1,1,1,1,1,1,1,1,0,0,0,0,0,0,1,1,1,1,1,1,1,1,1,1,0,0,0,0,0,0,0,0,0,0,0,0,0,0,0,0,0,0]
    (start_system demo_shared (map (worker demo_os P) [[Ask_Unlink ''/g''], [Ask_Read ''/g'' 4096 0]])) = Some t \<and>
    progs t = [Give [Returns 0], Give [Read_Returns 4096 blockB]] \<and> findex (shared t) ''/g'' = None"
  by (simp add: system_exec programs_exec demo_shared_def demo_exec s32_def u64_def s64_def tdiv_def read_one_def read_start_in_block_def
      bytes_to_read_def block_of_file_def ptr_array_index_def release_prog_def drop_block_def set_store_def)


theorem handlers_answer_all_witness:
  "\<forall>P. \<exists>s q. threads (tlocks s File_Index) = [Holding Writing, Waiting Reading 1 True] \<and> abstracts s q \<and>
     ((\<forall>i<2. finished i q) \<and> store_sound (shared q) \<or> (\<exists>j<2. \<exists>s'. ticket_step j s = Some s' \<and> advances s s')) \<and>
     reached demo_shared (map (worker demo_os P) [[Ask_Unlink ''/g''], [Ask_Read ''/g'' 4096 0]]) q"
proof
  fix P
  let ?ps = "map (worker demo_os P) [[Ask_Unlink ''/g''], [Ask_Read ''/g'' 4096 0]]"
  obtain s where s: "ticket_moves\<^sup>*\<^sup>* (ticket_start demo_shared ?ps) s" "threads (tlocks s File_Index) = [Holding Writing, Waiting Reading 1 True]"
    using demo_ticket_run [of "''/g''" P] by auto
  have "length [[Ask_Unlink ''/g''], [Ask_Read ''/g'' 4096 0]] = 2" by simp
  from handlers_answer_all [OF demo_shared_sound demo_requests_ok _ s(1), unfolded this] obtain q where "reached demo_shared ?ps q" "abstracts s q"
    "(\<forall>i<2. finished i q) \<and> store_sound (shared q) \<or> (\<exists>j<2. \<exists>s'. ticket_step j s = Some s' \<and> advances s s')"
    by auto
  then show "\<exists>s q. threads (tlocks s File_Index) = [Holding Writing, Waiting Reading 1 True] \<and> abstracts s q \<and>
      ((\<forall>i<2. finished i q) \<and> store_sound (shared q) \<or> (\<exists>j<2. \<exists>s'. ticket_step j s = Some s' \<and> advances s s')) \<and>
      reached demo_shared ?ps q"
    using s(2) by blast
qed

end
