(* ===== verification/Dedup_Faults.thy ===== *)
theory Dedup_Faults
  imports Demo_Store
begin

text \<open>
  What a failing device leaves behind in the deduplicating store. The invariants of \<open>Dedup_Write_Spec\<close> that survive every
  error (\<open>mem_safe\<close>) speak of memory; the contents do not survive: an entry of \<^verbatim>\<open>blockIndex\<close> is made before its block is
  written, and stays when the write fails.
\<close>

lemma iter_order_single: "os_ok E fd view \<Longrightarrow> iter_order E [a] = [a]"
  using os_ok_iter [of E fd view "[a]"] by simp

definition next_slot :: "'k Context \<Rightarrow> int" where
  "next_slot c = (if freeList c = [] then next_free_offset c else last (freeList c))"

lemma failed_write_entry:
  assumes E: "os_ok E (backend_fd c) view" and fd: "backend_fd c \<noteq> -1" and X: "length X = 4096" "blockIndex c (sha512 E X) = None"
    and p: "fileIndex c p = None" and k: "memalign E (kern c) = (True, k0)"
    and fail: "sys_pwrite E (backend_fd c) X (next_slot c) k0 = (SysErr e, k1)"
  shows "\<exists>c1 b. xmp_write E p X 0 c = Some (- e, c1) \<and> kern c1 = k1 \<and> blockIndex c1 (sha512 E X) = Some (next_addr c) \<and>
    heap c1 (next_addr c) = Some b \<and> block_offset b = next_slot c \<and> block_id b = sha512 E X \<and>
    backend_fd c1 = backend_fd c \<and> (\<forall>q. q \<noteq> p \<longrightarrow> fileIndex c1 q = fileIndex c q)"
  using assms os_ok_errno(1) [OF E fail] iter_order_single [OF E]
  by (auto simp: xmp_write_exec next_slot_def split: if_splits)

lemma duplicate_write:
  assumes E: "os_ok E (backend_fd c) view" and X: "length X = 4096" "blockIndex c (sha512 E X) = Some a"
    and b: "heap c a = Some b" "block_id b = sha512 E X" and q: "fileIndex c q = None" and k: "memalign E (kern c) = (True, k0)"
  shows "\<exists>c2 f b'. xmp_write E q X 0 c = Some (4096, c2) \<and> kern c2 = k0 \<and> fileIndex c2 q = Some f \<and> blockList f = [a] \<and>
    heap c2 a = Some b' \<and> block_offset b' = block_offset b"
  using assms iter_order_single [OF E] by (auto simp: xmp_write_exec)

text \<open>C20. A block that could not be written poisons the store: \<^verbatim>\<open>xmp_write\<close> reports the error, but leaves the digest in
  \<^verbatim>\<open>blockIndex\<close> (line 731), so that writing the same contents to another file is taken for a duplicate, writes nothing and
  reports success, and that file does not hold what was written to it.\<close>

theorem failed_write_poisons:
  assumes "os_ok E (backend_fd c) view" and "backend_fd c \<noteq> -1" and mem: "\<And>k. fst (memalign E k)"
    and X: "length X = 4096" "blockIndex c (sha512 E X) = None"
    and p: "fileIndex c p = None" and q: "fileIndex c q = None" "p \<noteq> q"
    and fail: "sys_pwrite E (backend_fd c) X (next_slot c) (snd (memalign E (kern c))) = (SysErr e, k)"
    and lost: "view k (next_slot c) \<noteq> Some X"
  shows "\<exists>c1 c2. xmp_write E p X 0 c = Some (- e, c1) \<and> xmp_write E q X 0 c1 = Some (4096, c2) \<and> abs_fs view c2 q \<noteq> Some X"
proof -
  have m: "memalign E k' = (True, snd (memalign E k'))" for k' using mem by (simp add: prod_eq_iff)
  obtain c1 b where c1: "xmp_write E p X 0 c = Some (- e, c1)" "kern c1 = k" "blockIndex c1 (sha512 E X) = Some (next_addr c)"
      "heap c1 (next_addr c) = Some b" "block_offset b = next_slot c" "block_id b = sha512 E X"
      "backend_fd c1 = backend_fd c" "\<forall>q. q \<noteq> p \<longrightarrow> fileIndex c1 q = fileIndex c q"
    using failed_write_entry [OF assms(1,2) X p m fail] by blast
  have E1: "os_ok E (backend_fd c1) view" using assms(1) c1(7) by simp
  obtain c2 f b' where c2: "xmp_write E q X 0 c1 = Some (4096, c2)" "kern c2 = snd (memalign E k)" "fileIndex c2 q = Some f"
      "blockList f = [next_addr c]" "heap c2 (next_addr c) = Some b'" "block_offset b' = next_slot c"
    using duplicate_write [OF E1 X(1) c1(3,4,6), of q "snd (memalign E k)"] q c1(2,5,8) m by auto
  have "abs_fs view c2 q \<noteq> Some X"
    using c2(2-6) lost X(1) os_ok_frame(1) [OF assms(1), of k]
    by (auto simp: abs_fs_def file_data_def block_data_def split: option.splits)
  then show ?thesis using c1(1) c2(1) by blast
qed

theorem failed_write_poisons_witness:
  "\<exists>c1 c2. xmp_write demo_os ''/f'' blockA 0 (demo_start 0) = Some (- 5, c1) \<and>
     xmp_write demo_os ''/g'' blockA 0 c1 = Some (4096, c2) \<and> abs_fs dk_view c2 ''/g'' \<noteq> Some blockA"
  by (rule failed_write_poisons [OF demo_os_ok, where k = "demo_disk 0"])
    (simp_all add: demo_exec next_slot_def)

end
