(* ===== verification/Skeleton.thy ===== *)
theory Skeleton
  imports Posix
begin

text \<open>
  \<^verbatim>\<open>codebase/skeleton/passthrough.c\<close>, the file system the deduplicating one was made from and is measured against:
  every request goes to the system call of the same name. A handler is an action on the process (\<open>Posix\<close>); the
  optional ones are compiled only when their \<^verbatim>\<open>HAVE_\<close> macro is defined. \<open>skel_xmp_read\<close> and
  \<open>skel_xmp_write\<close> are the ones with logic of their own: files are opened with \<^verbatim>\<open>O_DIRECT\<close>, and a request
  that does not meet its alignment goes through an aligned buffer or a second descriptor.
\<close>

section \<open>Handlers\<close>

text \<open>\<^verbatim>\<open>xmp_init\<close> sets four fields of \<^verbatim>\<open>struct fuse_config\<close> and a counter of opens; \<^verbatim>\<open>xmp_destroy\<close> frees it.\<close>

record fuse_config =
  use_ino :: int
  entry_timeout :: int
  attr_timeout :: int
  negative_timeout :: int

definition skel_xmp_init :: "fuse_config \<Rightarrow> 'k proc \<Rightarrow> fuse_config \<times> 'k proc" where
  "skel_xmp_init cfg s =
     (cfg\<lparr>use_ino := 1, entry_timeout := 0, attr_timeout := 0, negative_timeout := 0\<rparr>, s\<lparr>ctx_open := 0\<rparr>)"

definition skel_xmp_getattr :: "'k posix \<Rightarrow> string \<Rightarrow> ('k, int \<times> stat option) act" where
  "skel_xmp_getattr E path = do {
     res \<leftarrow> sys (p_lstat E path);
     r \<leftarrow> zero_or_errno res;
     give (r, res) }"

definition skel_xmp_access :: "'k posix \<Rightarrow> string \<Rightarrow> int \<Rightarrow> ('k, int) act" where
  "skel_xmp_access E path amode = do {
     res \<leftarrow> sys (p_access E path amode);
     zero_or_errno res }"

text \<open>The contents of the caller's buffer, with the terminating zero, come with the result.\<close>

definition skel_xmp_readlink :: "'k posix \<Rightarrow> string \<Rightarrow> nat \<Rightarrow> ('k, int \<times> byte list) act" where
  "skel_xmp_readlink E path sz = do {
     res \<leftarrow> sys (p_readlink E path (sz - 1));
     case res of
       None \<Rightarrow> do { e \<leftarrow> neg_errno; give (e, []) }
     | Some bs \<Rightarrow> give (0, bs @ [0]) }"


text \<open>The loop over the directory; \<open>filler\<close> is the callback of FUSE on its buffer, which is full when
  it does not return 0.\<close>

fun skel_xmp_fill :: "('b \<Rightarrow> string \<Rightarrow> stat \<Rightarrow> int \<Rightarrow> int \<times> 'b) \<Rightarrow> int \<Rightarrow> dirent list \<Rightarrow> 'b \<Rightarrow> 'b" where
  "skel_xmp_fill filler dirplus [] buf = buf"
| "skel_xmp_fill filler dirplus (de # des) buf = (
     let st = zero_stat\<lparr>st_ino := de_ino de, st_mode := push_bit 12 (ucast (de_type de))\<rparr>;
              (full, buf) = filler buf (de_name de) st dirplus
          in if full \<noteq> 0 then buf else skel_xmp_fill filler dirplus des buf)"

definition skel_xmp_readdir :: "'k posix \<Rightarrow> int \<Rightarrow> string \<Rightarrow> ('b \<Rightarrow> string \<Rightarrow> stat \<Rightarrow> int \<Rightarrow> int \<times> 'b) \<Rightarrow> 'b \<Rightarrow> ('k, int \<times> 'b) act" where
  "skel_xmp_readdir E fill_dir_plus path filler buf = do {
     dp \<leftarrow> sys (p_opendir E path);
     case dp of
       None \<Rightarrow> do { e \<leftarrow> neg_errno; give (e, buf) }
     | Some (d, des) \<Rightarrow> do {
         _ \<leftarrow> sys (p_closedir E d);
         give (0, skel_xmp_fill filler fill_dir_plus des buf) } }"


definition skel_mknod_wrapper :: "'k posix \<Rightarrow> int \<Rightarrow> string \<Rightarrow> string option \<Rightarrow> 32 word \<Rightarrow> 64 word \<Rightarrow> ('k, int) act" where
  "skel_mknod_wrapper E dirfd path lnk mode rdev =
     (if S_ISREG mode then do {
        res \<leftarrow> sys (p_openat E dirfd path (O_CREAT OR O_EXCL OR O_WRONLY OR O_DIRECT) mode);
        if minus_one res \<ge> 0 then do { res \<leftarrow> sys (p_close E (minus_one res)); give (zero_or_minus_one res) }
        else give (minus_one res) }
      else if S_ISDIR mode then do { res \<leftarrow> sys (p_mkdirat E dirfd path mode); give (zero_or_minus_one res) }
      else if S_ISLNK mode \<and> lnk \<noteq> None then do {
        res \<leftarrow> sys (p_symlinkat E (the lnk) dirfd path); give (zero_or_minus_one res) }
      else if S_ISFIFO mode then do { res \<leftarrow> sys (p_mkfifoat E dirfd path mode); give (zero_or_minus_one res) }
      else do { res \<leftarrow> sys (p_mknodat E dirfd path mode rdev); give (zero_or_minus_one res) })"

definition skel_xmp_mknod :: "'k posix \<Rightarrow> string \<Rightarrow> 32 word \<Rightarrow> 64 word \<Rightarrow> ('k, int) act" where
  "skel_xmp_mknod E path mode rdev = do {
     res \<leftarrow> skel_mknod_wrapper E AT_FDCWD path None mode rdev;
     if res = - 1 then neg_errno else give 0 }"


definition skel_xmp_unlink :: "'k posix \<Rightarrow> string \<Rightarrow> ('k, int) act" where
  "skel_xmp_unlink E path = do {
     res \<leftarrow> sys (p_unlink E path);
     zero_or_errno res }"


definition skel_xmp_symlink :: "'k posix \<Rightarrow> string \<Rightarrow> string \<Rightarrow> ('k, int) act" where
  "skel_xmp_symlink E frm tgt = do {
     res \<leftarrow> sys (p_symlink E frm tgt);
     zero_or_errno res }"


definition skel_xmp_rename :: "'k posix \<Rightarrow> string \<Rightarrow> string \<Rightarrow> 32 word \<Rightarrow> ('k, int) act" where
  "skel_xmp_rename E frm tgt flags =
     (if flags \<noteq> 0 then give (- EINVAL)
      else do {
        res \<leftarrow> sys (p_rename E frm tgt);
        zero_or_errno res })"


definition skel_xmp_link :: "'k posix \<Rightarrow> string \<Rightarrow> string \<Rightarrow> ('k, int) act" where
  "skel_xmp_link E frm tgt = do {
     res \<leftarrow> sys (p_link E frm tgt);
     zero_or_errno res }"

definition skel_xmp_chmod :: "'k posix \<Rightarrow> string \<Rightarrow> 32 word \<Rightarrow> ('k, int) act" where
  "skel_xmp_chmod E path mode = do {
     res \<leftarrow> sys (p_chmod E path mode);
     zero_or_errno res }"

definition skel_xmp_chown :: "'k posix \<Rightarrow> string \<Rightarrow> 32 word \<Rightarrow> 32 word \<Rightarrow> ('k, int) act" where
  "skel_xmp_chown E path uid gid = do {
     res \<leftarrow> sys (p_lchown E path uid gid);
     zero_or_errno res }"

definition skel_xmp_truncate :: "'k posix \<Rightarrow> string \<Rightarrow> int \<Rightarrow> file_info option \<Rightarrow> ('k, int) act" where
  "skel_xmp_truncate E path sz fi = do {
     res \<leftarrow> (case fi of Some f \<Rightarrow> sys (p_ftruncate E (fi_fh f) sz) | None \<Rightarrow> sys (p_truncate E path sz));
     zero_or_errno res }"

definition skel_xmp_utimens :: "'k posix \<Rightarrow> string \<Rightarrow> (int \<times> int) \<times> (int \<times> int) \<Rightarrow> ('k, int) act" where
  "skel_xmp_utimens E path ts = do {
     res \<leftarrow> sys (p_utimensat E 0 path ts AT_SYMLINK_NOFOLLOW);
     zero_or_errno res }"


text \<open>\<^verbatim>\<open>fi->fh\<close> comes with the result. \<^verbatim>\<open>DEBUG\<close> is defined in this program, so opens are counted.\<close>

definition count_open :: "('k, unit) act" where
  "count_open = do {
     s \<leftarrow> State_Monad.get;
     State_Monad.set (s\<lparr>ctx_open := ctx_open s + 1\<rparr>) }"

definition skel_xmp_create :: "'k posix \<Rightarrow> string \<Rightarrow> 32 word \<Rightarrow> file_info \<Rightarrow> ('k, int \<times> file_info) act" where
  "skel_xmp_create E path mode fi = do {
     _ \<leftarrow> count_open;
     res \<leftarrow> sys (p_open E path (fi_flags fi OR O_DIRECT) mode);
     case res of
       None \<Rightarrow> do { e \<leftarrow> neg_errno; give (e, fi) }
     | Some fd \<Rightarrow> give (0, fi\<lparr>fi_fh := fd\<rparr>) }"

definition skel_xmp_open :: "'k posix \<Rightarrow> string \<Rightarrow> file_info \<Rightarrow> ('k, int \<times> file_info) act" where
  "skel_xmp_open E path fi = do {
     _ \<leftarrow> count_open;
     res \<leftarrow> sys (p_open E path (fi_flags fi OR O_DIRECT) 0);
     case res of
       None \<Rightarrow> do { e \<leftarrow> neg_errno; give (e, fi) }
     | Some fd \<Rightarrow> give (0, fi\<lparr>fi_fh := fd\<rparr>) }"

text \<open>The helpers for direct I/O.\<close>

definition fd_has_odirect :: "'k posix \<Rightarrow> int \<Rightarrow> ('k, bool) act" where
  "fd_has_odirect E fd = do {
     flags \<leftarrow> sys (p_getfl E fd);
     give (case flags of None \<Rightarrow> False | Some fl \<Rightarrow> fl AND O_DIRECT \<noteq> 0) }"

definition get_fd_alignment :: "'k posix \<Rightarrow> int \<Rightarrow> ('k, nat) act" where
  "get_fd_alignment E fd = do {
     s \<leftarrow> State_Monad.get;
     st \<leftarrow> sys (p_fstat E fd);
     give (let pagesz = p_pagesize E (sysk s) in
       case st of
         Some st \<Rightarrow> if st_blksize st > 0 then nat (if st_blksize st > pagesz then st_blksize st else pagesz) else nat pagesz
       | None \<Rightarrow> nat pagesz) }"

text \<open>\<open>buf\<close> is the address of the caller's buffer; what the handler puts into it comes with the result.\<close>

definition read_result :: "byte list option \<Rightarrow> ('k, int \<times> byte list) act" where
  "read_result res = (case res of
      None \<Rightarrow> do { e \<leftarrow> neg_errno; give (e, []) }
    | Some bs \<Rightarrow> give (int (length bs), bs))"

definition skel_plain_read :: "'k posix \<Rightarrow> int \<Rightarrow> nat \<Rightarrow> nat \<Rightarrow> int \<Rightarrow> ('k, int \<times> byte list) act" where
  "skel_plain_read E fd buf sz offset = do {
     res \<leftarrow> sys (p_pread E fd buf sz offset);
     read_result res }"

definition skel_xmp_read :: "'k posix \<Rightarrow> string \<Rightarrow> nat \<Rightarrow> nat \<Rightarrow> int \<Rightarrow> file_info option \<Rightarrow> ('k, int \<times> byte list) act" where
  "skel_xmp_read E path buf sz offset fi = do {
     fd \<leftarrow> fd_of E path (O_RDONLY OR O_DIRECT) fi;
     if fd = - 1 then do { e \<leftarrow> neg_errno; give (e, []) }
     else do {
       odirect \<leftarrow> fd_has_odirect E fd;
       align \<leftarrow> (if odirect then get_fd_alignment E fd else give 1);
       if \<not> odirect \<or> (sz mod align = 0 \<and> offset mod int align = 0)
       then do {
         aligned_buf \<leftarrow> (if odirect \<and> buf mod align \<noteq> 0
           then do { (r, a) \<leftarrow> sys_code (p_memalign E align sz); give (if r = 0 then a else buf) }
           else give buf);
         res \<leftarrow> skel_plain_read E fd aligned_buf sz offset;
         _ \<leftarrow> close_opened E fi fd;
         give res }
       else do {
         r \<leftarrow> sys (p_open E path O_RDONLY 0);
         case r of
           None \<Rightarrow> do { _ \<leftarrow> close_opened E fi fd; e \<leftarrow> neg_errno; give (e, []) }
         | Some fd2 \<Rightarrow> do {
             res \<leftarrow> skel_plain_read E fd2 buf sz offset;
             _ \<leftarrow> sys (p_close E fd2);
             _ \<leftarrow> close_opened E fi fd;
             give res } } } }"

definition skel_plain_write :: "'k posix \<Rightarrow> int \<Rightarrow> nat \<Rightarrow> byte list \<Rightarrow> int \<Rightarrow> ('k, int) act" where
  "skel_plain_write E fd buf bs offset = do {
     res \<leftarrow> sys (p_pwrite E fd buf bs offset);
     value_or_errno res }"

definition skel_xmp_write :: "'k posix \<Rightarrow> string \<Rightarrow> nat \<Rightarrow> byte list \<Rightarrow> int \<Rightarrow> file_info option \<Rightarrow> ('k, int) act" where
  "skel_xmp_write E path buf bs offset fi = do {
     fd \<leftarrow> fd_of E path (O_WRONLY OR O_DIRECT) fi;
     if fd = - 1 then neg_errno
     else do {
       odirect \<leftarrow> fd_has_odirect E fd;
       align \<leftarrow> (if odirect then get_fd_alignment E fd else give 1);
       if \<not> odirect \<or> (length bs mod align = 0 \<and> offset mod int align = 0)
       then do {
         aligned_buf \<leftarrow> (if odirect \<and> buf mod align \<noteq> 0
           then do { (r, a) \<leftarrow> sys_code (p_memalign E align (length bs)); give (if r = 0 then a else buf) }
           else give buf);
         res \<leftarrow> skel_plain_write E fd aligned_buf bs offset;
         _ \<leftarrow> close_opened E fi fd;
         give res }
       else do {
         r \<leftarrow> sys (p_open E path O_WRONLY 0);
         case r of
           None \<Rightarrow> do { _ \<leftarrow> close_opened E fi fd; neg_errno }
         | Some fd2 \<Rightarrow> do {
             res \<leftarrow> skel_plain_write E fd2 buf bs offset;
             _ \<leftarrow> sys (p_close E fd2);
             _ \<leftarrow> close_opened E fi fd;
             give res } } } }"


definition skel_xmp_statfs :: "'k posix \<Rightarrow> string \<Rightarrow> ('k, int \<times> byte list option) act" where
  "skel_xmp_statfs E path = do {
     res \<leftarrow> sys (p_statvfs E path);
     r \<leftarrow> zero_or_errno res;
     give (r, res) }"

definition skel_xmp_release :: "'k posix \<Rightarrow> file_info \<Rightarrow> ('k, int) act" where
  "skel_xmp_release E fi = do { res \<leftarrow> sys (p_close E (fi_fh fi)); give (zero_or_minus_one res) }"

definition skel_xmp_fsync :: "'k posix \<Rightarrow> int \<Rightarrow> file_info \<Rightarrow> ('k, int) act" where
  "skel_xmp_fsync E isdatasync fi =
     (if isdatasync = 0 then do { res \<leftarrow> sys (p_fsync E (fi_fh fi)); give (zero_or_minus_one res) }
      else do { res \<leftarrow> sys (p_fdatasync E (fi_fh fi)); give (zero_or_minus_one res) })"

definition skel_xmp_fallocate :: "'k posix \<Rightarrow> string \<Rightarrow> int \<Rightarrow> int \<Rightarrow> int \<Rightarrow> file_info option \<Rightarrow> ('k, int) act" where
  "skel_xmp_fallocate E path mode offset len fi =
     (if mode \<noteq> 0 then give (- EOPNOTSUPP)
      else do {
        fd \<leftarrow> fd_of E path (O_WRONLY OR O_DIRECT) fi;
        if fd = - 1 then neg_errno
        else do {
          res \<leftarrow> sys_code (p_fallocate E fd offset len);
          _ \<leftarrow> close_opened E fi fd;
          give (- res) } })"

definition skel_xmp_setxattr :: "'k posix \<Rightarrow> string \<Rightarrow> string \<Rightarrow> byte list \<Rightarrow> int \<Rightarrow> ('k, int) act" where
  "skel_xmp_setxattr E path name value flags = do {
     res \<leftarrow> sys (p_lsetxattr E path name value flags);
     zero_or_errno res }"

definition skel_xmp_getxattr :: "'k posix \<Rightarrow> string \<Rightarrow> string \<Rightarrow> nat \<Rightarrow> ('k, int \<times> byte list) act" where
  "skel_xmp_getxattr E path name sz = do {
     res \<leftarrow> sys (p_lgetxattr E path name sz);
     case res of
       None \<Rightarrow> do { e \<leftarrow> neg_errno; give (e, []) }
     | Some v \<Rightarrow> give v }"

definition skel_xmp_listxattr :: "'k posix \<Rightarrow> string \<Rightarrow> nat \<Rightarrow> ('k, int \<times> byte list) act" where
  "skel_xmp_listxattr E path sz = do {
     res \<leftarrow> sys (p_llistxattr E path sz);
     case res of
       None \<Rightarrow> do { e \<leftarrow> neg_errno; give (e, []) }
     | Some v \<Rightarrow> give v }"

definition skel_xmp_removexattr :: "'k posix \<Rightarrow> string \<Rightarrow> string \<Rightarrow> ('k, int) act" where
  "skel_xmp_removexattr E path name = do {
     res \<leftarrow> sys (p_lremovexattr E path name);
     zero_or_errno res }"

definition skel_xmp_copy_file_range ::
  "'k posix \<Rightarrow> string \<Rightarrow> file_info option \<Rightarrow> int \<Rightarrow> string \<Rightarrow> file_info option \<Rightarrow> int \<Rightarrow> nat \<Rightarrow> int \<Rightarrow> ('k, int) act" where
  "skel_xmp_copy_file_range E path_in fi_in offset_in path_out fi_out offset_out len flags = do {
     fd_in \<leftarrow> fd_of E path_in (O_RDONLY OR O_DIRECT) fi_in;
     if fd_in = - 1 then neg_errno
     else do {
       fd_out \<leftarrow> fd_of E path_out (O_WRONLY OR O_DIRECT) fi_out;
       if fd_out = - 1 then do { _ \<leftarrow> sys (p_close E fd_in); neg_errno }
       else do {
         r \<leftarrow> sys (p_copy_file_range E fd_in offset_in fd_out offset_out len flags);
         res \<leftarrow> value_or_errno r;
         _ \<leftarrow> close_opened E fi_out fd_out;
         _ \<leftarrow> close_opened E fi_in fd_in;
         give res } } }"

definition skel_xmp_lseek :: "'k posix \<Rightarrow> string \<Rightarrow> int \<Rightarrow> int \<Rightarrow> file_info option \<Rightarrow> ('k, int) act" where
  "skel_xmp_lseek E path off whence fi = do {
     fd \<leftarrow> fd_of E path (O_RDONLY OR O_DIRECT) fi;
     if fd = - 1 then neg_errno
     else do {
       res \<leftarrow> do { r \<leftarrow> sys (p_lseek E fd off whence); value_or_errno r };
       _ \<leftarrow> close_opened E fi fd;
       give res } }"

text \<open>\<^verbatim>\<open>main\<close> hands every argument but \<^verbatim>\<open>--plus\<close> on to FUSE, at most ten.\<close>

fun skel_xmp_args :: "string list \<Rightarrow> string list \<Rightarrow> int \<Rightarrow> string list \<times> int" where
  "skel_xmp_args [] new_argv dirplus = (new_argv, dirplus)"
| "skel_xmp_args (a # as) new_argv dirplus =
     (if \<not> length new_argv < 10 then (new_argv, dirplus)
      else if a = ''--plus'' then skel_xmp_args as new_argv FUSE_FILL_DIR_PLUS
      else skel_xmp_args as (new_argv @ [a]) dirplus)"

text \<open>Two helpers of the header that no handler calls.\<close>

definition skel_buf_add :: "int \<Rightarrow> byte list \<Rightarrow> byte list" where
  "skel_buf_add value buf = map (\<lambda>b. b + of_int value) buf"

definition skel_buf_sub :: "int \<Rightarrow> byte list \<Rightarrow> byte list" where
  "skel_buf_sub value buf = map (\<lambda>b. b - of_int value) buf"

end
