(* ===== verification/Demo_Posix.thy ===== *)
theory Demo_Posix
  imports Posix
begin

text \<open>
  A concrete system for the witnesses: a few files in memory, descriptors with the O_DIRECT flag, blocks of 4096
  bytes. It refuses direct transfers that are not aligned, as a disk does, and it has no other system call.
  It meets the contracts of \<open>Posix\<close>, and \<open>direct_contract\<close>, what the skeleton's reads and writes rely on.
\<close>

section \<open>Direct I/O\<close>

text \<open>\<open>content\<close> the files, \<open>descr\<close> the file and the O_DIRECT flag of each descriptor, \<open>al\<close> the alignment:
  a transfer through a descriptor with O_DIRECT is only relied on when address, length and offset are aligned.\<close>

definition put_bytes :: "byte list \<Rightarrow> nat \<Rightarrow> byte list \<Rightarrow> byte list" where
  "put_bytes old off bs = take off (old @ replicate (off - length old) 0) @ bs @ drop (off + length bs) old"

definition direct_contract ::
  "'k posix \<Rightarrow> ('k \<Rightarrow> string \<Rightarrow> byte list option) \<Rightarrow> ('k \<Rightarrow> int \<Rightarrow> (string \<times> bool) option) \<Rightarrow> nat \<Rightarrow> bool" where
  "direct_contract E content descr al \<longleftrightarrow> 0 < al \<and>
     (\<forall>p fl k. content k p \<noteq> None \<longrightarrow> (\<exists>fd k'. p_open E p fl 0 k = (SysOk fd, k') \<and> 0 \<le> fd \<and> descr k fd = None \<and>
        descr k' = (descr k)(fd \<mapsto> (p, fl AND O_DIRECT \<noteq> 0)) \<and> content k' = content k)) \<and>
     (\<forall>fd k p d. descr k fd = Some (p, d) \<longrightarrow> (\<exists>fl. p_getfl E fd k = (SysOk fl, k) \<and> (fl AND O_DIRECT \<noteq> 0) = d)) \<and>
     (\<forall>fd k. descr k fd \<noteq> None \<longrightarrow> (\<exists>st. p_fstat E fd k = (SysOk st, k) \<and> 0 < st_blksize st \<and>
        al = nat (max (st_blksize st) (p_pagesize E k)))) \<and>
     (\<forall>n k. \<exists>a. p_memalign E al n k = ((0, a), k) \<and> a mod al = 0) \<and>
     (\<forall>fd k. \<exists>k'. p_close E fd k = (SysOk (), k') \<and> descr k' = (descr k)(fd := None) \<and> content k' = content k) \<and>
     (\<forall>fd a n off k p d bs. descr k fd = Some (p, d) \<longrightarrow> content k p = Some bs \<longrightarrow> 0 \<le> off \<longrightarrow>
        (d \<longrightarrow> a mod al = 0 \<and> n mod al = 0 \<and> off mod int al = 0) \<longrightarrow>
        p_pread E fd a n off k = (SysOk (take n (drop (nat off) bs)), k)) \<and>
     (\<forall>fd a new off k p d bs. descr k fd = Some (p, d) \<longrightarrow> content k p = Some bs \<longrightarrow> 0 \<le> off \<longrightarrow>
        (d \<longrightarrow> a mod al = 0 \<and> length new mod al = 0 \<and> off mod int al = 0) \<longrightarrow>
        (\<exists>k'. p_pwrite E fd a new off k = (SysOk (int (length new)), k') \<and> descr k' = descr k \<and>
          content k' = (content k)(p \<mapsto> put_bytes bs (nat off) new)))"

section \<open>The system\<close>

record demo_fs =
  df_files :: "(string \<times> byte list) list"
  df_descr :: "(int \<times> string \<times> bool) list"

definition df_new :: "demo_fs \<Rightarrow> int" where
  "df_new k = Max (insert 2 (fst ` set (df_descr k))) + 1"

definition df_open :: "string \<Rightarrow> 32 word \<Rightarrow> 32 word \<Rightarrow> demo_fs \<Rightarrow> int sysres \<times> demo_fs" where
  "df_open p fl md k = (case map_of (df_files k) p of
      None \<Rightarrow> (SysErr ENOENT, k)
    | Some _ \<Rightarrow> (SysOk (df_new k), k\<lparr>df_descr := (df_new k, p, fl AND O_DIRECT \<noteq> 0) # df_descr k\<rparr>))"

definition df_close :: "int \<Rightarrow> demo_fs \<Rightarrow> unit sysres \<times> demo_fs" where
  "df_close fd k = (SysOk (), k\<lparr>df_descr := filter (\<lambda>e. fst e \<noteq> fd) (df_descr k)\<rparr>)"

definition df_getfl :: "int \<Rightarrow> demo_fs \<Rightarrow> 32 word sysres \<times> demo_fs" where
  "df_getfl fd k = (case map_of (df_descr k) fd of
      None \<Rightarrow> (SysErr EBADF, k) | Some (p, d) \<Rightarrow> (SysOk (if d then O_DIRECT else 0), k))"

definition df_fstat :: "int \<Rightarrow> demo_fs \<Rightarrow> stat sysres \<times> demo_fs" where
  "df_fstat fd k = (case map_of (df_descr k) fd of
      None \<Rightarrow> (SysErr EBADF, k) | Some _ \<Rightarrow> (SysOk (zero_stat\<lparr>st_blksize := 4096\<rparr>), k))"

definition df_pread :: "int \<Rightarrow> nat \<Rightarrow> nat \<Rightarrow> int \<Rightarrow> demo_fs \<Rightarrow> byte list sysres \<times> demo_fs" where
  "df_pread fd a n off k = (case map_of (df_descr k) fd of
      None \<Rightarrow> (SysErr EBADF, k)
    | Some (p, d) \<Rightarrow>
        if d \<and> \<not> (a mod 4096 = 0 \<and> n mod 4096 = 0 \<and> off mod 4096 = 0) then (SysErr EINVAL, k)
        else case map_of (df_files k) p of None \<Rightarrow> (SysErr EBADF, k) | Some bs \<Rightarrow> (SysOk (take n (drop (nat off) bs)), k))"

definition df_pwrite :: "int \<Rightarrow> nat \<Rightarrow> byte list \<Rightarrow> int \<Rightarrow> demo_fs \<Rightarrow> int sysres \<times> demo_fs" where
  "df_pwrite fd a new off k = (case map_of (df_descr k) fd of
      None \<Rightarrow> (SysErr EBADF, k)
    | Some (p, d) \<Rightarrow>
        if d \<and> \<not> (a mod 4096 = 0 \<and> length new mod 4096 = 0 \<and> off mod 4096 = 0) then (SysErr EINVAL, k)
        else case map_of (df_files k) p of
          None \<Rightarrow> (SysErr EBADF, k)
        | Some bs \<Rightarrow> (SysOk (int (length new)), k\<lparr>df_files := (p, put_bytes bs (nat off) new) # df_files k\<rparr>))"

definition ENOSYS :: int where "ENOSYS = 38"

definition demo_posix :: "demo_fs posix" where
  "demo_posix = \<lparr>
     p_lstat = (\<lambda>p k. case map_of (df_files k) p of None \<Rightarrow> (SysErr ENOENT, k)
       | Some bs \<Rightarrow> (SysOk (zero_stat\<lparr>st_size := int (length bs)\<rparr>), k)),
     p_access = (\<lambda>p m k. if map_of (df_files k) p = None then (SysErr ENOENT, k) else (SysOk (), k)),
     p_readlink = (\<lambda>p n k. (SysErr ENOSYS, k)), p_opendir = (\<lambda>p k. (SysErr ENOSYS, k)),
     p_closedir = df_close,
     p_open = df_open, p_openat = (\<lambda>_. df_open), p_close = df_close,
     p_mkdirat = (\<lambda>d p m k. (SysErr ENOSYS, k)), p_symlinkat = (\<lambda>l d p k. (SysErr ENOSYS, k)),
     p_mkfifoat = (\<lambda>d p m k. (SysErr ENOSYS, k)), p_mknodat = (\<lambda>d p m r k. (SysErr ENOSYS, k)),
     p_unlink = (\<lambda>p k. (SysErr ENOSYS, k)), p_symlink = (\<lambda>p q k. (SysErr ENOSYS, k)),
     p_rename = (\<lambda>p q k. (SysErr ENOSYS, k)), p_link = (\<lambda>p q k. (SysErr ENOSYS, k)),
     p_chmod = (\<lambda>p m k. (SysErr ENOSYS, k)), p_lchown = (\<lambda>p u g k. (SysErr ENOSYS, k)),
     p_ftruncate = (\<lambda>fd n k. (SysErr ENOSYS, k)), p_truncate = (\<lambda>p n k. (SysErr ENOSYS, k)),
     p_utimensat = (\<lambda>d p ts fl k. (SysErr ENOSYS, k)), p_mkdir = (\<lambda>p m k. (SysErr ENOSYS, k)),
     p_rmdir = (\<lambda>p k. (SysErr ENOSYS, k)), p_statvfs = (\<lambda>p k. (SysErr ENOSYS, k)),
     p_fsync = (\<lambda>fd k. (SysErr 5, k)), p_fdatasync = (\<lambda>fd k. (SysErr 5, k)),
     p_fallocate = (\<lambda>fd a n k. (28, k)), p_lsetxattr = (\<lambda>p n v fl k. (SysErr ENOSYS, k)),
     p_lgetxattr = (\<lambda>p n sz k. (SysErr ENOSYS, k)), p_llistxattr = (\<lambda>p sz k. (SysErr ENOSYS, k)),
     p_lremovexattr = (\<lambda>p n k. (SysErr ENOSYS, k)),
     p_copy_file_range = (\<lambda>i oi fo oo n fl k. (SysOk (int n), k)), p_lseek = (\<lambda>fd x w k. (SysOk (max 0 x), k)),
     p_getfl = df_getfl, p_fstat = df_fstat, p_pagesize = (\<lambda>k. 4096),
     p_memalign = (\<lambda>al n k. ((0, 0), k)), p_pread = df_pread,
     p_pwrite = df_pwrite\<rparr>"

definition df_fds :: "demo_fs \<Rightarrow> int set" where
  "df_fds k = fst ` set (df_descr k)"

lemma df_new_fresh: "df_new k \<notin> df_fds k" "0 \<le> df_new k" "map_of (df_descr k) (df_new k) = None"
proof -
  have "x \<le> Max (insert 2 (fst ` set (df_descr k)))" if "x \<in> insert 2 (df_fds k)" for x
    using that by (intro Max_ge) (auto simp: df_fds_def)
  then have "x < df_new k" if "x \<in> insert 2 (df_fds k)" for x using that by (fastforce simp: df_new_def)
  then show "df_new k \<notin> df_fds k" "0 \<le> df_new k" by force+
  then show "map_of (df_descr k) (df_new k) = None" by (simp add: df_fds_def map_of_eq_None_iff)
qed

lemma demo_fd_contract: "fd_contract demo_posix df_fds"
proof -
  have o: "opens df_fds (\<lambda>v. v) (df_open p fl md)" for p fl md
    using df_new_fresh by (auto simp: opens_def df_open_def df_fds_def split: option.splits)
  have c: "df_fds (k\<lparr>df_descr := filter (\<lambda>e. fst e \<noteq> fd) (df_descr k)\<rparr>) = df_fds k - {fd}" for k fd
    by (auto simp: df_fds_def)
  have w: "df_fds (k\<lparr>df_files := fs\<rparr>) = df_fds k" for k fs by (simp add: df_fds_def)
  have d: "opens df_fds fst (\<lambda>k. (SysErr ENOSYS :: (int \<times> dirent list) sysres, k))" by (simp add: opens_def)
  show ?thesis
    by (simp add: fd_contract_def demo_posix_def o c d w df_close_def keeps_def df_getfl_def df_fstat_def df_pread_def
        df_pwrite_def split: option.splits prod.splits)
qed

lemma demo_value_contract: "value_contract demo_posix"
  using df_new_fresh(2) by (auto simp: value_contract_def demo_posix_def nonneg_def df_open_def df_pwrite_def split: option.splits prod.splits if_splits)

abbreviation df_content :: "demo_fs \<Rightarrow> string \<Rightarrow> byte list option" where
  "df_content k \<equiv> map_of (df_files k)"

abbreviation df_file :: "demo_fs \<Rightarrow> int \<Rightarrow> (string \<times> bool) option" where
  "df_file k \<equiv> map_of (df_descr k)"

lemma demo_direct_contract: "direct_contract demo_posix df_content df_file 4096"
proof -
  have f: "map_of (filter (\<lambda>e. fst e \<noteq> fd) l) = (map_of l)(fd := None)" for fd :: int and l :: "(int \<times> string \<times> bool) list"
    by (induction l) auto
  have d: "O_DIRECT \<noteq> 0" by (simp add: O_DIRECT_def)
  show ?thesis
    unfolding direct_contract_def
    using df_new_fresh
    by (auto simp: demo_posix_def df_open_def df_close_def df_getfl_def df_fstat_def df_pread_def df_pwrite_def zero_stat_def f d
        split: option.splits)
qed

text \<open>A start with one file of 5000 bytes, open at descriptor 5 for direct I/O.\<close>

definition demo_bytes :: "byte list" where
  "demo_bytes = replicate 5000 65"

definition demo_proc :: "demo_fs proc" where
  "demo_proc = \<lparr>errno = 0, ctx_open = 0, sysk = \<lparr>df_files = [(''/f'', demo_bytes)], df_descr = [(5, ''/f'', True)]\<rparr>\<rparr>"

end
