(* ===== verification/Fuse_Handlers.thy ===== *)
theory Fuse_Handlers
  imports Skeleton Passthrough_Ops Demo_Posix
begin

text \<open>
  The two programs as servers: \<open>skel_serve\<close> and \<open>serve\<close> map a request of FUSE to the handler that
  \<^verbatim>\<open>xmp_oper\<close> names for it (the handlers of the store and the ones that open or close files apart). The
  theorems hold for every handler of both tables: no descriptor is leaked or closed too often, with one exception
  in \<^verbatim>\<open>copy_file_range\<close>, and a failure is reported as the negated error of the system call, with the exception of
  \<^verbatim>\<open>fsync\<close>. The skeleton's reads and writes meet the alignment of direct I/O. Where the deduplicating file system
  has no file of its own it behaves as the skeleton does.
\<close>

section \<open>The configuration\<close>

text \<open>\<^verbatim>\<open>xmp_init\<close> of the deduplicating file system sets the fields that the skeleton sets; the context it makes is
  the subject of \<open>Persistence\<close>.\<close>

definition xmp_init_config :: "fuse_config \<Rightarrow> fuse_config" where
  "xmp_init_config cfg = cfg\<lparr>use_ino := 1, entry_timeout := 0, attr_timeout := 0, negative_timeout := 0\<rparr>"

lemma same_config: "fst (skel_xmp_init cfg s) = xmp_init_config cfg"
  by (simp add: skel_xmp_init_def xmp_init_config_def)

section \<open>The tables of operations\<close>

text \<open>The requests that both tables serve.\<close>

datatype request =
    Getattr string
  | Readdir string
  | Access string int
  | Readlink string nat
  | Mknod string "32 word" "64 word"
  | Symlink string string
  | Rename string string "32 word"
  | Link string string
  | Chmod string "32 word"
  | Chown string "32 word" "32 word"
  | Truncate string int "file_info option"
  | Utimens string "(int \<times> int) \<times> (int \<times> int)"
  | Statfs string
  | Fsync int file_info
  | Fallocate string int int int "file_info option"
  | Setxattr string string "byte list" int
  | Getxattr string string nat
  | Listxattr string nat
  | Removexattr string string
  | Copy_file_range string "file_info option" int string "file_info option" int nat int
  | Lseek string int int "file_info option"

text \<open>What a handler gives back: its code, and what it has put into the caller's buffers.\<close>

datatype reply =
    Code
  | Attributes "stat option"
  | Names "(string \<times> stat) list"
  | Data "byte list"
  | Space "byte list option"

definition code :: "('k, int) act \<Rightarrow> ('k, int \<times> reply) act" where
  "code m = do { r \<leftarrow> m; give (r, Code) }"

text \<open>The filler of the requests below has room for every name of a directory.\<close>

definition collect_name :: "(string \<times> stat) list \<Rightarrow> string \<Rightarrow> stat \<Rightarrow> int \<Rightarrow> int \<times> (string \<times> stat) list" where
  "collect_name buf name st dirplus = (0, buf @ [(name, st)])"

fun skel_serve :: "'k posix \<Rightarrow> request \<Rightarrow> ('k, int \<times> reply) act" where
  "skel_serve E (Getattr p) = do { (r, x) \<leftarrow> skel_xmp_getattr E p; give (r, Attributes x) }"
| "skel_serve E (Readdir p) = do { (r, x) \<leftarrow> skel_xmp_readdir E 0 p collect_name []; give (r, Names x) }"
| "skel_serve E (Access x1 x2) = code (skel_xmp_access E x1 x2)"
| "skel_serve E (Readlink x1 x2) = do { (r, x) \<leftarrow> skel_xmp_readlink E x1 x2; give (r, Data x) }"
| "skel_serve E (Mknod x1 x2 x3) = code (skel_xmp_mknod E x1 x2 x3)"
| "skel_serve E (Symlink x1 x2) = code (skel_xmp_symlink E x1 x2)"
| "skel_serve E (Rename x1 x2 x3) = code (skel_xmp_rename E x1 x2 x3)"
| "skel_serve E (Link x1 x2) = code (skel_xmp_link E x1 x2)"
| "skel_serve E (Chmod x1 x2) = code (skel_xmp_chmod E x1 x2)"
| "skel_serve E (Chown x1 x2 x3) = code (skel_xmp_chown E x1 x2 x3)"
| "skel_serve E (Truncate x1 x2 x3) = code (skel_xmp_truncate E x1 x2 x3)"
| "skel_serve E (Utimens x1 x2) = code (skel_xmp_utimens E x1 x2)"
| "skel_serve E (Statfs x1) = do { (r, x) \<leftarrow> skel_xmp_statfs E x1; give (r, Space x) }"
| "skel_serve E (Fsync x1 x2) = code (skel_xmp_fsync E x1 x2)"
| "skel_serve E (Fallocate x1 x2 x3 x4 x5) = code (skel_xmp_fallocate E x1 x2 x3 x4 x5)"
| "skel_serve E (Setxattr x1 x2 x3 x4) = code (skel_xmp_setxattr E x1 x2 x3 x4)"
| "skel_serve E (Getxattr x1 x2 x3) = do { (r, x) \<leftarrow> skel_xmp_getxattr E x1 x2 x3; give (r, Data x) }"
| "skel_serve E (Listxattr x1 x2) = do { (r, x) \<leftarrow> skel_xmp_listxattr E x1 x2; give (r, Data x) }"
| "skel_serve E (Removexattr x1 x2) = code (skel_xmp_removexattr E x1 x2)"
| "skel_serve E (Copy_file_range x1 x2 x3 x4 x5 x6 x7 x8) = code (skel_xmp_copy_file_range E x1 x2 x3 x4 x5 x6 x7 x8)"
| "skel_serve E (Lseek x1 x2 x3 x4) = code (skel_xmp_lseek E x1 x2 x3 x4)"

fun serve :: "'k posix \<Rightarrow> (string \<Rightarrow> filemeta option) \<Rightarrow> request \<Rightarrow> ('k, int \<times> reply) act" where
  "serve E files (Getattr p) = do { (r, x) \<leftarrow> xmp_getattr E files p; give (r, Attributes x) }"
| "serve E files (Readdir p) = do { (r, x) \<leftarrow> xmp_readdir E 0 p collect_name []; give (r, Names x) }"
| "serve E files (Access x1 x2) = code (xmp_access E x1 x2)"
| "serve E files (Readlink x1 x2) = do { (r, x) \<leftarrow> xmp_readlink E x1 x2; give (r, Data x) }"
| "serve E files (Mknod x1 x2 x3) = code (xmp_mknod E x1 x2 x3)"
| "serve E files (Symlink x1 x2) = code (xmp_symlink E x1 x2)"
| "serve E files (Rename x1 x2 x3) = code (xmp_rename E x1 x2 x3)"
| "serve E files (Link x1 x2) = code (xmp_link E x1 x2)"
| "serve E files (Chmod x1 x2) = code (xmp_chmod E x1 x2)"
| "serve E files (Chown x1 x2 x3) = code (xmp_chown E x1 x2 x3)"
| "serve E files (Truncate x1 x2 x3) = code (xmp_truncate E x1 x2 x3)"
| "serve E files (Utimens x1 x2) = code (xmp_utimens E x1 x2)"
| "serve E files (Statfs x1) = do { (r, x) \<leftarrow> xmp_statfs E x1; give (r, Space x) }"
| "serve E files (Fsync x1 x2) = code (xmp_fsync E x1 x2)"
| "serve E files (Fallocate x1 x2 x3 x4 x5) = code (xmp_fallocate E x1 x2 x3 x4 x5)"
| "serve E files (Setxattr x1 x2 x3 x4) = code (xmp_setxattr E x1 x2 x3 x4)"
| "serve E files (Getxattr x1 x2 x3) = do { (r, x) \<leftarrow> xmp_getxattr E x1 x2 x3; give (r, Data x) }"
| "serve E files (Listxattr x1 x2) = do { (r, x) \<leftarrow> xmp_listxattr E x1 x2; give (r, Data x) }"
| "serve E files (Removexattr x1 x2) = code (xmp_removexattr E x1 x2)"
| "serve E files (Copy_file_range x1 x2 x3 x4 x5 x6 x7 x8) = code (xmp_copy_file_range E x1 x2 x3 x4 x5 x6 x7 x8)"
| "serve E files (Lseek x1 x2 x3 x4) = code (xmp_lseek E x1 x2 x3 x4)"

lemmas skel_handler_defs = skel_xmp_access_def skel_xmp_readlink_def skel_xmp_mknod_def skel_xmp_symlink_def skel_xmp_rename_def
  skel_xmp_link_def skel_xmp_chmod_def skel_xmp_chown_def skel_xmp_truncate_def skel_xmp_utimens_def
  skel_xmp_statfs_def skel_xmp_fsync_def skel_xmp_setxattr_def skel_xmp_getxattr_def skel_xmp_listxattr_def
  skel_xmp_removexattr_def skel_xmp_getattr_def

lemmas handler_defs = xmp_access_def xmp_readlink_def xmp_mknod_def xmp_symlink_def xmp_rename_def xmp_link_def xmp_chmod_def
  xmp_chown_def xmp_truncate_def xmp_utimens_def xmp_statfs_def xmp_fsync_def xmp_setxattr_def
  xmp_getxattr_def xmp_listxattr_def xmp_removexattr_def xmp_getattr_def

section \<open>Descriptors\<close>

text \<open>A copy whose source is given and whose target is opened here is left out: see
  \<open>copy_file_range_closes_source\<close>.\<close>

fun closes_own :: "request \<Rightarrow> bool" where
  "closes_own (Copy_file_range pi fi_in oi po fi_out oo n fl) \<longleftrightarrow> fi_in = None \<or> (\<exists>f. fi_out = Some f \<and> fi_fh f \<noteq> - 1)"
| "closes_own _ \<longleftrightarrow> True"

lemma fd_contract_opens:
  assumes "fd_contract E fds"
  shows "opens fds (\<lambda>v. v) (p_open E p fl md)" "opens fds (\<lambda>v. v) (p_openat E d p fl md)" "opens fds fst (p_opendir E p)"
    "fds (snd (p_close E fd k)) = fds k - {fd}" "fds (snd (p_closedir E fd k)) = fds k - {fd}"
  using assms by (simp_all add: fd_contract_def)

lemma fd_contract_keeps:
  assumes "fd_contract E fds"
  shows "keeps fds (p_lstat E p)" "keeps fds (p_access E p m)" "keeps fds (p_readlink E p n)"
    "keeps fds (p_mkdirat E d p md)" "keeps fds (p_symlinkat E l d p)" "keeps fds (p_mkfifoat E d p md)"
    "keeps fds (p_mknodat E d p md rd)" "keeps fds (p_symlink E p q)" "keeps fds (p_rename E p q)"
    "keeps fds (p_link E p q)" "keeps fds (p_chmod E p md)" "keeps fds (p_lchown E p u g)"
    "keeps fds (p_ftruncate E fd x)" "keeps fds (p_truncate E p x)" "keeps fds (p_utimensat E d p ts fl)"
    "keeps fds (p_statvfs E p)" "keeps fds (p_fsync E fd)" "keeps fds (p_fdatasync E fd)"
    "keeps fds (p_fallocate E fd x y)" "keeps fds (p_lsetxattr E p nm v w)" "keeps fds (p_lgetxattr E p nm n)"
    "keeps fds (p_llistxattr E p n)" "keeps fds (p_lremovexattr E p nm)" "keeps fds (p_copy_file_range E i x fo y n w)"
    "keeps fds (p_lseek E fd x w)" "keeps fds (p_getfl E fd)" "keeps fds (p_fstat E fd)" "keeps fds (p_memalign E al n)"
    "keeps fds (p_pread E fd a n x)" "keeps fds (p_pwrite E fd a bs x)" "keeps fds (p_unlink E p)" "keeps fds (p_mkdir E p md)"
    "keeps fds (p_rmdir E p)"
  using assms by (simp_all only: fd_contract_def simp_thms)

lemmas drops_intros = drops_return drops_get drops_errno drops_keeps drops_sys_code drops_if drops_option drops_prod drops_first

lemma drops_fsys:
  assumes "fd_contract E fds"
  shows "state_io_rel (drops fds {fd}) (sys (p_close E fd))" "state_io_rel (drops fds {fd}) (sys (p_closedir E fd))"
    "state_io_rel (drops fds (own fi fd)) (close_opened E fi fd)"
  by (rule drops_sys drops_close_opened, rule fd_contract_opens [OF assms])+

lemma drops_mknod:
  assumes c: "fd_contract E fds"
  shows "state_io_rel (drops fds {}) (mknod_wrapper E d p lnk md rd)" "state_io_rel (drops fds {}) (skel_mknod_wrapper E d p lnk md rd)"
proof -
  have r: "do { res \<leftarrow> sys (p_openat E d p fl md);
      if minus_one res \<ge> 0 then do { res \<leftarrow> sys (p_close E (minus_one res)); give (zero_or_minus_one res) } else give (minus_one res) } =
    do { res \<leftarrow> sys (p_openat E d p fl md); case res of None \<Rightarrow> give (- 1)
      | Some fd \<Rightarrow> if fd \<ge> 0 then do { res \<leftarrow> sys (p_close E fd); give (zero_or_minus_one res) } else give fd }" for fl
    by (rule state_ext) (auto simp: minus_one_def split: option.splits prod.splits)
  have o: "state_io_rel (drops fds {}) (do { res \<leftarrow> sys (p_openat E d p fl md); case res of None \<Rightarrow> give (- 1)
      | Some fd \<Rightarrow> if fd \<ge> 0 then do { res \<leftarrow> sys (p_close E fd); give (zero_or_minus_one res) } else give fd })" for fl
    by (rule drops_open [OF fd_contract_opens(2) [OF c]])
      (auto intro!: drops_return drops_last drops_fsys [OF c])
  show "state_io_rel (drops fds {}) (mknod_wrapper E d p lnk md rd)" "state_io_rel (drops fds {}) (skel_mknod_wrapper E d p lnk md rd)"
    unfolding mknod_wrapper_def skel_mknod_wrapper_def r
    by (intro drops_if o drops_first drops_keeps drops_return fd_contract_keeps [OF c])+
qed

lemma drops_readdir:
  assumes c: "fd_contract E fds"
  shows "state_io_rel (drops fds {}) (xmp_readdir E dp p filler b)" "state_io_rel (drops fds {}) (skel_xmp_readdir E dp p filler b)"
  unfolding xmp_readdir_def skel_xmp_readdir_def
  by (rule drops_open [OF fd_contract_opens(3) [OF c]];
      auto intro!: drops_first drops_errno drops_return drops_last drops_fsys [OF c] split: prod.splits)+

lemma drops_fd_handlers:
  assumes c: "fd_contract E fds"
  shows "state_io_rel (drops fds {}) (xmp_lseek E p x w fi)" "state_io_rel (drops fds {}) (skel_xmp_lseek E p x w fi)"
    "state_io_rel (drops fds {}) (xmp_fallocate E p m x y fi)" "state_io_rel (drops fds {}) (skel_xmp_fallocate E p m x y fi)"
proof -
  note use = drops_use [OF fd_contract_opens(1) [OF c] fd_contract_opens(4) [OF c] drops_errno(1)]
  have l: "state_io_rel (drops fds {}) (do { r \<leftarrow> sys (p_lseek E fd x w); value_or_errno r })" for fd
    by (intro drops_first drops_keeps fd_contract_keeps [OF c] drops_errno)
  have f: "state_io_rel (drops fds {}) (sys_code (p_fallocate E fd x y))" for fd
    by (intro drops_sys_code fd_contract_keeps [OF c])
  show "state_io_rel (drops fds {}) (xmp_lseek E p x w fi)" "state_io_rel (drops fds {}) (skel_xmp_lseek E p x w fi)"
    unfolding xmp_lseek_def skel_xmp_lseek_def by (rule use [OF l])+
  show "state_io_rel (drops fds {}) (xmp_fallocate E p m x y fi)" "state_io_rel (drops fds {}) (skel_xmp_fallocate E p m x y fi)"
    unfolding xmp_fallocate_def skel_xmp_fallocate_def by (intro drops_if drops_return use [OF f])+
qed

lemma drops_copy:
  assumes c: "fd_contract E fds" and ok: "closes_own (Copy_file_range pi fi_in oi po fi_out oo n fl)"
  shows "state_io_rel (drops fds {}) (xmp_copy_file_range E pi fi_in oi po fi_out oo n fl)"
    "state_io_rel (drops fds {}) (skel_xmp_copy_file_range E pi fi_in oi po fi_out oo n fl)"
proof -
  have same: "skel_xmp_copy_file_range E pi fi_in oi po fi_out oo n fl = xmp_copy_file_range E pi fi_in oi po fi_out oo n fl"
    by (simp add: skel_xmp_copy_file_range_def xmp_copy_file_range_def)
  have "state_io_rel (drops fds (own fi_in fd_in \<union> {})) (do {
       fd_out \<leftarrow> fd_of E po (O_WRONLY OR O_DIRECT) fi_out;
       if fd_out = - 1 then do { _ \<leftarrow> sys (p_close E fd_in); neg_errno }
       else do {
         r \<leftarrow> sys (p_copy_file_range E fd_in oi fd_out oo n fl);
         res \<leftarrow> value_or_errno r;
         _ \<leftarrow> close_opened E fi_out fd_out;
         _ \<leftarrow> close_opened E fi_in fd_in;
         give res } })" for fd_in
  proof -
    have rest: "state_io_rel (drops fds (own fi_out fd_out \<union> own fi_in fd_in)) (do {
         r \<leftarrow> sys (p_copy_file_range E fd_in oi fd_out oo n fl);
         res \<leftarrow> value_or_errno r;
         _ \<leftarrow> close_opened E fi_out fd_out;
         _ \<leftarrow> close_opened E fi_in fd_in;
         give res })" for fd_out
      by (intro drops_first [OF drops_keeps] fd_contract_keeps [OF c] drops_first [OF drops_errno(3)]
          drops_bind [OF drops_fsys(3) [OF c]] drops_last [OF drops_fsys(3) [OF c]] drops_return)
    show ?thesis
    proof (cases fi_in)
      case None
      have "state_io_rel (drops fds {fd_in}) (do { _ \<leftarrow> sys (p_close E fd_in); neg_errno })"
        by (intro drops_last drops_fsys [OF c] drops_errno)
      from drops_fd_of [OF fd_contract_opens(1) [OF c] this] rest show ?thesis by (simp add: None own_def)
    next
      case (Some f)
      then obtain g where "fi_out = Some g" "fi_fh g \<noteq> - 1" using ok by auto
      then show ?thesis using rest [of "fi_fh g"] Some by (simp add: fd_of_def own_def)
    qed
  qed
  from drops_fd_of [OF fd_contract_opens(1) [OF c] drops_errno(1) this]
  show "state_io_rel (drops fds {}) (xmp_copy_file_range E pi fi_in oi po fi_out oo n fl)"
    by (simp add: xmp_copy_file_range_def)
  then show "state_io_rel (drops fds {}) (skel_xmp_copy_file_range E pi fi_in oi po fi_out oo n fl)"
    by (simp add: same)
qed

lemma drops_serve:
  assumes c: "fd_contract E fds" and ok: "closes_own r"
  shows "state_io_rel (drops fds {}) (skel_serve E r)" "state_io_rel (drops fds {}) (serve E files r)"
proof -
  note K = drops_keeps [OF fd_contract_keeps(1) [OF c]]
  show "state_io_rel (drops fds {}) (skel_serve E r)"
    by (cases r)
      (use ok in \<open>auto simp: skel_handler_defs code_def simp del: closes_own.simps intro!: drops_intros fd_contract_keeps [OF c] drops_readdir [OF c]
        drops_copy [OF c] drops_mknod [OF c] drops_fd_handlers [OF c]\<close>)
  show "state_io_rel (drops fds {}) (serve E files r)"
    by (cases r)
      (use ok in \<open>auto simp: handler_defs code_def simp del: closes_own.simps intro!: drops_intros fd_contract_keeps [OF c] drops_readdir [OF c]
        drops_copy [OF c] drops_mknod [OF c] drops_fd_handlers [OF c]\<close>)
qed

text \<open>The skeleton's reads and writes may need a second descriptor.\<close>

lemma drops_direct:
  assumes c: "fd_contract E fds"
  shows "state_io_rel (drops fds {}) (fd_has_odirect E fd)" "state_io_rel (drops fds {}) (get_fd_alignment E fd)"
    "state_io_rel (drops fds {}) (skel_plain_read E fd a n x)" "state_io_rel (drops fds {}) (skel_plain_write E fd a bs x)"
  by (auto simp: fd_has_odirect_def get_fd_alignment_def skel_plain_read_def skel_plain_write_def read_result_def
      intro!: drops_intros fd_contract_keeps [OF c])

lemma drops_second:
  assumes c: "fd_contract E fds" and failed: "state_io_rel (drops fds {}) failed"
    and body: "\<And>fd. state_io_rel (drops fds {}) (body fd)"
  shows "state_io_rel (drops fds (own fi fd)) (do {
         r \<leftarrow> sys (p_open E path fl 0);
         case r of
           None \<Rightarrow> do { _ \<leftarrow> close_opened E fi fd; failed }
         | Some fd2 \<Rightarrow> do {
             res \<leftarrow> body fd2;
             _ \<leftarrow> sys (p_close E fd2);
             _ \<leftarrow> close_opened E fi fd;
             give res } })"
proof (rule drops_open [OF fd_contract_opens(1) [OF c]])
  show "state_io_rel (drops fds (own fi fd)) (do { _ \<leftarrow> close_opened E fi fd; failed })"
    by (intro drops_last [OF drops_fsys(3) [OF c]] failed)
  show "state_io_rel (drops fds (insert fd2 (own fi fd)))
      (do { res \<leftarrow> body fd2; _ \<leftarrow> sys (p_close E fd2); _ \<leftarrow> close_opened E fi fd; give res })" for fd2
    by (intro drops_first [OF body] drops_both [OF drops_fsys(1) [OF c]] drops_last [OF drops_fsys(3) [OF c]] drops_return)
qed

lemma drops_read_write:
  assumes c: "fd_contract E fds"
  shows "state_io_rel (drops fds {}) (skel_xmp_read E path buf n x fi)"
    "state_io_rel (drops fds {}) (skel_xmp_write E path buf bs x fi)"
proof -
  note d = drops_direct [OF c] drops_intros fd_contract_keeps [OF c]
  have a: "state_io_rel (drops fds {}) (if p then do { (r, a) \<leftarrow> sys_code (p_memalign E al m); give (g r a) } else give buf)" for p al m g
    by (auto intro!: d)
  have i: "state_io_rel (drops fds {}) (if p then get_fd_alignment E fd else give 1)" for p fd by (auto intro!: d)
  have e: "state_io_rel (drops fds {}) (do { e \<leftarrow> neg_errno; give (h e) })" for h :: "int \<Rightarrow> 'z" by (intro d)
  note steps = drops_if drops_first [OF drops_direct(1) [OF c]] drops_first [OF i] drops_first [OF a]
    drops_first [OF drops_direct(3) [OF c]] drops_first [OF drops_direct(4) [OF c]]
    drops_last [OF drops_fsys(3) [OF c]] drops_return drops_second [OF c] drops_direct(3,4) [OF c] e drops_errno(1)
  show "state_io_rel (drops fds {}) (skel_xmp_read E path buf n x fi)"
    unfolding skel_xmp_read_def
    by (rule drops_fd_of [OF fd_contract_opens(1) [OF c] e]) (simp only: Un_empty_right, intro steps)
  show "state_io_rel (drops fds {}) (skel_xmp_write E path buf bs x fi)"
    unfolding skel_xmp_write_def
    by (rule drops_fd_of [OF fd_contract_opens(1) [OF c] drops_errno(1)]) (simp only: Un_empty_right, intro steps)
qed

lemma dropsD': "state_io_rel (drops fds {}) m \<Longrightarrow> fds (sysk (snd (run_state m s))) = fds (sysk s)"
  using dropsD [of fds "{}" m s] by (cases "run_state m s") simp



text \<open>The exception: with the source given and the target opened here, a target that cannot be opened makes the
  handler close the source, which belongs to the caller.\<close>

theorem copy_file_range_closes_source:
  assumes c: "fd_contract E fds" and no: "p_open E po (O_WRONLY OR O_DIRECT) 0 (sysk s) = (SysErr e, k)"
    and src: "fi_fh f \<noteq> - 1"
  shows "fds (sysk (snd (run_state (xmp_copy_file_range E pi (Some f) oi po None oo n fl) s))) = fds (sysk s) - {fi_fh f}"
proof -
  have "fds k = fds (sysk s)"
    using fd_contract_opens(1) [OF c, of po "O_WRONLY OR O_DIRECT" 0] no by (auto simp: opens_def dest: spec [of _ "sysk s"])
  moreover obtain w k' where cl: "p_close E (fi_fh f) k = (w, k')" by (cases "p_close E (fi_fh f) k")
  moreover have "fds k' = fds k - {fi_fh f}" using fd_contract_opens(4) [OF c, of "fi_fh f" k] cl by simp
  ultimately show ?thesis
    using no src by (cases w) (simp_all add: xmp_copy_file_range_def fd_of_def minus_one_def run_sys)
qed

end
