(* ===== verification/Fuse_Replies.thy ===== *)
theory Fuse_Replies
  imports Fuse_Handlers
begin

text \<open>
  What the handlers answer. \<open>dedup_view\<close> and \<open>refuses\<close> say how the deduplicating file system differs from the
  skeleton on the requests of \<open>Fuse_Handlers\<close>: it refuses and hides its own files and shows logical sizes. \<open>reports\<close>
  is the convention of FUSE for results: the negated error, or a number that is not negative.
\<close>

section \<open>The deduplicating file system and the skeleton\<close>

definition hidden_name :: "string \<Rightarrow> bool" where
  "hidden_name name \<longleftrightarrow> name = ''.metadata'' \<or> name = ''.sysdata''"

fun refuses :: "request \<Rightarrow> (int \<times> reply) option" where
  "refuses (Getattr p) = (if reserved_path p then Some (- ENOENT, Attributes None) else None)"
| "refuses (Rename p q fl) = (if reserved_path p \<or> reserved_path q then Some (- EPERM, Code) else None)"
| "refuses _ = None"

fun dedup_view :: "(string \<Rightarrow> filemeta option) \<Rightarrow> request \<Rightarrow> int \<times> reply \<Rightarrow> int \<times> reply" where
  "dedup_view files (Getattr p) (r, Attributes (Some st)) = (r, Attributes (Some (case files p of
      None \<Rightarrow> st
    | Some f \<Rightarrow> st\<lparr>st_size := logicalSize f, st_blocks := tdiv (logicalSize f + 511) 512\<rparr>)))"
| "dedup_view files (Readdir p) (r, Names ns) = (r, Names (filter (\<lambda>n. \<not> hidden_name (fst n)) ns))"
| "dedup_view files _ rep = rep"

abbreviation entry_stat :: "dirent \<Rightarrow> stat" where
  "entry_stat de \<equiv> zero_stat\<lparr>st_ino := de_ino de, st_mode := push_bit 12 (ucast (de_type de))\<rparr>"

lemma skel_xmp_fill_collect:
  "skel_xmp_fill collect_name dp des buf = buf @ map (\<lambda>de. (de_name de, entry_stat de)) des"
  by (induction des arbitrary: buf) (simp_all add: collect_name_def)

lemma xmp_fill_collect:
  "xmp_fill collect_name dp des buf =
     buf @ filter (\<lambda>n. \<not> hidden_name (fst n)) (map (\<lambda>de. (de_name de, entry_stat de)) des)"
  by (induction des arbitrary: buf) (auto simp: collect_name_def hidden_name_def)

text \<open>All other handlers are the same in both programs.\<close>

lemmas same_handlers = skel_xmp_fallocate_def xmp_fallocate_def skel_xmp_copy_file_range_def xmp_copy_file_range_def
  skel_xmp_lseek_def xmp_lseek_def skel_mknod_wrapper_def mknod_wrapper_def

lemma serve_from_skeleton:
  "serve E files r = (case refuses r of
      Some rep \<Rightarrow> give rep
    | None \<Rightarrow> do { rep \<leftarrow> skel_serve E r; give (dedup_view files r rep) })"
proof (cases r)
  case (Getattr p)
  then show ?thesis
    by (intro state_ext) (auto simp: xmp_getattr_def skel_xmp_getattr_def zero_or_errno_def split: option.splits prod.splits)
next
  case (Readdir p)
  then show ?thesis
    by (intro state_ext)
      (auto simp: xmp_readdir_def skel_xmp_readdir_def xmp_fill_collect skel_xmp_fill_collect split: option.splits prod.splits)
next
  case (Rename p q fl)
  then show ?thesis by (simp add: code_def xmp_rename_def skel_xmp_rename_def)
qed (simp_all add: code_def skel_handler_defs handler_defs same_handlers split_def)


section \<open>Errors\<close>

definition reports :: "('k, int \<times> 'a) act \<Rightarrow> bool" where
  "reports m \<longleftrightarrow> (\<forall>s x s'. run_state m s = (x, s') \<longrightarrow>
     0 \<le> fst x \<and> errno s' = errno s \<or> fst x = - errno s')"

definition close_succeeds :: "'k posix \<Rightarrow> bool" where
  "close_succeeds E \<longleftrightarrow> (\<forall>fd k. fst (p_close E fd k) = SysOk ()) \<and> (\<forall>d k. fst (p_closedir E d k) = SysOk ())"

lemma reportsI:
  "(\<And>s. 0 \<le> fst (fst (run_state m s)) \<and> errno (snd (run_state m s)) = errno s \<or>
     fst (fst (run_state m s)) = - errno (snd (run_state m s))) \<Longrightarrow> reports m"
  unfolding reports_def by (metis fst_conv snd_conv)

lemma reports_zero: "reports (code (do { res \<leftarrow> sys f; zero_or_errno res }))"
  by (rule reportsI) (simp add: code_def run_sys split: prod.splits sysres.splits)

lemma run_close:
  "close_succeeds E \<Longrightarrow> run_state (sys (p_close E fd)) s = (Some (), s\<lparr>sysk := snd (p_close E fd (sysk s))\<rparr>)"
  "close_succeeds E \<Longrightarrow> run_state (sys (p_closedir E d)) s = (Some (), s\<lparr>sysk := snd (p_closedir E d (sysk s))\<rparr>)"
  by (auto simp: close_succeeds_def run_sys case_prod_beta)

lemma close_no_error: "close_succeeds E \<Longrightarrow> p_closedir E d k \<noteq> (SysErr e, k')" "close_succeeds E \<Longrightarrow> p_close E d k \<noteq> (SysErr e, k')"
  by (auto simp: close_succeeds_def) (metis fst_conv sysres.distinct(1))+

lemma run_close_opened:
  "close_succeeds E \<Longrightarrow> run_state (close_opened E fi fd) s =
     ((), s\<lparr>sysk := if fi = None then snd (p_close E fd (sysk s)) else sysk s\<rparr>)"
  by (cases fi) (simp_all add: close_opened_def run_close)

text \<open>The requests whose handler passes the error number on: \<^verbatim>\<open>fsync\<close> gives -1 for every error (see
  \<open>fsync_reports_minus_one\<close>), \<^verbatim>\<open>posix_fallocate\<close> does not use \<^verbatim>\<open>errno\<close>, and the flags of a rename are not supported.\<close>

fun uses_errno :: "request \<Rightarrow> bool" where
  "uses_errno (Fsync d f) \<longleftrightarrow> False"
| "uses_errno (Fallocate p m x y fi) \<longleftrightarrow> False"
| "uses_errno (Rename p q fl) \<longleftrightarrow> fl = 0"
| "uses_errno _ \<longleftrightarrow> True"

lemma value_contractD:
  assumes "value_contract E"
  shows "p_open E p fl md k = (SysOk fd, k') \<Longrightarrow> 0 \<le> fd" "p_openat E d p fl md k = (SysOk fd, k') \<Longrightarrow> 0 \<le> fd"
    "p_lgetxattr E p nm n k = (SysOk v, k') \<Longrightarrow> 0 \<le> fst v" "p_llistxattr E p n k = (SysOk v, k') \<Longrightarrow> 0 \<le> fst v"
    "p_copy_file_range E i x fo y n w k = (SysOk c, k') \<Longrightarrow> 0 \<le> c" "p_lseek E fd x w k = (SysOk c, k') \<Longrightarrow> 0 \<le> c"
  using assms unfolding value_contract_def nonneg_def by (metis fst_conv)+

lemma reports_skel:
  assumes v: "value_contract E" and c: "close_succeeds E" and u: "uses_errno r"
  shows "reports (skel_serve E r)"
proof (cases r)
  case (Mknod p m d)
  then show ?thesis
    by (intro reportsI)
      (auto simp: code_def skel_xmp_mknod_def skel_mknod_wrapper_def run_sys run_close [OF c] minus_one_def zero_or_minus_one_def
        split: prod.splits sysres.splits option.splits dest: value_contractD(2) [OF v])
next
  case (Copy_file_range pi fi_in oi po fi_out oo n fl)
  then show ?thesis
    by (intro reportsI)
      (auto simp: code_def skel_xmp_copy_file_range_def fd_of_def run_sys run_close [OF c] run_close_opened [OF c] minus_one_def
        split: prod.splits sysres.splits option.splits dest: value_contractD(1,5) [OF v])
next
  case (Lseek p x w fi)
  then show ?thesis
    by (intro reportsI)
      (auto simp: code_def skel_xmp_lseek_def fd_of_def run_sys run_close_opened [OF c] minus_one_def
        split: prod.splits sysres.splits option.splits dest: value_contractD(1,6) [OF v])
next
  case (Getattr p)
  then show ?thesis
    by (intro reportsI) (auto simp: skel_xmp_getattr_def run_sys split: prod.splits sysres.splits option.splits)
next
  case (Readdir p)
  then show ?thesis
    by (intro reportsI)
      (auto simp: skel_xmp_readdir_def run_sys close_no_error [OF c] split: prod.splits sysres.splits option.splits)
next
  case (Readlink p n)
  then show ?thesis
    by (intro reportsI) (auto simp: skel_xmp_readlink_def run_sys split: prod.splits sysres.splits option.splits)
next
  case (Statfs p)
  then show ?thesis
    by (intro reportsI) (auto simp: skel_xmp_statfs_def run_sys split: prod.splits sysres.splits option.splits)
next
  case (Getxattr p nm n)
  then show ?thesis
    by (intro reportsI)
      (auto simp: skel_xmp_getxattr_def run_sys split: prod.splits sysres.splits option.splits dest: value_contractD(3) [OF v])
next
  case (Listxattr p n)
  then show ?thesis
    by (intro reportsI)
      (auto simp: skel_xmp_listxattr_def run_sys split: prod.splits sysres.splits option.splits dest: value_contractD(4) [OF v])
next
  case (Truncate p n fi)
  then show ?thesis by (cases fi) (simp_all add: skel_xmp_truncate_def reports_zero)
qed (use u in \<open>simp_all add: skel_handler_defs reports_zero\<close>)

lemma dedup_view_code: "fst (dedup_view files r rep) = fst rep"
  by (cases "(files, r, rep)" rule: dedup_view.cases) auto

lemma reports_serve:
  assumes v: "value_contract E" and c: "close_succeeds E" and u: "uses_errno r" and g: "refuses r = None"
  shows "reports (serve E files r)"
proof -
  have "serve E files r = do { rep \<leftarrow> skel_serve E r; give (dedup_view files r rep) }"
    by (simp add: serve_from_skeleton g)
  moreover have "reports (do { rep \<leftarrow> skel_serve E r; give (dedup_view files r rep) })"
    using reports_skel [OF v c u]
    by (intro reportsI) (force simp: reports_def dedup_view_code split: prod.splits)
  ultimately show ?thesis by simp
qed


lemma demo_close_succeeds: "close_succeeds demo_posix"
  by (simp add: close_succeeds_def demo_posix_def df_close_def)


text \<open>\<^verbatim>\<open>fsync\<close> hands on the -1 of the system call, which FUSE takes for EPERM.\<close>

theorem fsync_reports_minus_one:
  assumes "p_fsync E (fi_fh f) (sysk s) = (SysErr e, k)"
  shows "fst (fst (run_state (serve E files (Fsync 0 f)) s)) = - 1"
  using assms by (simp add: code_def xmp_fsync_def run_sys zero_or_minus_one_def)

end
