(* ===== verification/Direct_IO.thy ===== *)
theory Direct_IO
  imports Skeleton Demo_Posix
begin

text \<open>
  The skeleton's reads and writes under direct I/O (\<open>direct_contract\<close>): whatever address, length and offset a
  request has, one of the ways of \<open>skel_xmp_read\<close> and \<open>skel_xmp_write\<close> meets the alignment of the disk.
\<close>

section \<open>The calls\<close>

lemma direct_contractD:
  assumes "direct_contract E content descr al"
  shows "0 < al"
    "content k p \<noteq> None \<Longrightarrow> \<exists>fd k'. p_open E p fl 0 k = (SysOk fd, k') \<and> 0 \<le> fd \<and> descr k fd = None \<and>
        descr k' = (descr k)(fd \<mapsto> (p, fl AND O_DIRECT \<noteq> 0)) \<and> content k' = content k"
    "descr k fd = Some (p, d) \<Longrightarrow> \<exists>fl. p_getfl E fd k = (SysOk fl, k) \<and> (fl AND O_DIRECT \<noteq> 0) = d"
    "descr k fd \<noteq> None \<Longrightarrow> \<exists>st. p_fstat E fd k = (SysOk st, k) \<and> 0 < st_blksize st \<and>
        al = nat (max (st_blksize st) (p_pagesize E k))"
    "\<exists>a. p_memalign E al n k = ((0, a), k) \<and> a mod al = 0"
    "\<exists>k'. p_close E fd k = (SysOk (), k') \<and> descr k' = (descr k)(fd := None) \<and> content k' = content k"
    "descr k fd = Some (p, d) \<Longrightarrow> content k p = Some bs \<Longrightarrow> 0 \<le> off \<Longrightarrow>
        (d \<Longrightarrow> a mod al = 0 \<and> n mod al = 0 \<and> off mod int al = 0) \<Longrightarrow>
        p_pread E fd a n off k = (SysOk (take n (drop (nat off) bs)), k)"
    "descr k fd = Some (p, d) \<Longrightarrow> content k p = Some bs \<Longrightarrow> 0 \<le> off \<Longrightarrow>
        (d \<Longrightarrow> a mod al = 0 \<and> length new mod al = 0 \<and> off mod int al = 0) \<Longrightarrow>
        \<exists>k'. p_pwrite E fd a new off k = (SysOk (int (length new)), k') \<and> descr k' = descr k \<and>
          content k' = (content k)(p \<mapsto> put_bytes bs (nat off) new)"
  using assms unfolding direct_contract_def by simp_all

text \<open>Two processes that show the same files and descriptors, with the same \<open>errno\<close>.\<close>

definition at_files :: "('k \<Rightarrow> string \<Rightarrow> byte list option) \<Rightarrow> ('k \<Rightarrow> int \<Rightarrow> (string \<times> bool) option) \<Rightarrow> 'k proc \<Rightarrow>
    (string \<Rightarrow> byte list option) \<Rightarrow> (int \<Rightarrow> (string \<times> bool) option) \<Rightarrow> bool" where
  "at_files content descr s c d \<longleftrightarrow> content (sysk s) = c \<and> descr (sysk s) = d"

lemma run_open:
  assumes "direct_contract E content descr al" "at_files content descr s c d" "c p = Some bs"
  obtains fd s' where "run_state (sys (p_open E p fl 0)) s = (Some fd, s')" "0 \<le> fd" "d fd = None"
    "at_files content descr s' c (d(fd \<mapsto> (p, fl AND O_DIRECT \<noteq> 0)))"
proof -
  have "content (sysk s) p \<noteq> None" using assms by (simp add: at_files_def)
  from direct_contractD(2) [OF assms(1) this, of fl] obtain fd k' where
    "p_open E p fl 0 (sysk s) = (SysOk fd, k')" "0 \<le> fd" "descr (sysk s) fd = None"
    "descr k' = (descr (sysk s))(fd \<mapsto> (p, fl AND O_DIRECT \<noteq> 0))" "content k' = content (sysk s)" by blast
  then show ?thesis using assms(2) by (intro that [of fd "s\<lparr>sysk := k'\<rparr>"]) (auto simp: run_sys at_files_def)
qed

lemma run_close_fd:
  assumes "direct_contract E content descr al" "at_files content descr s c d"
  obtains s' where "run_state (sys (p_close E fd)) s = (Some (), s')" "at_files content descr s' c (d(fd := None))"
proof -
  from direct_contractD(6) [OF assms(1), of fd "sysk s"] obtain k' where
    "p_close E fd (sysk s) = (SysOk (), k')" "descr k' = (descr (sysk s))(fd := None)" "content k' = content (sysk s)" by blast
  then show ?thesis using assms(2) by (intro that [of "s\<lparr>sysk := k'\<rparr>"]) (auto simp: run_sys at_files_def)
qed

lemma run_close_own:
  assumes "direct_contract E content descr al" "at_files content descr s c d"
  obtains s' where "run_state (close_opened E fi fd) s = ((), s')"
    "at_files content descr s' c (if fi = None then d(fd := None) else d)"
proof (cases fi)
  case None
  from run_close_fd [OF assms] obtain s' where
    "run_state (sys (p_close E fd)) s = (Some (), s')" "at_files content descr s' c (d(fd := None))" .
  then show ?thesis using None by (intro that [of s']) (simp_all add: close_opened_def)
next
  case (Some f)
  then show ?thesis using assms by (intro that [of s]) (simp_all add: close_opened_def)
qed

lemma run_odirect:
  assumes "direct_contract E content descr al" "at_files content descr s c d" "d fd = Some (p, od)"
  shows "run_state (fd_has_odirect E fd) s = (od, s)" "run_state (get_fd_alignment E fd) s = (al, s)"
proof -
  have k: "descr (sysk s) fd = Some (p, od)" using assms by (simp add: at_files_def)
  from direct_contractD(3) [OF assms(1) k] show "run_state (fd_has_odirect E fd) s = (od, s)"
    by (auto simp: fd_has_odirect_def run_sys)
  have "descr (sysk s) fd \<noteq> None" using k by simp
  from direct_contractD(4) [OF assms(1) this] show "run_state (get_fd_alignment E fd) s = (al, s)"
    by (auto simp: get_fd_alignment_def run_sys max_def Let_def)
qed

lemma run_memalign:
  assumes "direct_contract E content descr al"
  obtains a where "run_state (sys_code (p_memalign E al n)) s = ((0, a), s)" "a mod al = 0"
  using direct_contractD(5) [OF assms, of n "sysk s"] by (auto simp: run_sys_code)

text \<open>The descriptor a request is served with: its own, or one opened here.\<close>

definition usable :: "(int \<Rightarrow> (string \<times> bool) option) \<Rightarrow> string \<Rightarrow> file_info option \<Rightarrow> bool" where
  "usable d p fi \<longleftrightarrow> (case fi of None \<Rightarrow> True | Some f \<Rightarrow> fi_fh f \<noteq> - 1 \<and> (\<exists>od. d (fi_fh f) = Some (p, od)))"

lemma run_fd_of:
  assumes E: "direct_contract E content descr al" and s: "at_files content descr s c d" and p: "c p = Some bs" and u: "usable d p fi"
  obtains fd s' d' od where "run_state (fd_of E p fl fi) s = (fd, s')" "fd \<noteq> - 1" "at_files content descr s' c d'"
    "d' fd = Some (p, od)" "(if fi = None then d'(fd := None) else d') = d"
proof (cases fi)
  case None
  from run_open [OF E s p, of fl] obtain fd s' where f: "run_state (sys (p_open E p fl 0)) s = (Some fd, s')" "0 \<le> fd" "d fd = None"
    "at_files content descr s' c (d(fd \<mapsto> (p, fl AND O_DIRECT \<noteq> 0)))" .
  then have "run_state (fd_of E p fl fi) s = (fd, s')" by (simp add: fd_of_def None minus_one_def)
  moreover have "(d(fd \<mapsto> (p, fl AND O_DIRECT \<noteq> 0)))(fd := None) = d" using f(3) by (auto simp: fun_upd_idem)
  ultimately show ?thesis using f None
    by (intro that [of fd s' "d(fd \<mapsto> (p, fl AND O_DIRECT \<noteq> 0))" "fl AND O_DIRECT \<noteq> 0"]) simp_all
next
  case (Some f)
  with u obtain od where "fi_fh f \<noteq> - 1" "d (fi_fh f) = Some (p, od)" by (auto simp: usable_def)
  then show ?thesis using Some s by (intro that [of "fi_fh f" s d od]) (auto simp: fd_of_def)
qed

lemma run_plain_read:
  assumes E: "direct_contract E content descr al" and s: "at_files content descr s c d" and p: "c p = Some bs"
    and f: "d fd = Some (p, od)" and off: "0 \<le> off" and al: "od \<Longrightarrow> a mod al = 0 \<and> n mod al = 0 \<and> off mod int al = 0"
  shows "run_state (skel_plain_read E fd a n off) s =
    ((int (length (take n (drop (nat off) bs))), take n (drop (nat off) bs)), s)"
proof -
  have "p_pread E fd a n off (sysk s) = (SysOk (take n (drop (nat off) bs)), sysk s)"
    by (rule direct_contractD(7) [OF E _ _ off al]) (use s p f in \<open>auto simp: at_files_def\<close>)
  then show ?thesis by (simp add: skel_plain_read_def run_sys read_result_def)
qed

lemma run_plain_write:
  assumes E: "direct_contract E content descr al" and s: "at_files content descr s c d" and p: "c p = Some bs"
    and f: "d fd = Some (p, od)" and off: "0 \<le> off" and al: "od \<Longrightarrow> a mod al = 0 \<and> length new mod al = 0 \<and> off mod int al = 0"
  obtains s' where "run_state (skel_plain_write E fd a new off) s = (int (length new), s')"
    "at_files content descr s' (c(p \<mapsto> put_bytes bs (nat off) new)) d"
proof -
  have "\<exists>k'. p_pwrite E fd a new off (sysk s) = (SysOk (int (length new)), k') \<and> descr k' = descr (sysk s) \<and>
      content k' = (content (sysk s))(p \<mapsto> put_bytes bs (nat off) new)"
    by (rule direct_contractD(8) [OF E _ _ off al]) (use s p f in \<open>auto simp: at_files_def\<close>)
  then obtain k' where "p_pwrite E fd a new off (sysk s) = (SysOk (int (length new)), k')" "descr k' = descr (sysk s)"
      "content k' = (content (sysk s))(p \<mapsto> put_bytes bs (nat off) new)" by blast
  then show ?thesis using s by (intro that [of "s\<lparr>sysk := k'\<rparr>"]) (auto simp: skel_plain_write_def run_sys at_files_def)
qed

section \<open>Reads and writes\<close>

lemma skel_xmp_read_correct:
  assumes E: "direct_contract E content descr al" and s: "at_files content descr s c d" and p: "c p = Some bs"
    and u: "usable d p fi" and off: "0 \<le> off"
  obtains s' where "run_state (skel_xmp_read E p buf n off fi) s =
      ((int (length (take n (drop (nat off) bs))), take n (drop (nat off) bs)), s')" "at_files content descr s' c d"
proof -
  let ?res = "(int (length (take n (drop (nat off) bs))), take n (drop (nat off) bs))"
  from run_fd_of [OF E s p u, of "O_RDONLY OR O_DIRECT"] obtain fd s1 d1 od where
    o: "run_state (fd_of E p (O_RDONLY OR O_DIRECT) fi) s = (fd, s1)" "fd \<noteq> - 1" and s1: "at_files content descr s1 c d1"
    and fd: "d1 fd = Some (p, od)" and orig: "(if fi = None then d1(fd := None) else d1) = d" .
  note odir = run_odirect [OF E s1 fd]
  from run_close_own [OF E s1, of fi fd] orig obtain s2 where
    cl: "run_state (close_opened E fi fd) s1 = ((), s2)" "at_files content descr s2 c d" by auto
  show ?thesis
  proof (cases "\<not> od \<or> n mod al = 0 \<and> off mod int al = 0")
    case True
    from run_memalign [OF E, of n s1] obtain a where ma: "run_state (sys_code (p_memalign E al n)) s1 = ((0, a), s1)" "a mod al = 0" .
    have r: "run_state (skel_plain_read E fd (if od \<and> buf mod al \<noteq> 0 then a else buf) n off) s1 = (?res, s1)"
      using True ma(2) by (intro run_plain_read [OF E s1 p fd off]) auto
    have "run_state (skel_xmp_read E p buf n off fi) s = (?res, s2)"
      using True o odir cl(1) ma r by (cases od; cases "buf mod al = 0") (simp_all add: skel_xmp_read_def)
    then show ?thesis using cl(2) that by blast
  next
    case False
    from run_open [OF E s1 p, of O_RDONLY] obtain fd2 s3 where f2: "run_state (sys (p_open E p O_RDONLY 0)) s1 = (Some fd2, s3)"
      "d1 fd2 = None" and s3: "at_files content descr s3 c (d1(fd2 \<mapsto> (p, O_RDONLY AND O_DIRECT \<noteq> 0)))" .
    have "run_state (skel_plain_read E fd2 buf n off) s3 = (?res, s3)"
      by (rule run_plain_read [OF E s3 p _ off, of fd2 False]) (simp_all add: O_RDONLY_def)
    moreover from run_close_fd [OF E s3, of fd2] f2(2) obtain s4 where
      c2: "run_state (sys (p_close E fd2)) s3 = (Some (), s4)" and s4: "at_files content descr s4 c d1"
      by (auto simp: fun_upd_idem)
    moreover from run_close_own [OF E s4, of fi fd] orig obtain s5 where
      "run_state (close_opened E fi fd) s4 = ((), s5)" "at_files content descr s5 c d" by auto
    ultimately show ?thesis using False o odir f2(1) by (intro that [of s5]) (auto simp: skel_xmp_read_def)
  qed
qed

lemma skel_xmp_write_correct:
  assumes E: "direct_contract E content descr al" and s: "at_files content descr s c d" and p: "c p = Some bs"
    and u: "usable d p fi" and off: "0 \<le> off"
  obtains s' where "run_state (skel_xmp_write E p buf new off fi) s = (int (length new), s')"
    "at_files content descr s' (c(p \<mapsto> put_bytes bs (nat off) new)) d"
proof -
  let ?c = "c(p \<mapsto> put_bytes bs (nat off) new)"
  from run_fd_of [OF E s p u, of "O_WRONLY OR O_DIRECT"] obtain fd s1 d1 od where
    o: "run_state (fd_of E p (O_WRONLY OR O_DIRECT) fi) s = (fd, s1)" "fd \<noteq> - 1" and s1: "at_files content descr s1 c d1"
    and fd: "d1 fd = Some (p, od)" and orig: "(if fi = None then d1(fd := None) else d1) = d" .
  note odir = run_odirect [OF E s1 fd]
  show ?thesis
  proof (cases "\<not> od \<or> length new mod al = 0 \<and> off mod int al = 0")
    case True
    from run_memalign [OF E, of "length new" s1] obtain a where
      ma: "run_state (sys_code (p_memalign E al (length new))) s1 = ((0, a), s1)" "a mod al = 0" .
    obtain s2 where w: "run_state (skel_plain_write E fd (if od \<and> buf mod al \<noteq> 0 then a else buf) new off) s1 = (int (length new), s2)"
      "at_files content descr s2 ?c d1"
      by (rule run_plain_write [OF E s1 p fd off, of "if od \<and> buf mod al \<noteq> 0 then a else buf" new]) (use True ma(2) in auto)
    from run_close_own [OF E w(2), of fi fd] orig obtain s3 where
      cl: "run_state (close_opened E fi fd) s2 = ((), s3)" "at_files content descr s3 ?c d" by auto
    have "run_state (skel_xmp_write E p buf new off fi) s = (int (length new), s3)"
      using True o odir cl(1) ma w(1) by (cases od) (auto simp: skel_xmp_write_def split: if_splits)
    then show ?thesis using cl(2) that by blast
  next
    case False
    from run_open [OF E s1 p, of O_WRONLY] obtain fd2 s3 where f2: "run_state (sys (p_open E p O_WRONLY 0)) s1 = (Some fd2, s3)"
      "d1 fd2 = None" and s3: "at_files content descr s3 c (d1(fd2 \<mapsto> (p, O_WRONLY AND O_DIRECT \<noteq> 0)))" .
    obtain s4 where w: "run_state (skel_plain_write E fd2 buf new off) s3 = (int (length new), s4)"
      "at_files content descr s4 ?c (d1(fd2 \<mapsto> (p, O_WRONLY AND O_DIRECT \<noteq> 0)))"
      by (rule run_plain_write [OF E s3 p _ off, of fd2 False buf new]) (auto simp: O_WRONLY_def O_DIRECT_def)
    from run_close_fd [OF E w(2), of fd2] f2(2) obtain s5 where
      c2: "run_state (sys (p_close E fd2)) s4 = (Some (), s5)" and s5: "at_files content descr s5 ?c d1"
      by (auto simp: fun_upd_idem)
    from run_close_own [OF E s5, of fi fd] orig obtain s6 where
      "run_state (close_opened E fi fd) s5 = ((), s6)" "at_files content descr s6 ?c d" by auto
    then show ?thesis using False o odir f2(1) w c2 by (intro that [of s6]) (auto simp: skel_xmp_write_def)
  qed
qed

lemma take_drop_put_bytes: "take (length new) (drop off (put_bytes old off new)) = new"
  by (simp add: put_bytes_def min_def)



end
