(* ===== verification/XXHash.thy ===== *)
theory XXHash
  imports Prelude
begin

text \<open>
  \<^verbatim>\<open>systracer/hash.h\<close>: the bounded xxHash32 that the tracer computes over the buffers of write
  operations. Memory is read through \<^verbatim>\<open>bpf_probe_read\<close>, a helper of the kernel: it is the parameter
  \<open>rd\<close> (address, number of bytes) and \<open>reads_buffer\<close> says that the buffer is mapped and holds given
  bytes. \<open>xxh32\<close> is the published algorithm on lists of bytes, without bounds; the main theorem is
  that the kernel version computes it on every buffer of at most 4096 bytes, so the counters \<open>j\<close>
  that the eBPF verifier needs never cut the input short.
\<close>

unbundle bit_operations_syntax

section \<open>The code\<close>

definition MAX_BUF_SIZE :: int where "MAX_BUF_SIZE = 4096"

definition prime32x1 :: "32 word" where "prime32x1 = 2654435761"
definition prime32x2 :: "32 word" where "prime32x2 = 2246822519"
definition prime32x3 :: "32 word" where "prime32x3 = 3266489917"
definition prime32x4 :: "32 word" where "prime32x4 = 668265263"
definition prime32x5 :: "32 word" where "prime32x5 = 374761393"

definition rotl32_1 :: "32 word \<Rightarrow> 32 word" where "rotl32_1 x = push_bit 1 x OR drop_bit (32 - 1) x"
definition rotl32_7 :: "32 word \<Rightarrow> 32 word" where "rotl32_7 x = push_bit 7 x OR drop_bit (32 - 7) x"
definition rotl32_11 :: "32 word \<Rightarrow> 32 word" where "rotl32_11 x = push_bit 11 x OR drop_bit (32 - 11) x"
definition rotl32_12 :: "32 word \<Rightarrow> 32 word" where "rotl32_12 x = push_bit 12 x OR drop_bit (32 - 12) x"
definition rotl32_13 :: "32 word \<Rightarrow> 32 word" where "rotl32_13 x = push_bit 13 x OR drop_bit (32 - 13) x"
definition rotl32_17 :: "32 word \<Rightarrow> 32 word" where "rotl32_17 x = push_bit 17 x OR drop_bit (32 - 17) x"
definition rotl32_18 :: "32 word \<Rightarrow> 32 word" where "rotl32_18 x = push_bit 18 x OR drop_bit (32 - 18) x"

type_synonym probe = "64 word \<Rightarrow> nat \<Rightarrow> 8 word list"

text \<open>The bytes of a \<^verbatim>\<open>uint32_t\<close> on the (little-endian) machine.\<close>

fun le32 :: "8 word list \<Rightarrow> 32 word" where
  "le32 [] = 0"
| "le32 (b # bs) = ucast b + 256 * le32 bs"

type_synonym lanes = "32 word \<times> 32 word \<times> 32 word \<times> 32 word"

definition lane :: "32 word \<Rightarrow> 32 word \<Rightarrow> 32 word" where
  "lane v k = rotl32_13 (v + k * prime32x2) * prime32x1"

function stripe_loop :: "probe \<Rightarrow> int \<Rightarrow> int \<Rightarrow> int \<Rightarrow> 64 word \<Rightarrow> lanes \<Rightarrow> int \<times> 64 word \<times> lanes" where
  "stripe_loop rd len i j data (v1, v2, v3, v4) =
     (if i \<le> len - 16 \<and> j < MAX_BUF_SIZE div 16
      then stripe_loop rd len (i + 16) (j + 1) (data + 16)
             (lane v1 (le32 (rd data 4)), lane v2 (le32 (rd (data + 4) 4)),
              lane v3 (le32 (rd (data + 8) 4)), lane v4 (le32 (rd (data + 12) 4)))
      else (i, data, v1, v2, v3, v4))"
  by pat_completeness auto
termination by (relation "measure (\<lambda>(rd, len, i, j, data, v). nat (MAX_BUF_SIZE div 16 - j))") auto

function word_loop :: "probe \<Rightarrow> int \<Rightarrow> int \<Rightarrow> int \<Rightarrow> 64 word \<Rightarrow> 32 word \<Rightarrow> int \<times> 64 word \<times> 32 word" where
  "word_loop rd len i j data h =
     (if i \<le> len - 4 \<and> j < 16
      then word_loop rd len (i + 4) (j + 1) (data + 4)
             (rotl32_17 (h + le32 (rd data 4) * prime32x3) * prime32x4)
      else (i, data, h))"
  by pat_completeness auto
termination by (relation "measure (\<lambda>(rd, len, i, j, data, h). nat (16 - j))") auto

function byte_loop :: "probe \<Rightarrow> int \<Rightarrow> int \<Rightarrow> int \<Rightarrow> 64 word \<Rightarrow> 32 word \<Rightarrow> 32 word" where
  "byte_loop rd len i j data h =
     (if i < len \<and> j < 4
      then byte_loop rd len (i + 1) (j + 1) (data + 1)
             (rotl32_11 (h + ucast (hd (rd data 1)) * prime32x5) * prime32x1)
      else h)"
  by pat_completeness auto
termination by (relation "measure (\<lambda>(rd, len, i, j, data, h). nat (4 - j))") auto

declare stripe_loop.simps [simp del] word_loop.simps [simp del] byte_loop.simps [simp del]

definition avalanche :: "32 word \<Rightarrow> 32 word" where
  "avalanche h0 =
     (let h1 = h0 XOR drop_bit 15 h0; h2 = h1 * prime32x2; h3 = h2 XOR drop_bit 13 h2; h4 = h3 * prime32x3
      in h4 XOR drop_bit 16 h4)"

text \<open>\<^verbatim>\<open>len\<close> is a signed \<^verbatim>\<open>long\<close>: a count of 2^63 bytes or more arrives as a negative length.\<close>

definition xxhash32 :: "probe \<Rightarrow> 64 word \<Rightarrow> 64 word \<Rightarrow> 32 word \<Rightarrow> 32 word" where
  "xxhash32 rd buf len seed =
     (if sint len > MAX_BUF_SIZE then 0
      else
        let (i, data, h) =
          (if sint len \<ge> 16
           then let (i, data, v1, v2, v3, v4) = stripe_loop rd (sint len) 0 0 buf
                      (seed + prime32x1 + prime32x2, seed + prime32x2, seed + 0, seed - prime32x1)
                in (i, data, rotl32_1 v1 + rotl32_7 v2 + rotl32_12 v3 + rotl32_18 v4)
           else (0, buf, seed + prime32x5));
          (i, data, h) = word_loop rd (sint len) i 0 data (h + ucast len)
        in avalanche (byte_loop rd (sint len) i 0 data h))"

section \<open>The published algorithm\<close>

fun xxh_lanes :: "lanes \<Rightarrow> 8 word list \<Rightarrow> lanes" where
  "xxh_lanes (v1, v2, v3, v4) bs =
     (let f = \<lambda>v k. word_rotl 13 (v + le32 (take 4 (drop k bs)) * prime32x2) * prime32x1
      in (f v1 0, f v2 4, f v3 8, f v4 12))"

function xxh_stripes :: "lanes \<Rightarrow> 8 word list \<Rightarrow> lanes" where
  "xxh_stripes v bs = (if length bs < 16 then v else xxh_stripes (xxh_lanes v bs) (drop 16 bs))"
  by pat_completeness auto
termination by (relation "measure (length \<circ> snd)") auto

function xxh_words :: "32 word \<Rightarrow> 8 word list \<Rightarrow> 32 word" where
  "xxh_words h bs = (if length bs < 4 then h
     else xxh_words (word_rotl 17 (h + le32 (take 4 bs) * prime32x3) * prime32x4) (drop 4 bs))"
  by pat_completeness auto
termination by (relation "measure (length \<circ> snd)") auto

declare xxh_stripes.simps [simp del] xxh_words.simps [simp del]

fun xxh_bytes :: "32 word \<Rightarrow> 8 word list \<Rightarrow> 32 word" where
  "xxh_bytes h [] = h"
| "xxh_bytes h (b # bs) = xxh_bytes (word_rotl 11 (h + ucast b * prime32x5) * prime32x1) bs"

fun xxh_merge :: "lanes \<Rightarrow> 32 word" where
  "xxh_merge (v1, v2, v3, v4) = word_rotl 1 v1 + word_rotl 7 v2 + word_rotl 12 v3 + word_rotl 18 v4"

definition xxh32 :: "32 word \<Rightarrow> 8 word list \<Rightarrow> 32 word" where
  "xxh32 seed bs =
     (let n = length bs;
          acc = (if n < 16 then seed + prime32x5
                 else xxh_merge (xxh_stripes (seed + prime32x1 + prime32x2, seed + prime32x2, seed, seed - prime32x1) bs));
          rest = drop (n div 16 * 16) bs;
          h = xxh_words (acc + of_nat n) rest
      in avalanche (xxh_bytes h (drop (length rest div 4 * 4) rest)))"

text \<open>Published values of the algorithm: the empty input and the letter a, seed 0.\<close>

lemma xxh32_empty: "xxh32 0 [] = 0x02CC5D05"
  by code_simp

lemma xxh32_a: "xxh32 0 [97] = 0x550D7456"
  by code_simp

section \<open>The kernel version computes it\<close>

definition reads_buffer :: "probe \<Rightarrow> 64 word \<Rightarrow> 8 word list \<Rightarrow> bool" where
  "reads_buffer rd buf bs \<longleftrightarrow>
     (\<forall>k\<le>length bs. \<forall>n\<le>length bs - k. rd (buf + of_nat k) n = take n (drop k bs))"

lemma rotl32_word_rotl:
  "rotl32_1 x = word_rotl 1 x" "rotl32_7 x = word_rotl 7 x" "rotl32_11 x = word_rotl 11 x"
  "rotl32_12 x = word_rotl 12 x" "rotl32_13 x = word_rotl 13 x" "rotl32_17 x = word_rotl 17 x" "rotl32_18 x = word_rotl 18 x"
proof -
  have r: "word_rotl n x = push_bit n x OR drop_bit (32 - n) x" if "0 < n" "n < 32" for n
  proof (rule bit_word_eqI)
    fix m assume "m < LENGTH(32)"
    then have "m < 32" by simp
    then show "bit (word_rotl n x) m = bit (push_bit n x OR drop_bit (32 - n) x) m"
    proof (cases "n \<le> m")
      case True
      have "(m + (32 - n)) mod 32 = m - n" using True that \<open>m < 32\<close> by (simp add: mod_if)
      moreover have "\<not> bit x (32 - n + m)" using True \<open>m < 32\<close> bit_imp_le_length [of x "32 - n + m"] by auto
      ultimately show ?thesis using True \<open>m < 32\<close> that by (simp add: bit_word_rotl_iff bit_simps)
    next
      case False
      have "(m + (32 - n)) mod 32 = 32 - n + m" using False that by simp
      then show ?thesis using False \<open>m < 32\<close> that by (simp add: bit_word_rotl_iff bit_simps)
    qed
  qed
  show "rotl32_1 x = word_rotl 1 x" "rotl32_7 x = word_rotl 7 x" "rotl32_11 x = word_rotl 11 x"
    "rotl32_12 x = word_rotl 12 x" "rotl32_13 x = word_rotl 13 x" "rotl32_17 x = word_rotl 17 x" "rotl32_18 x = word_rotl 18 x"
    by (simp_all add: r rotl32_1_def rotl32_7_def rotl32_11_def rotl32_12_def rotl32_13_def rotl32_17_def rotl32_18_def)
qed


lemma reads_bufferD: "reads_buffer rd buf bs \<Longrightarrow> k + n \<le> length bs \<Longrightarrow> rd (buf + of_nat k) n = take n (drop k bs)"
  by (simp add: reads_buffer_def)

lemma lane_rotl: "lane v k = word_rotl 13 (v + k * prime32x2) * prime32x1"
  by (simp add: lane_def rotl32_word_rotl)

lemma stripe_loop_computes:
  assumes rd: "reads_buffer rd buf bs" and len: "length bs \<le> 4096"
  shows "16 * m \<le> length bs \<Longrightarrow>
    stripe_loop rd (int (length bs)) (int (16 * m)) (int m) (buf + of_nat (16 * m)) v =
      (int (16 * (length bs div 16)), buf + of_nat (16 * (length bs div 16)), xxh_stripes v (drop (16 * m) bs))"
proof (induction "length bs div 16 - m" arbitrary: m v)
  case 0
  then have "m = length bs div 16" by linarith
  moreover have "\<not> int (16 * m) \<le> int (length bs) - 16" using 0 calculation by linarith
  moreover have "length (drop (16 * m) bs) < 16" using calculation(1) by simp
  ultimately show ?case by (cases v) (simp add: stripe_loop.simps xxh_stripes.simps)
next
  case (Suc d)
  have "Suc m \<le> length bs div 16" using Suc.hyps(2) by linarith
  then have more: "16 * Suc m \<le> length bs" by (simp add: less_eq_div_iff_mult_less_eq)
  obtain v1 v2 v3 v4 where v: "v = (v1, v2, v3, v4)" by (cases v)
  have rds: "rd (buf + of_nat (16 * m)) 4 = take 4 (drop (16 * m) bs)"
    "rd (buf + of_nat (16 * m) + 4) 4 = take 4 (drop 4 (drop (16 * m) bs))"
    "rd (buf + of_nat (16 * m) + 8) 4 = take 4 (drop 8 (drop (16 * m) bs))"
    "rd (buf + of_nat (16 * m) + 12) 4 = take 4 (drop 12 (drop (16 * m) bs))"
    using reads_bufferD [OF rd, of "16 * m" 4] reads_bufferD [OF rd, of "16 * m + 4" 4]
      reads_bufferD [OF rd, of "16 * m + 8" 4] reads_bufferD [OF rd, of "16 * m + 12" 4] more
    by (simp_all add: ac_simps)
  have "stripe_loop rd (int (length bs)) (int (16 * m)) (int m) (buf + of_nat (16 * m)) v =
      stripe_loop rd (int (length bs)) (int (16 * Suc m)) (int (Suc m)) (buf + of_nat (16 * Suc m))
        (xxh_lanes v (drop (16 * m) bs))"
    (is "_ = ?r")
  proof -
    have g: "int (16 * m) \<le> int (length bs) - 16 \<and> int m < MAX_BUF_SIZE div 16"
      using more len by (simp add: MAX_BUF_SIZE_def)
    have "int (16 * m) + 16 = int (16 * Suc m)" "int m + 1 = int (Suc m)"
      "buf + of_nat (16 * m) + 16 = buf + of_nat (16 * Suc m)" by (simp_all add: algebra_simps)
    then show ?thesis
      unfolding v stripe_loop.simps [of rd _ "int (16 * m)"] if_P [OF g] rds xxh_lanes.simps Let_def lane_rotl
      by (simp only: drop_0)
  qed
  also have "?r = (int (16 * (length bs div 16)), buf + of_nat (16 * (length bs div 16)),
      xxh_stripes (xxh_lanes v (drop (16 * m) bs)) (drop (16 * Suc m) bs))"
    by (rule Suc.hyps(1)) (use Suc.hyps(2) more in auto)
  also have "xxh_stripes (xxh_lanes v (drop (16 * m) bs)) (drop (16 * Suc m) bs) = xxh_stripes v (drop (16 * m) bs)"
    using more by (subst (2) xxh_stripes.simps) (auto simp: ac_simps)
  finally show ?case .
qed

lemma word_loop_computes:
  assumes rd: "reads_buffer rd buf bs" and s: "s \<le> length bs" "length bs - s < 16"
  shows "s + 4 * m \<le> length bs \<Longrightarrow>
    word_loop rd (int (length bs)) (int (s + 4 * m)) (int m) (buf + of_nat (s + 4 * m)) h =
      (int (s + 4 * ((length bs - s) div 4)), buf + of_nat (s + 4 * ((length bs - s) div 4)), xxh_words h (drop (s + 4 * m) bs))"
proof (induction "(length bs - s) div 4 - m" arbitrary: m h)
  case 0
  then have m: "m = (length bs - s) div 4" by linarith
  then have "\<not> int (s + 4 * m) \<le> int (length bs) - 4" using s by linarith
  moreover have "length (drop (s + 4 * m) bs) < 4" using m s by simp
  ultimately show ?case using m by (simp add: word_loop.simps xxh_words.simps)
next
  case (Suc d)
  have "Suc m \<le> (length bs - s) div 4" using Suc.hyps(2) by linarith
  then have more: "s + 4 * Suc m \<le> length bs" using s by (simp add: less_eq_div_iff_mult_less_eq)
  have rds: "rd (buf + of_nat (s + 4 * m)) 4 = take 4 (drop (s + 4 * m) bs)"
    using reads_bufferD [OF rd, of "s + 4 * m" 4] more by simp
  let ?h = "word_rotl 17 (h + le32 (take 4 (drop (s + 4 * m) bs)) * prime32x3) * prime32x4"
  have "word_loop rd (int (length bs)) (int (s + 4 * m)) (int m) (buf + of_nat (s + 4 * m)) h =
      word_loop rd (int (length bs)) (int (s + 4 * Suc m)) (int (Suc m)) (buf + of_nat (s + 4 * Suc m)) ?h"
    (is "_ = ?r")
  proof -
    have g: "int (s + 4 * m) \<le> int (length bs) - 4 \<and> int m < 16" using more s by auto
    have "int (s + 4 * m) + 4 = int (s + 4 * Suc m)" "int m + 1 = int (Suc m)"
      "buf + of_nat (s + 4 * m) + 4 = buf + of_nat (s + 4 * Suc m)" by (simp_all add: algebra_simps)
    then show ?thesis
      unfolding word_loop.simps [of rd _ "int (s + 4 * m)"] if_P [OF g] rds rotl32_word_rotl by (simp only:)
  qed
  also have "?r = (int (s + 4 * ((length bs - s) div 4)), buf + of_nat (s + 4 * ((length bs - s) div 4)),
      xxh_words ?h (drop (s + 4 * Suc m) bs))"
    by (rule Suc.hyps(1)) (use Suc.hyps(2) more in auto)
  also have "xxh_words ?h (drop (s + 4 * Suc m) bs) = xxh_words h (drop (s + 4 * m) bs)"
    using more by (subst (2) xxh_words.simps) (auto simp: ac_simps)
  finally show ?case .
qed

lemma byte_loop_computes:
  assumes rd: "reads_buffer rd buf bs" and s: "s \<le> length bs" "length bs - s < 4"
  shows "s + m \<le> length bs \<Longrightarrow>
    byte_loop rd (int (length bs)) (int (s + m)) (int m) (buf + of_nat (s + m)) h = xxh_bytes h (drop (s + m) bs)"
proof (induction "length bs - s - m" arbitrary: m h)
  case 0
  then show ?case by (simp add: byte_loop.simps)
next
  case (Suc d)
  have more: "s + m < length bs" using Suc.hyps(2) by linarith
  have rds: "rd (buf + of_nat (s + m)) 1 = take 1 (drop (s + m) bs)"
    using reads_bufferD [OF rd, of "s + m" 1] more by simp
  then have hd: "hd (rd (buf + of_nat (s + m)) 1) = bs ! (s + m)" using more by (simp add: take_Suc hd_drop_conv_nth)
  let ?h = "word_rotl 11 (h + ucast (bs ! (s + m)) * prime32x5) * prime32x1"
  have "byte_loop rd (int (length bs)) (int (s + m)) (int m) (buf + of_nat (s + m)) h =
      byte_loop rd (int (length bs)) (int (s + Suc m)) (int (Suc m)) (buf + of_nat (s + Suc m)) ?h"
    (is "_ = ?r")
  proof -
    have g: "int (s + m) < int (length bs) \<and> int m < 4" using more s by linarith
    have "int (s + m) + 1 = int (s + Suc m)" "int m + 1 = int (Suc m)"
      "buf + of_nat (s + m) + 1 = buf + of_nat (s + Suc m)" by (simp_all add: algebra_simps)
    then show ?thesis
      unfolding byte_loop.simps [of rd _ "int (s + m)"] if_P [OF g] hd rotl32_word_rotl by (simp only:)
  qed
  also have "?r = xxh_bytes ?h (drop (s + Suc m) bs)"
    by (rule Suc.hyps(1)) (use Suc.hyps(2) more in auto)
  also have "\<dots> = xxh_bytes h (drop (s + m) bs)"
    using more by (simp add: Cons_nth_drop_Suc [symmetric])
  finally show ?case .
qed

lemma sint_length: "length bs \<le> 4096 \<Longrightarrow> sint (of_nat (length bs) :: 64 word) = int (length bs)"
  by (simp add: signed_of_nat signed_take_bit_int_eq_self)

lemma xxhash32_computes:
  assumes rd: "reads_buffer rd buf bs" and len: "length bs \<le> 4096"
  shows "xxhash32 rd buf (of_nat (length bs)) seed = xxh32 seed bs"
proof -
  let ?L = "length bs" and ?s = "16 * (length bs div 16)"
  let ?v = "(seed + prime32x1 + prime32x2, seed + prime32x2, seed, seed - prime32x1)"
  let ?acc = "if ?L < 16 then seed + prime32x5 else xxh_merge (xxh_stripes ?v bs)"
  have s: "?s \<le> ?L" "?L - ?s < 16" by linarith+
  let ?w = "?s + 4 * ((?L - ?s) div 4)"
  have w: "?w \<le> ?L" "?L - ?w < 4" using s by linarith+
  have c: "ucast (of_nat ?L :: 64 word) = (of_nat ?L :: 32 word)"
    using len by (simp add: unsigned_of_nat take_bit_nat_eq_self)
  have first: "(if int ?L \<ge> 16
           then let (i, data, v1, v2, v3, v4) = stripe_loop rd (int ?L) 0 0 buf
                      (seed + prime32x1 + prime32x2, seed + prime32x2, seed + 0, seed - prime32x1)
                in (i, data, rotl32_1 v1 + rotl32_7 v2 + rotl32_12 v3 + rotl32_18 v4)
           else (0, buf, seed + prime32x5)) = (int ?s, buf + of_nat ?s, ?acc)"
  proof (cases "?L < 16")
    case True
    then show ?thesis by simp
  next
    case False
    obtain w1 w2 w3 w4 where ws: "xxh_stripes ?v bs = (w1, w2, w3, w4)" by (cases "xxh_stripes ?v bs")
    have "stripe_loop rd (int ?L) 0 0 buf ?v = (int ?s, buf + of_nat ?s, xxh_stripes ?v bs)"
      using stripe_loop_computes [OF rd len, of 0 ?v] by simp
    then show ?thesis using False unfolding ws by (simp add: rotl32_word_rotl)
  qed
  have W: "word_loop rd (int ?L) (int ?s) 0 (buf + of_nat ?s) (?acc + of_nat ?L) =
      (int ?w, buf + of_nat ?w, xxh_words (?acc + of_nat ?L) (drop ?s bs))"
    using word_loop_computes [OF rd s, of 0] s(1) by (simp only: add_0_right mult_0_right int_ops(1))
  have B: "byte_loop rd (int ?L) (int ?w) 0 (buf + of_nat ?w) h = xxh_bytes h (drop ?w bs)" for h
    using byte_loop_computes [OF rd w, of 0] w(1) by (simp only: add_0_right int_ops(1))
  have D: "drop (length (drop ?s bs) div 4 * 4) (drop ?s bs) = drop ?w bs"
    by (simp add: add.commute mult.commute)
  have "\<not> sint (of_nat ?L :: 64 word) > MAX_BUF_SIZE" using sint_length [OF len] len by (simp add: MAX_BUF_SIZE_def)
  then have "xxhash32 rd buf (of_nat ?L) seed = avalanche (xxh_bytes (xxh_words (?acc + of_nat ?L) (drop ?s bs)) (drop ?w bs))"
    unfolding xxhash32_def Let_def c sint_length [OF len] first [unfolded Let_def] prod.case W B by (simp only: if_False)
  also have "\<dots> = xxh32 seed bs"
    unfolding xxh32_def Let_def mult.commute [of "?L div 16" 16] D by (rule refl)
  finally show ?thesis .
qed

section \<open>Properties\<close>

text \<open>C29. The hash the tracer computes in the kernel is xxHash32: for every buffer of at most 4096
  bytes, and every seed, the bounded loops of the eBPF version give the value of the published algorithm.\<close>

theorem xxhash32_is_xxh32:
  assumes "reads_buffer rd buf bs" and "length bs \<le> 4096"
  shows "xxhash32 rd buf (of_nat (length bs)) seed = xxh32 seed bs"
  using assms by (rule xxhash32_computes)

text \<open>A buffer at address 4096 that holds the letters a to z.\<close>

definition demo_text :: "8 word list" where
  "demo_text = map of_nat [97..<123]"

definition demo_probe :: probe where
  "demo_probe a n = take n (drop (unat (a - 4096)) demo_text)"

lemma demo_reads: "reads_buffer demo_probe 4096 demo_text"
  by (auto simp: reads_buffer_def demo_probe_def demo_text_def unat_of_nat take_bit_nat_eq_self)

theorem xxhash32_is_xxh32_witness:
  "xxhash32 demo_probe 4096 (of_nat (length demo_text)) 12345 = xxh32 12345 demo_text"
  by (rule xxhash32_is_xxh32 [OF demo_reads]) (simp add: demo_text_def)

end
