(* ===== verification/BPF_Kernel.thy ===== *)
theory BPF_Kernel
  imports Prelude XXHash "HOL-Library.AList"
begin

text \<open>
  What the two BPF programs (\<^verbatim>\<open>systracer.bpf.c\<close>, \<^verbatim>\<open>syscounter.bpf.c\<close>) use of the kernel. A probe runs
  in a \<open>kernel\<close>: the current process, the kernel's structures as maps from pointers to the fields that
  \<^verbatim>\<open>BPF_CORE_READ\<close> follows (a read that faults gives zero), memory through \<^verbatim>\<open>bpf_probe_read\<close>, and the
  answer of \<^verbatim>\<open>bpf_ringbuf_reserve\<close>. None of it is code of the repository, so every function of it is a
  parameter. A BPF hash map is an association list with a bound on the number of entries; the
  locale \<open>bounded_map\<close> states its contract and holds the facts that both programs use.
\<close>

section \<open>Hash maps\<close>

datatype update_flag = BPF_ANY | BPF_NOEXIST

text \<open>\<^verbatim>\<open>bpf_map_update_elem\<close>: 0, or -EEXIST (17), or -E2BIG (7) when a new key does not fit.\<close>

definition hash_update :: "nat \<Rightarrow> 'k \<Rightarrow> 'v \<Rightarrow> update_flag \<Rightarrow> ('k \<times> 'v) list \<Rightarrow> int \<times> ('k \<times> 'v) list" where
  "hash_update max_entries k v flag m =
     (if map_of m k \<noteq> None
      then if flag = BPF_NOEXIST then (- 17, m) else (0, AList.update k v m)
      else if length m < max_entries then (0, m @ [(k, v)]) else (- 7, m))"

definition hash_ok :: "nat \<Rightarrow> ('k \<times> 'v) list \<Rightarrow> bool" where
  "hash_ok max_entries m \<longleftrightarrow> distinct (map fst m) \<and> length m \<le> max_entries"

locale bounded_map =
  fixes lookup :: "'m \<Rightarrow> 'k \<Rightarrow> 'v option" and put :: "'k \<Rightarrow> 'v \<Rightarrow> update_flag \<Rightarrow> 'm \<Rightarrow> int \<times> 'm"
    and count :: "'m \<Rightarrow> nat" and bound :: nat and ok :: "'m \<Rightarrow> bool"
  assumes ok_put: "ok m \<Longrightarrow> ok (snd (put k v f m))"
    and count_card: "ok m \<Longrightarrow> finite (dom (lookup m)) \<and> card (dom (lookup m)) = count m"
    and count_bound: "ok m \<Longrightarrow> count m \<le> bound"
    and put_new: "lookup m k = None \<Longrightarrow> count m < bound \<Longrightarrow>
      fst (put k v f m) = 0 \<and> lookup (snd (put k v f m)) = (lookup m)(k \<mapsto> v)"
    and put_full: "lookup m k = None \<Longrightarrow> \<not> count m < bound \<Longrightarrow> fst (put k v f m) \<noteq> 0 \<and> snd (put k v f m) = m"
    and put_any: "lookup m k \<noteq> None \<Longrightarrow>
      fst (put k v BPF_ANY m) = 0 \<and> lookup (snd (put k v BPF_ANY m)) = (lookup m)(k \<mapsto> v)"
    and put_noexist: "lookup m k \<noteq> None \<Longrightarrow> fst (put k v BPF_NOEXIST m) \<noteq> 0 \<and> snd (put k v BPF_NOEXIST m) = m"
begin

text \<open>An update never loses another key, and succeeds exactly when its key is present afterwards.\<close>

lemma put_other: "k' \<noteq> k \<Longrightarrow> lookup (snd (put k v f m)) k' = lookup m k'"
  using put_new [of m k v f] put_full [of m k v f] put_any [of m k v] put_noexist [of m k v]
  by (cases "lookup m k"; cases f; cases "count m < bound") auto

lemma put_any_dom:
  "dom (lookup (snd (put k v BPF_ANY m))) =
     (if k \<in> dom (lookup m) \<or> count m < bound then {k} \<union> dom (lookup m) else dom (lookup m))"
  using put_new [of m k v BPF_ANY] put_full [of m k v BPF_ANY] put_any [of m k v]
  by (cases "lookup m k"; cases "count m < bound") auto

lemma put_room:
  assumes "ok m" "finite A" "insert k (dom (lookup m)) \<subseteq> A" "card A \<le> bound"
  shows "k \<in> dom (lookup m) \<or> count m < bound"
proof (rule disjCI)
  assume "\<not> count m < bound"
  then have "card A \<le> card (dom (lookup m))" using count_card [OF assms(1)] assms(4) by simp
  moreover have "dom (lookup m) \<subseteq> A" using assms(3) by simp
  ultimately have "dom (lookup m) = A" using assms(2) by (metis card_seteq)
  then show "k \<in> dom (lookup m)" using assms(3) by simp
qed

end

lemma length_update_in: "map_of m k = Some w \<Longrightarrow> length (AList.update k v m) = length m"
  by (induction m) (auto split: if_splits)

lemma hash_ok_update: "hash_ok n m \<Longrightarrow> hash_ok n (snd (hash_update n k v f m))"
  by (cases "map_of m k") (auto simp: hash_ok_def hash_update_def distinct_update length_update_in map_of_eq_None_iff)

lemma hash_update_map:
  "map_of (snd (hash_update n k v f m)) =
     (if map_of m k \<noteq> None then if f = BPF_NOEXIST then map_of m else (map_of m)(k \<mapsto> v)
      else if length m < n then (map_of m)(k \<mapsto> v) else map_of m)"
  by (auto simp: hash_update_def update_conv' map_add_def fun_eq_iff split: option.splits)

interpretation hash_map: bounded_map map_of "hash_update n" length n "hash_ok n" for n
proof unfold_locales
  fix m :: "('a \<times> 'b) list"
  assume "hash_ok n m"
  then have "distinct (map fst m)" "length m \<le> n" by (simp_all add: hash_ok_def)
  then show "finite (dom (map_of m)) \<and> card (dom (map_of m)) = length m" "length m \<le> n"
    by (simp_all add: dom_map_of_conv_image_fst finite_dom_map_of) (metis distinct_card length_map list.set_map)
qed (auto simp: hash_ok_update hash_update_map, auto simp: hash_update_def)

section \<open>The kernel around a probe\<close>

text \<open>\<open>old\<close> stands for what a reserved record of the ring buffer holds before it is filled.\<close>

record 'd kernel =
  pid_tgid :: "64 word"
  comm :: "8 word list"
  fd_table :: "64 word"
  read_ptr :: "64 word \<Rightarrow> 64 word"
  file_dentry :: "64 word \<Rightarrow> 64 word"
  path_dentry :: "64 word \<Rightarrow> 64 word"
  dentry_inode :: "64 word \<Rightarrow> 64 word"
  dentry_name :: "64 word \<Rightarrow> 64 word"
  inode_mode :: "64 word \<Rightarrow> 16 word"
  iocb_filp :: "64 word \<Rightarrow> 64 word"
  iter_type :: "64 word \<Rightarrow> 8 word"
  iter_base :: "64 word \<Rightarrow> 64 word"
  iter_len :: "64 word \<Rightarrow> 64 word"
  iter_offset :: "64 word \<Rightarrow> 64 word"
  iter_count :: "64 word \<Rightarrow> 64 word"
  probe_read :: probe
  reserve :: "'d option"

text \<open>The process of the current thread, as the probes compute it.\<close>

definition current_pid :: "'d kernel \<Rightarrow> 32 word" where
  "current_pid k = ucast (drop_bit 32 (pid_tgid k))"

definition S_IFMT :: "16 word" where "S_IFMT = 0xF000"
definition S_IFREG :: "16 word" where "S_IFREG = 0x8000"

end
