(* ===== verification/Systracer.thy ===== *)
theory Systracer
  imports BPF_Kernel
begin

text \<open>
  \<^verbatim>\<open>systracer/systracer.bpf.c\<close>: the probes of the tracer. Each probe is a function from the kernel
  around it, its arguments and the maps of the program to its return value and the new maps; the ring
  buffer is the list of the records submitted and not yet consumed.

  The theorems: \<open>fire_spec\<close> says for all seventeen probes at once what they do, from a specification
  (\<open>observed\<close>) that names the event of each call; nothing else is emitted, and an event that does not fit in the
  ring buffer is counted. The traced processes are the given ones and all their descendants.
\<close>

section \<open>Data\<close>

definition MYOP_OPEN :: "64 word" where "MYOP_OPEN = 2"
definition MYOP_READ :: "64 word" where "MYOP_READ = 0"
definition MYOP_WRITE :: "64 word" where "MYOP_WRITE = 1"

definition L_SYSCALL :: int where "L_SYSCALL = 0"
definition L_VFS :: int where "L_VFS = 1"
definition L_EXT4 :: int where "L_EXT4 = 2"
definition L_FUSE :: int where "L_FUSE = 3"
definition L_BIO :: int where "L_BIO = 4"

definition ITER_UBUF :: "8 word" where "ITER_UBUF = 0"

record data_t =
  d_entry :: "32 word"
  d_pid :: "32 word"
  d_command :: "8 word list"
  d_syscall_id :: "64 word"
  d_type :: int
  d_filename :: "8 word list"
  d_hash :: "32 word"
  d_ino :: "64 word"
  d_size :: "64 word"

definition filename_size :: nat where "filename_size = 128"

record block_rq_submission =
  rq_dev :: "32 word"
  rq_sector :: "64 word"
  rq_nr_sectors :: "32 word"
  rq_nr_bytes :: "32 word"
  rq_rwbs :: "8 word list"

text \<open>The three maps: the ring buffer, the array of one counter, the processes to trace.\<close>

record systracer =
  events :: "data_t list"
  lost_events :: "64 word list"
  my_config :: "(32 word \<times> 32 word) list"

definition my_config_max :: nat where "my_config_max = 100"

section \<open>Helpers\<close>

definition to_discard :: "systracer \<Rightarrow> 32 word \<Rightarrow> int" where
  "to_discard s pid = (case map_of (my_config s) pid of Some _ \<Rightarrow> 0 | None \<Rightarrow> 1)"

definition get_file_from_fd :: "data_t kernel \<Rightarrow> 32 word \<Rightarrow> 64 word" where
  "get_file_from_fd k fd = (let fd_array = fd_table k in read_ptr k (fd_array + 8 * scast fd))"

definition check_file_mode :: "16 word \<Rightarrow> int" where
  "check_file_mode mode = (if and mode S_IFMT \<noteq> S_IFREG then 1 else 0)"

definition check_file_mode_from_file :: "data_t kernel \<Rightarrow> 64 word \<Rightarrow> int" where
  "check_file_mode_from_file k file =
     (let d = file_dentry k file; inode = dentry_inode k d; mode = inode_mode k inode in check_file_mode mode)"

definition check_file_mode_from_path :: "data_t kernel \<Rightarrow> 64 word \<Rightarrow> int" where
  "check_file_mode_from_path k path =
     (let d = path_dentry k path; inode = dentry_inode k d; mode = inode_mode k inode in check_file_mode mode)"

definition check_file_mode_from_inode :: "data_t kernel \<Rightarrow> 64 word \<Rightarrow> int" where
  "check_file_mode_from_inode k inode = (let mode = inode_mode k inode in check_file_mode mode)"

text \<open>The ring buffer is full: the array lookup of key 0 and the atomic increment.\<close>

definition lose_event :: "systracer \<Rightarrow> int \<times> systracer" where
  "lose_event s = (case lost_events s of
      [] \<Rightarrow> (1, s)
    | lost_counter # cs \<Rightarrow> (0, s\<lparr>lost_events := (lost_counter + 1) # cs\<rparr>))"

definition create_and_submit_rw_event ::
  "data_t kernel \<Rightarrow> 64 word \<Rightarrow> int \<Rightarrow> 64 word \<Rightarrow> 64 word \<Rightarrow> 32 word \<Rightarrow> systracer \<Rightarrow> int \<times> systracer" where
  "create_and_submit_rw_event k ev_id ev_type filename cnt hash s =
     (case reserve k of
        None \<Rightarrow> lose_event s
      | Some data \<Rightarrow>
          let data = data\<lparr>d_pid := ucast (drop_bit 32 (pid_tgid k)), d_syscall_id := ev_id, d_type := ev_type,
                d_size := cnt, d_hash := hash, d_command := comm k,
                d_filename := probe_read k filename filename_size\<rparr>
          in (0, s\<lparr>events := events s @ [data]\<rparr>))"

definition create_and_submit_other_event ::
  "data_t kernel \<Rightarrow> 64 word \<Rightarrow> int \<Rightarrow> 64 word \<Rightarrow> systracer \<Rightarrow> int \<times> systracer" where
  "create_and_submit_other_event k ev_id ev_type filename s =
     (case reserve k of
        None \<Rightarrow> lose_event s
      | Some data \<Rightarrow>
          let data = data\<lparr>d_pid := ucast (drop_bit 32 (pid_tgid k)), d_syscall_id := ev_id, d_type := ev_type,
                d_size := 0, d_hash := 0, d_command := comm k,
                d_filename := probe_read k filename filename_size\<rparr>
          in (0, s\<lparr>events := events s @ [data]\<rparr>))"

section \<open>System calls\<close>

definition sys_enter_openat :: "data_t kernel \<Rightarrow> 64 word \<Rightarrow> 64 word \<Rightarrow> systracer \<Rightarrow> int \<times> systracer" where
  "sys_enter_openat k syscall_id filename s =
     (let pid = current_pid k in
      if to_discard s pid \<noteq> 0 then (0, s)
      else create_and_submit_other_event k syscall_id L_SYSCALL filename s)"

definition sys_enter_write ::
  "data_t kernel \<Rightarrow> 64 word \<Rightarrow> 32 word \<Rightarrow> 64 word \<Rightarrow> 64 word \<Rightarrow> systracer \<Rightarrow> int \<times> systracer" where
  "sys_enter_write k syscall_id fd buf cnt s =
     (let pid = current_pid k in
      if to_discard s pid \<noteq> 0 then (0, s)
      else let fil = get_file_from_fd k fd in
      if check_file_mode_from_file k fil \<noteq> 0 then (0, s)
      else let filename = dentry_name k (file_dentry k fil);
               hash = xxhash32 (probe_read k) buf cnt 12345
      in create_and_submit_rw_event k syscall_id L_SYSCALL filename cnt hash s)"

definition sys_enter_pwrite64 ::
  "data_t kernel \<Rightarrow> 64 word \<Rightarrow> 32 word \<Rightarrow> 64 word \<Rightarrow> 64 word \<Rightarrow> systracer \<Rightarrow> int \<times> systracer" where
  "sys_enter_pwrite64 k syscall_id fd buf cnt s =
     (let pid = current_pid k in
      if to_discard s pid \<noteq> 0 then (0, s)
      else let fil = get_file_from_fd k fd in
      if check_file_mode_from_file k fil \<noteq> 0 then (0, s)
      else let filename = dentry_name k (file_dentry k fil);
               hash = xxhash32 (probe_read k) buf cnt 12345
      in create_and_submit_rw_event k syscall_id L_SYSCALL filename cnt hash s)"

definition sys_enter_read ::
  "data_t kernel \<Rightarrow> 64 word \<Rightarrow> 32 word \<Rightarrow> 64 word \<Rightarrow> 64 word \<Rightarrow> systracer \<Rightarrow> int \<times> systracer" where
  "sys_enter_read k syscall_id fd buf cnt s =
     (let pid = current_pid k in
      if to_discard s pid \<noteq> 0 then (0, s)
      else let fil = get_file_from_fd k fd in
      if check_file_mode_from_file k fil \<noteq> 0 then (0, s)
      else let filename = dentry_name k (file_dentry k fil)
      in create_and_submit_rw_event k syscall_id L_SYSCALL filename cnt 0 s)"

definition sys_enter_pread64 ::
  "data_t kernel \<Rightarrow> 64 word \<Rightarrow> 32 word \<Rightarrow> 64 word \<Rightarrow> 64 word \<Rightarrow> systracer \<Rightarrow> int \<times> systracer" where
  "sys_enter_pread64 k syscall_id fd buf cnt s =
     (let pid = current_pid k in
      if to_discard s pid \<noteq> 0 then (0, s)
      else let fil = get_file_from_fd k fd in
      if check_file_mode_from_file k fil \<noteq> 0 then (0, s)
      else let filename = dentry_name k (file_dentry k fil)
      in create_and_submit_rw_event k syscall_id L_SYSCALL filename cnt 0 s)"

definition sys_enter_close :: "data_t kernel \<Rightarrow> 64 word \<Rightarrow> 32 word \<Rightarrow> systracer \<Rightarrow> int \<times> systracer" where
  "sys_enter_close k syscall_id fd s =
     (let pid = current_pid k in
      if to_discard s pid \<noteq> 0 then (0, s)
      else let fil = get_file_from_fd k fd in
      if check_file_mode_from_file k fil \<noteq> 0 then (0, s)
      else let filename = dentry_name k (file_dentry k fil)
      in create_and_submit_other_event k syscall_id L_SYSCALL filename s)"

section \<open>The VFS layer\<close>

definition vfs_enter_open :: "data_t kernel \<Rightarrow> 64 word \<Rightarrow> 64 word \<Rightarrow> systracer \<Rightarrow> int \<times> systracer" where
  "vfs_enter_open k path fil s =
     (let pid = current_pid k in
      if to_discard s pid \<noteq> 0 then (0, s)
      else if check_file_mode_from_path k path \<noteq> 0 then (0, s)
      else let filename = dentry_name k (path_dentry k path)
      in create_and_submit_other_event k MYOP_OPEN L_VFS filename s)"

definition vfs_enter_write :: "data_t kernel \<Rightarrow> 64 word \<Rightarrow> 64 word \<Rightarrow> 64 word \<Rightarrow> systracer \<Rightarrow> int \<times> systracer" where
  "vfs_enter_write k fil buf cnt s =
     (let pid = current_pid k in
      if to_discard s pid \<noteq> 0 then (0, s)
      else if check_file_mode_from_file k fil \<noteq> 0 then (0, s)
      else let filename = dentry_name k (file_dentry k fil);
               hash = xxhash32 (probe_read k) buf cnt 12345
      in create_and_submit_rw_event k MYOP_WRITE L_VFS filename cnt hash s)"

definition vfs_read_entry :: "data_t kernel \<Rightarrow> 64 word \<Rightarrow> 64 word \<Rightarrow> 64 word \<Rightarrow> systracer \<Rightarrow> int \<times> systracer" where
  "vfs_read_entry k fil buf cnt s =
     (let pid = current_pid k in
      if to_discard s pid \<noteq> 0 then (0, s)
      else if check_file_mode_from_file k fil \<noteq> 0 then (0, s)
      else let filename = dentry_name k (file_dentry k fil)
      in create_and_submit_rw_event k MYOP_READ L_VFS filename cnt 0 s)"

section \<open>The file systems\<close>

definition ext4_enter_open :: "data_t kernel \<Rightarrow> 64 word \<Rightarrow> 64 word \<Rightarrow> systracer \<Rightarrow> int \<times> systracer" where
  "ext4_enter_open k inode filp s =
     (let pid = current_pid k in
      if to_discard s pid \<noteq> 0 then (0, s)
      else if check_file_mode_from_file k filp \<noteq> 0 then (0, s)
      else let filename = dentry_name k (file_dentry k filp)
      in create_and_submit_other_event k MYOP_OPEN L_EXT4 filename s)"

definition ext4_enter_write :: "data_t kernel \<Rightarrow> 64 word \<Rightarrow> 64 word \<Rightarrow> systracer \<Rightarrow> int \<times> systracer" where
  "ext4_enter_write k iocb from_iter s =
     (let pid = current_pid k in
      if to_discard s pid \<noteq> 0 then (0, s)
      else let fil = iocb_filp k iocb in
      if check_file_mode_from_file k fil \<noteq> 0 then (0, s)
      else let filename = dentry_name k (file_dentry k fil) in
      if iter_type k from_iter \<noteq> ITER_UBUF then (0, s)
      else let off = iter_offset k from_iter; size = iter_len k from_iter - off;
               hash = xxhash32 (probe_read k) (iter_base k from_iter + off) size 12345
      in create_and_submit_rw_event k MYOP_WRITE L_EXT4 filename size hash s)"

definition ext4_enter_read :: "data_t kernel \<Rightarrow> 64 word \<Rightarrow> 64 word \<Rightarrow> systracer \<Rightarrow> int \<times> systracer" where
  "ext4_enter_read k iocb to_iter s =
     (let pid = current_pid k in
      if to_discard s pid \<noteq> 0 then (0, s)
      else let fil = iocb_filp k iocb in
      if check_file_mode_from_file k fil \<noteq> 0 then (0, s)
      else let filename = dentry_name k (file_dentry k fil); size = iter_count k to_iter
      in create_and_submit_rw_event k MYOP_READ L_EXT4 filename size 0 s)"

definition fuse_enter_open :: "data_t kernel \<Rightarrow> 64 word \<Rightarrow> 64 word \<Rightarrow> systracer \<Rightarrow> int \<times> systracer" where
  "fuse_enter_open k inode fil s =
     (let pid = current_pid k in
      if to_discard s pid \<noteq> 0 then (0, s)
      else if check_file_mode_from_inode k inode \<noteq> 0 then (0, s)
      else let filename = dentry_name k (file_dentry k fil)
      in create_and_submit_other_event k MYOP_OPEN L_FUSE filename s)"

definition fuse_enter_file_read_iter :: "data_t kernel \<Rightarrow> 64 word \<Rightarrow> 64 word \<Rightarrow> systracer \<Rightarrow> int \<times> systracer" where
  "fuse_enter_file_read_iter k iocb to_iter s =
     (let pid = current_pid k in
      if to_discard s pid \<noteq> 0 then (0, s)
      else let fil = iocb_filp k iocb in
      if check_file_mode_from_file k fil \<noteq> 0 then (0, s)
      else let filename = dentry_name k (file_dentry k fil); size = iter_count k to_iter
      in create_and_submit_rw_event k MYOP_READ L_FUSE filename size 0 s)"

definition fuse_enter_file_write_iter :: "data_t kernel \<Rightarrow> 64 word \<Rightarrow> 64 word \<Rightarrow> systracer \<Rightarrow> int \<times> systracer" where
  "fuse_enter_file_write_iter k iocb from_iter s =
     (let pid = current_pid k in
      if to_discard s pid \<noteq> 0 then (0, s)
      else let fil = iocb_filp k iocb in
      if check_file_mode_from_file k fil \<noteq> 0 then (0, s)
      else let filename = dentry_name k (file_dentry k fil) in
      if iter_type k from_iter \<noteq> ITER_UBUF then (0, s)
      else let off = iter_offset k from_iter; size = iter_len k from_iter - off;
               hash = xxhash32 (probe_read k) (iter_base k from_iter + off) size 12345
      in create_and_submit_rw_event k MYOP_WRITE L_FUSE filename size hash s)"

section \<open>The block layer and processes\<close>

text \<open>'R' is 82, 'W' is 87; the file name is NULL.\<close>

definition trace_block_rq_insertstruct :: "data_t kernel \<Rightarrow> block_rq_submission \<Rightarrow> systracer \<Rightarrow> int \<times> systracer" where
  "trace_block_rq_insertstruct k ctx s =
     (let pid = current_pid k in
      if to_discard s pid \<noteq> 0 then (0, s)
      else if rq_rwbs ctx ! 0 = 82
      then create_and_submit_rw_event k MYOP_READ L_BIO 0 (ucast (rq_nr_bytes ctx)) 0 s
      else if rq_rwbs ctx ! 0 = 87
      then create_and_submit_rw_event k MYOP_WRITE L_BIO 0 (ucast (rq_nr_bytes ctx)) 0 s
      else (0, s))"

definition trace_sched_process_fork :: "32 word \<Rightarrow> 32 word \<Rightarrow> systracer \<Rightarrow> int \<times> systracer" where
  "trace_sched_process_fork parent_pid child_pid s =
     (if to_discard s parent_pid \<noteq> 0 then (0, s)
      else (0, s\<lparr>my_config := snd (hash_update my_config_max child_pid 1 BPF_ANY (my_config s))\<rparr>))"


section \<open>What a call should report\<close>

text \<open>The calls on which the seventeen programs are attached, with the arguments they read.\<close>

datatype probe_call =
    Sys_openat "64 word" "64 word"
  | Sys_write "64 word" "32 word" "64 word" "64 word"
  | Sys_pwrite64 "64 word" "32 word" "64 word" "64 word"
  | Sys_read "64 word" "32 word" "64 word" "64 word"
  | Sys_pread64 "64 word" "32 word" "64 word" "64 word"
  | Sys_close "64 word" "32 word"
  | Vfs_open "64 word" "64 word"
  | Vfs_write "64 word" "64 word" "64 word"
  | Vfs_read "64 word" "64 word" "64 word"
  | Ext4_open "64 word" "64 word"
  | Ext4_write "64 word" "64 word"
  | Ext4_read "64 word" "64 word"
  | Fuse_open "64 word" "64 word"
  | Fuse_read "64 word" "64 word"
  | Fuse_write "64 word" "64 word"
  | Block_issue block_rq_submission
  | Fork "32 word" "32 word"

fun fire :: "data_t kernel \<Rightarrow> probe_call \<Rightarrow> systracer \<Rightarrow> int \<times> systracer" where
  "fire k (Sys_openat nr name) s = sys_enter_openat k nr name s"
| "fire k (Sys_write nr fd buf n) s = sys_enter_write k nr fd buf n s"
| "fire k (Sys_pwrite64 nr fd buf n) s = sys_enter_pwrite64 k nr fd buf n s"
| "fire k (Sys_read nr fd buf n) s = sys_enter_read k nr fd buf n s"
| "fire k (Sys_pread64 nr fd buf n) s = sys_enter_pread64 k nr fd buf n s"
| "fire k (Sys_close nr fd) s = sys_enter_close k nr fd s"
| "fire k (Vfs_open path fil) s = vfs_enter_open k path fil s"
| "fire k (Vfs_write fil buf n) s = vfs_enter_write k fil buf n s"
| "fire k (Vfs_read fil buf n) s = vfs_read_entry k fil buf n s"
| "fire k (Ext4_open inode filp) s = ext4_enter_open k inode filp s"
| "fire k (Ext4_write iocb it) s = ext4_enter_write k iocb it s"
| "fire k (Ext4_read iocb it) s = ext4_enter_read k iocb it s"
| "fire k (Fuse_open inode fil) s = fuse_enter_open k inode fil s"
| "fire k (Fuse_read iocb it) s = fuse_enter_file_read_iter k iocb it s"
| "fire k (Fuse_write iocb it) s = fuse_enter_file_write_iter k iocb it s"
| "fire k (Block_issue ctx) s = trace_block_rq_insertstruct k ctx s"
| "fire k (Fork p c) s = trace_sched_process_fork p c s"

text \<open>A report: number of the call, layer, pointer to the file name, size, hash.\<close>

record report =
  r_nr :: "64 word"
  r_layer :: int
  r_name :: "64 word"
  r_size :: "64 word"
  r_hash :: "32 word"

definition regular :: "data_t kernel \<Rightarrow> 64 word \<Rightarrow> bool" where
  "regular k inode \<longleftrightarrow> and (inode_mode k inode) S_IFMT = S_IFREG"

definition file_inode :: "data_t kernel \<Rightarrow> 64 word \<Rightarrow> 64 word" where
  "file_inode k fil = dentry_inode k (file_dentry k fil)"

definition buffer_hash :: "data_t kernel \<Rightarrow> 64 word \<Rightarrow> 64 word \<Rightarrow> 32 word" where
  "buffer_hash k buf n = xxhash32 (probe_read k) buf n 12345"

definition report_if :: "bool \<Rightarrow> 64 word \<Rightarrow> int \<Rightarrow> 64 word \<Rightarrow> 64 word \<Rightarrow> 32 word \<Rightarrow> report option" where
  "report_if b nr l name n h = (if b then Some \<lparr>r_nr = nr, r_layer = l, r_name = name, r_size = n, r_hash = h\<rparr> else None)"

abbreviation fd_report :: "data_t kernel \<Rightarrow> 32 word \<Rightarrow> 64 word \<Rightarrow> int \<Rightarrow> 64 word \<Rightarrow> 32 word \<Rightarrow> report option" where
  "fd_report k fd nr l n h \<equiv> (let f = get_file_from_fd k fd in
     report_if (regular k (file_inode k f)) nr l (dentry_name k (file_dentry k f)) n h)"

abbreviation file_report :: "data_t kernel \<Rightarrow> 64 word \<Rightarrow> 64 word \<Rightarrow> int \<Rightarrow> 64 word \<Rightarrow> 32 word \<Rightarrow> report option" where
  "file_report k f nr l n h \<equiv> report_if (regular k (file_inode k f)) nr l (dentry_name k (file_dentry k f)) n h"

abbreviation write_report :: "data_t kernel \<Rightarrow> 64 word \<Rightarrow> 64 word \<Rightarrow> int \<Rightarrow> report option" where
  "write_report k iocb it l \<equiv>
     (let f = iocb_filp k iocb; off = iter_offset k it; n = iter_len k it - off
      in report_if (regular k (file_inode k f) \<and> iter_type k it = ITER_UBUF) MYOP_WRITE l
           (dentry_name k (file_dentry k f)) n (buffer_hash k (iter_base k it + off) n))"

fun watched :: "data_t kernel \<Rightarrow> probe_call \<Rightarrow> report option" where
  "watched k (Sys_openat nr name) = report_if True nr L_SYSCALL name 0 0"
| "watched k (Sys_write nr fd buf n) = fd_report k fd nr L_SYSCALL n (buffer_hash k buf n)"
| "watched k (Sys_pwrite64 nr fd buf n) = fd_report k fd nr L_SYSCALL n (buffer_hash k buf n)"
| "watched k (Sys_read nr fd buf n) = fd_report k fd nr L_SYSCALL n 0"
| "watched k (Sys_pread64 nr fd buf n) = fd_report k fd nr L_SYSCALL n 0"
| "watched k (Sys_close nr fd) = fd_report k fd nr L_SYSCALL 0 0"
| "watched k (Vfs_open path fil) =
     report_if (regular k (dentry_inode k (path_dentry k path))) MYOP_OPEN L_VFS (dentry_name k (path_dentry k path)) 0 0"
| "watched k (Vfs_write fil buf n) = file_report k fil MYOP_WRITE L_VFS n (buffer_hash k buf n)"
| "watched k (Vfs_read fil buf n) = file_report k fil MYOP_READ L_VFS n 0"
| "watched k (Ext4_open inode filp) = file_report k filp MYOP_OPEN L_EXT4 0 0"
| "watched k (Ext4_write iocb it) = write_report k iocb it L_EXT4"
| "watched k (Ext4_read iocb it) = file_report k (iocb_filp k iocb) MYOP_READ L_EXT4 (iter_count k it) 0"
| "watched k (Fuse_open inode fil) =
     report_if (regular k inode) MYOP_OPEN L_FUSE (dentry_name k (file_dentry k fil)) 0 0"
| "watched k (Fuse_read iocb it) = file_report k (iocb_filp k iocb) MYOP_READ L_FUSE (iter_count k it) 0"
| "watched k (Fuse_write iocb it) = write_report k iocb it L_FUSE"
| "watched k (Block_issue ctx) =
     (let c = rq_rwbs ctx ! 0 in
      report_if (c = 82 \<or> c = 87) (if c = 82 then MYOP_READ else MYOP_WRITE) L_BIO 0 (ucast (rq_nr_bytes ctx)) 0)"
| "watched k (Fork p c) = None"

definition traced :: "systracer \<Rightarrow> 32 word set" where
  "traced s = dom (map_of (my_config s))"

definition observed :: "data_t kernel \<Rightarrow> systracer \<Rightarrow> probe_call \<Rightarrow> report option" where
  "observed k s c = (if current_pid k \<in> traced s then watched k c else None)"

definition to_record :: "data_t kernel \<Rightarrow> data_t \<Rightarrow> report \<Rightarrow> data_t" where
  "to_record k old r = old\<lparr>d_pid := current_pid k, d_syscall_id := r_nr r, d_type := r_layer r, d_size := r_size r,
     d_hash := r_hash r, d_command := comm k, d_filename := probe_read k (r_name r) filename_size\<rparr>"

text \<open>A report goes to the ring buffer, or is counted when there is no room.\<close>

definition emit :: "data_t kernel \<Rightarrow> report \<Rightarrow> systracer \<Rightarrow> systracer" where
  "emit k r s = (case reserve k of
      None \<Rightarrow> s\<lparr>lost_events := (hd (lost_events s) + 1) # tl (lost_events s)\<rparr>
    | Some old \<Rightarrow> s\<lparr>events := events s @ [to_record k old r]\<rparr>)"

section \<open>Every probe does what it should\<close>

named_theorems probe_defs

lemmas [probe_defs] = sys_enter_openat_def sys_enter_write_def sys_enter_pwrite64_def sys_enter_read_def
  sys_enter_pread64_def sys_enter_close_def vfs_enter_open_def vfs_enter_write_def vfs_read_entry_def
  ext4_enter_open_def ext4_enter_write_def ext4_enter_read_def fuse_enter_open_def
  fuse_enter_file_read_iter_def fuse_enter_file_write_iter_def trace_block_rq_insertstruct_def

lemma discard_traced: "to_discard s p \<noteq> 0 \<longleftrightarrow> p \<notin> traced s"
  by (auto simp: to_discard_def traced_def split: option.splits)

lemma mode_regular:
  "check_file_mode_from_file k f \<noteq> 0 \<longleftrightarrow> \<not> regular k (file_inode k f)"
  "check_file_mode_from_path k p \<noteq> 0 \<longleftrightarrow> \<not> regular k (dentry_inode k (path_dentry k p))"
  "check_file_mode_from_inode k i \<noteq> 0 \<longleftrightarrow> \<not> regular k i"
  by (simp_all add: check_file_mode_from_file_def check_file_mode_from_path_def check_file_mode_from_inode_def
      check_file_mode_def regular_def file_inode_def Let_def)

lemma submit_rw:
  "lost_events s \<noteq> [] \<Longrightarrow> create_and_submit_rw_event k nr l name n h s =
     (0, emit k \<lparr>r_nr = nr, r_layer = l, r_name = name, r_size = n, r_hash = h\<rparr> s)"
  by (cases "reserve k"; cases "lost_events s")
    (simp_all add: create_and_submit_rw_event_def lose_event_def emit_def to_record_def current_pid_def Let_def)

lemma submit_other:
  "lost_events s \<noteq> [] \<Longrightarrow> create_and_submit_other_event k nr l name s =
     (0, emit k \<lparr>r_nr = nr, r_layer = l, r_name = name, r_size = 0, r_hash = 0\<rparr> s)"
  by (cases "reserve k"; cases "lost_events s")
    (simp_all add: create_and_submit_other_event_def lose_event_def emit_def to_record_def current_pid_def Let_def)

definition is_fork :: "probe_call \<Rightarrow> bool" where
  "is_fork c \<longleftrightarrow> (\<exists>p q. c = Fork p q)"

lemma fire_spec:
  assumes "lost_events s \<noteq> []" and "\<not> is_fork c"
  shows "fire k c s = (0, case observed k s c of None \<Rightarrow> s | Some r \<Rightarrow> emit k r s)"
proof (cases "current_pid k \<in> traced s")
  case False
  then show ?thesis using assms(2)
    by (cases c) (simp_all add: probe_defs discard_traced observed_def is_fork_def Let_def)
next
  case True
  have d: "to_discard s (current_pid k) = 0" using True discard_traced by blast
  show ?thesis using assms
    by (cases c) (simp_all add: probe_defs d True observed_def is_fork_def Let_def mode_regular report_if_def
        submit_rw submit_other buffer_hash_def)
qed

lemma fire_fork:
  "fire k (Fork p q) s = (0, if p \<in> traced s
     then s\<lparr>my_config := snd (hash_update my_config_max q 1 BPF_ANY (my_config s))\<rparr> else s)"
  using discard_traced [of s p] by (simp add: trace_sched_process_fork_def)


section \<open>Runs of the tracer\<close>

type_synonym trace = "(data_t kernel \<times> probe_call) list"

definition run :: "trace \<Rightarrow> systracer \<Rightarrow> systracer" where
  "run cs s = fold (\<lambda>(k, c) s. snd (fire k c s)) cs s"

text \<open>The reports of a run, each with the kernel in which it was made.\<close>

fun reports :: "trace \<Rightarrow> systracer \<Rightarrow> (data_t kernel \<times> report) list" where
  "reports [] s = []"
| "reports ((k, c) # cs) s =
     (case observed k s c of None \<Rightarrow> [] | Some r \<Rightarrow> [(k, r)]) @ reports cs (snd (fire k c s))"

definition well_formed :: "systracer \<Rightarrow> bool" where
  "well_formed s \<longleftrightarrow> length (lost_events s) = 1 \<and> hash_ok my_config_max (my_config s)"

lemma well_formedD: "well_formed s \<Longrightarrow> lost_events s \<noteq> []"
  by (auto simp: well_formed_def)

lemma fire_cases [consumes 1, case_names fork quiet report]:
  assumes "lost_events s \<noteq> []"
  obtains (fork) p q where "c = Fork p q" "observed k s c = None"
      "snd (fire k c s) = (if p \<in> traced s
        then s\<lparr>my_config := snd (hash_update my_config_max q 1 BPF_ANY (my_config s))\<rparr> else s)"
    | (quiet) "\<not> is_fork c" "observed k s c = None" "snd (fire k c s) = s"
    | (report) r where "\<not> is_fork c" "observed k s c = Some r" "snd (fire k c s) = emit k r s"
proof (cases "is_fork c")
  case True
  then obtain p q where "c = Fork p q" by (auto simp: is_fork_def)
  then show ?thesis using that(1) fire_fork [of k p q s] by (simp add: observed_def)
next
  case False
  then show ?thesis using that(2,3) fire_spec [OF assms False, of k] by (cases "observed k s c") simp_all
qed

lemma emit_config [simp]: "my_config (emit k r s) = my_config s"
  by (simp add: emit_def split: option.splits)

lemma well_formed_fire: "well_formed s \<Longrightarrow> well_formed (snd (fire k c s))"
proof -
  assume w: "well_formed s"
  from well_formedD [OF w] show ?thesis
  proof (cases rule: fire_cases [where k = k and c = c])
    case (fork p q)
    then show ?thesis using w hash_map.ok_put [of my_config_max "my_config s" q 1 BPF_ANY] by (simp add: well_formed_def)
  next
    case (report r)
    then show ?thesis using w by (cases "lost_events s") (auto simp: well_formed_def emit_def split: option.splits)
  qed (use w in simp)
qed

lemma run_Cons [simp]: "run ((k, c) # cs) s = run cs (snd (fire k c s))"
  by (simp add: run_def)

lemma run_Nil [simp]: "run [] s = s"
  by (simp add: run_def)

lemma well_formed_run: "well_formed s \<Longrightarrow> well_formed (run cs s)"
  by (induction cs arbitrary: s) (auto simp: well_formed_fire)

definition record_of :: "data_t kernel \<times> report \<Rightarrow> data_t" where
  "record_of e = to_record (fst e) (the (reserve (fst e))) (snd e)"

abbreviation kept :: "data_t kernel \<times> report \<Rightarrow> bool" where
  "kept e \<equiv> reserve (fst e) \<noteq> None"

lemma run_accounts:
  assumes "well_formed s"
  shows "events (run cs s) = events s @ map record_of (filter kept (reports cs s)) \<and>
    lost_events (run cs s) = [hd (lost_events s) + of_nat (length (filter (\<lambda>e. \<not> kept e) (reports cs s)))]"
  using assms
proof (induction cs arbitrary: s)
  case Nil
  then show ?case by (cases "lost_events s") (simp_all add: well_formed_def)
next
  case (Cons kc cs)
  obtain k c where kc: "kc = (k, c)" by (cases kc)
  note ih = Cons.IH [OF well_formed_fire [OF Cons.prems, of k c]]
  from well_formedD [OF Cons.prems] show ?case
  proof (cases rule: fire_cases [where k = k and c = c])
    case (fork p q)
    then show ?thesis using ih by (simp add: kc)
  next
    case quiet
    then show ?thesis using ih by (simp add: kc)
  next
    case (report r)
    show ?thesis
    proof (cases "reserve k")
      case None
      have "hd (lost_events (emit k r s)) = hd (lost_events s) + 1" "events (emit k r s) = events s"
        using None by (simp_all add: emit_def)
      then show ?thesis using ih report None by (simp add: kc add.commute add.left_commute)
    next
      case (Some old)
      have "lost_events (emit k r s) = lost_events s" "events (emit k r s) = events s @ [record_of (k, r)]"
        using Some by (simp_all add: emit_def record_of_def)
      then show ?thesis using ih report Some by (simp add: kc)
    qed
  qed
qed

subsection \<open>Which processes are traced\<close>

text \<open>The given processes and what they fork, in the order of the forks.\<close>

definition family :: "(32 word \<times> 32 word) list \<Rightarrow> 32 word set \<Rightarrow> 32 word set" where
  "family fs F = fold (\<lambda>(p, q) F. if p \<in> F then insert q F else F) fs F"

fun forks :: "trace \<Rightarrow> (32 word \<times> 32 word) list" where
  "forks [] = []"
| "forks ((k, Fork p q) # cs) = (p, q) # forks cs"
| "forks (_ # cs) = forks cs"

lemma family_Cons: "family ((p, q) # fs) F = family fs (if p \<in> F then insert q F else F)"
  by (simp add: family_def)

lemma family_grows: "F \<subseteq> family fs F"
proof (induction fs arbitrary: F)
  case (Cons pq fs)
  obtain p q where pq: "pq = (p, q)" by (cases pq)
  have "F \<subseteq> (if p \<in> F then insert q F else F)" by auto
  also have "\<dots> \<subseteq> family fs (if p \<in> F then insert q F else F)" by (rule Cons.IH)
  finally show ?case unfolding pq family_Cons .
qed (simp add: family_def)

lemma forks_other: "\<not> is_fork c \<Longrightarrow> forks ((k, c) # cs) = forks cs"
  by (cases c) (simp_all add: is_fork_def)

lemma traced_fork:
  assumes w: "well_formed s" and p: "p \<in> traced s" and A: "finite A" "insert q (traced s) \<subseteq> A" "card A \<le> my_config_max"
  shows "traced (s\<lparr>my_config := snd (hash_update my_config_max q 1 BPF_ANY (my_config s))\<rparr>) = insert q (traced s)"
proof -
  have "q \<in> dom (map_of (my_config s)) \<or> length (my_config s) < my_config_max"
    by (rule hash_map.put_room [OF _ A(1) _ A(3)]) (use w A(2) in \<open>simp_all add: well_formed_def traced_def\<close>)
  then show ?thesis using hash_map.put_any_dom [of my_config_max q 1 "my_config s"] by (simp add: traced_def)
qed

lemma run_traced:
  assumes "well_formed s" and "finite (family (forks cs) (traced s))" and "card (family (forks cs) (traced s)) \<le> my_config_max"
  shows "traced (run cs s) = family (forks cs) (traced s)"
  using assms
proof (induction cs arbitrary: s)
  case Nil
  then show ?case by (simp add: family_def)
next
  case (Cons kc cs)
  obtain k c where kc: "kc = (k, c)" by (cases kc)
  let ?s = "snd (fire k c s)"
  have w: "well_formed ?s" by (rule well_formed_fire [OF Cons.prems(1)])
  have "family (forks (kc # cs)) (traced s) = family (forks cs) (traced ?s)"
    using well_formedD [OF Cons.prems(1)]
  proof (cases rule: fire_cases [where k = k and c = c])
    case (fork p q)
    have f: "family (forks (kc # cs)) (traced s) = family (forks cs) (if p \<in> traced s then insert q (traced s) else traced s)"
      by (simp add: kc fork(1) family_Cons)
    show ?thesis
    proof (cases "p \<in> traced s")
      case True
      then have "insert q (traced s) \<subseteq> family (forks (kc # cs)) (traced s)" using f family_grows by simp
      then have "traced ?s = insert q (traced s)"
        using traced_fork [OF Cons.prems(1) True Cons.prems(2) _ Cons.prems(3)] fork(3) True by simp
      then show ?thesis using f True by simp
    qed (use f fork in simp)
  next
    case quiet
    then show ?thesis by (simp add: kc forks_other)
  next
    case (report r)
    then show ?thesis by (simp add: kc forks_other traced_def)
  qed
  then show ?case using Cons.IH [OF w] Cons.prems by (simp add: kc)
qed

text \<open>Nobody else is traced, whatever happens.\<close>

lemma family_mono: "F \<subseteq> G \<Longrightarrow> family fs F \<subseteq> family fs G"
proof (induction fs arbitrary: F G)
  case Nil
  then show ?case by (simp add: family_def)
next
  case (Cons pq fs)
  obtain p q where pq: "pq = (p, q)" by (cases pq)
  have "(if p \<in> F then insert q F else F) \<subseteq> (if p \<in> G then insert q G else G)" using Cons.prems by auto
  then show ?case unfolding pq family_Cons by (rule Cons.IH)
qed

lemma run_traced_only:
  assumes "well_formed s"
  shows "traced (run cs s) \<subseteq> family (forks cs) (traced s) \<and> card (traced (run cs s)) \<le> my_config_max"
proof
  show "traced (run cs s) \<subseteq> family (forks cs) (traced s)"
    using assms
  proof (induction cs arbitrary: s)
    case Nil
    then show ?case by (simp add: family_def)
  next
    case (Cons kc cs)
    obtain k c where kc: "kc = (k, c)" by (cases kc)
    let ?s = "snd (fire k c s)"
    have "family (forks cs) (traced ?s) \<subseteq> family (forks (kc # cs)) (traced s)"
      using well_formedD [OF Cons.prems]
    proof (cases rule: fire_cases [where k = k and c = c])
      case (fork p q)
      have "traced ?s \<subseteq> (if p \<in> traced s then insert q (traced s) else traced s)"
        using hash_map.put_any_dom [of my_config_max q 1 "my_config s"] fork(3) by (auto simp: traced_def)
      then show ?thesis by (simp add: kc fork(1) family_Cons family_mono)
    next
      case quiet
      then show ?thesis by (simp add: kc forks_other)
    next
      case (report r)
      then show ?thesis by (simp add: kc forks_other traced_def)
    qed
    then show ?case using Cons.IH [OF well_formed_fire [OF Cons.prems, of k c]] by (simp add: kc)
  qed
  have "hash_ok my_config_max (my_config (run cs s))" using well_formed_run [OF assms] by (simp add: well_formed_def)
  then show "card (traced (run cs s)) \<le> my_config_max"
    using hash_map.count_card hash_map.count_bound unfolding traced_def by metis
qed

section \<open>Properties\<close>

text \<open>A process 7 with one open regular file, at descriptor 3, whose buffer at 4096 holds the letters a to z.\<close>

definition demo_kernel :: "32 word \<Rightarrow> data_t option \<Rightarrow> data_t kernel" where
  "demo_kernel p old = \<lparr>pid_tgid = push_bit 32 (ucast p), comm = [102, 105, 111, 0], fd_table = 0x1000,
     read_ptr = (\<lambda>a. if a = 0x1018 then 0x2000 else 0),
     file_dentry = (\<lambda>f. if f = 0x2000 then 0x3000 else 0), path_dentry = (\<lambda>_. 0),
     dentry_inode = (\<lambda>d. if d = 0x3000 then 0x4000 else 0), dentry_name = (\<lambda>d. if d = 0x3000 then 0x5000 else 0),
     inode_mode = (\<lambda>i. if i = 0x4000 then 0x81A4 else 0), iocb_filp = (\<lambda>_. 0), iter_type = (\<lambda>_. 0), iter_base = (\<lambda>_. 0),
     iter_len = (\<lambda>_. 0), iter_offset = (\<lambda>_. 0), iter_count = (\<lambda>_. 0), probe_read = demo_probe, reserve = old\<rparr>"

definition demo_record :: data_t where
  "demo_record = \<lparr>d_entry = 0, d_pid = 0, d_command = [], d_syscall_id = 0, d_type = 0, d_filename = [], d_hash = 0,
     d_ino = 0, d_size = 0\<rparr>"

definition demo_tracer :: systracer where
  "demo_tracer = \<lparr>events = [], lost_events = [0], my_config = [(7, 1)]\<rparr>"

lemma demo_tracer_ok: "well_formed demo_tracer"
  by (simp add: well_formed_def demo_tracer_def hash_ok_def my_config_max_def)

text \<open>A traced write with room in the ring buffer, a fork, a write of the child that finds no room.\<close>

definition demo_trace :: trace where
  "demo_trace = [(demo_kernel 7 (Some demo_record), Sys_write 1 3 4096 26), (demo_kernel 7 None, Fork 7 8),
     (demo_kernel 8 None, Sys_write 1 3 4096 26), (demo_kernel 9 (Some demo_record), Sys_write 1 3 4096 26)]"

text \<open>C30. Every one of the probes does exactly what is specified for it: it ignores a process that is
  not traced and a file that is not regular; otherwise it makes its report, as a record of the ring buffer or,
  when there is no room, as one more lost event, and returns 0.\<close>

theorem systracer_probe_correct:
  assumes "length (lost_events s) = 1" and "\<not> is_fork c"
  shows "fire k c s = (0, case observed k s c of None \<Rightarrow> s | Some r \<Rightarrow> emit k r s)"
  using assms(2) by (rule fire_spec [rotated]) (use assms(1) in auto)

theorem systracer_probe_correct_witness:
  "fire (demo_kernel 7 None) (Sys_write 1 3 4096 26) demo_tracer =
     (0, case observed (demo_kernel 7 None) demo_tracer (Sys_write 1 3 4096 26) of
           None \<Rightarrow> demo_tracer | Some r \<Rightarrow> emit (demo_kernel 7 None) r demo_tracer)"
  by (rule systracer_probe_correct) (simp_all add: demo_tracer_def is_fork_def)

text \<open>C31. Nothing is lost silently: in every run the records in the ring buffer are those of the
  reports that found room, in order, and the counter has grown by the number of the others.\<close>

theorem systracer_accounts_for_all:
  assumes "well_formed s"
  shows "events (run cs s) = events s @ map record_of (filter kept (reports cs s)) \<and>
    lost_events (run cs s) = [hd (lost_events s) + of_nat (length (filter (\<lambda>e. \<not> kept e) (reports cs s)))]"
  using assms by (rule run_accounts)

lemma demo_reports: "map (\<lambda>(k, r). (current_pid k, r_nr r, r_size r)) (reports demo_trace demo_tracer) = [(7, 1, 26), (8, 1, 26)]"
proof -
  have p: "current_pid (demo_kernel p r) = p" for p r
    by (simp add: current_pid_def demo_kernel_def, rule bit_word_eqI) (simp add: bit_simps)
  have f: "get_file_from_fd (demo_kernel p r) 3 = 0x2000" "regular (demo_kernel p r) (file_inode (demo_kernel p r) 0x2000)" for p r
    by (simp_all add: get_file_from_fd_def demo_kernel_def file_inode_def regular_def S_IFMT_def S_IFREG_def)
  have o: "observed (demo_kernel p r) s (Sys_write 1 3 4096 26) =
      (if p \<in> traced s then Some \<lparr>r_nr = 1, r_layer = L_SYSCALL, r_name = dentry_name (demo_kernel p r) 0x3000, r_size = 26,
         r_hash = buffer_hash (demo_kernel p r) 4096 26\<rparr> else None)" for p r s
  proof -
    have "file_dentry (demo_kernel p r) 0x2000 = 0x3000" by (simp add: demo_kernel_def)
    then show ?thesis by (simp add: observed_def p f report_if_def)
  qed
  have t: "traced demo_tracer = {7}" by (simp add: traced_def demo_tracer_def)
  have e: "snd (fire k c s) = (case observed k s c of None \<Rightarrow> s | Some r \<Rightarrow> emit k r s)"
    if "lost_events s \<noteq> []" "\<not> is_fork c" for k c s using fire_spec [OF that] by simp
  have l: "lost_events demo_tracer \<noteq> []" by (simp add: demo_tracer_def)
  have em: "traced (emit k r s) = traced s" for k r s by (simp add: traced_def)
  let ?k = "demo_kernel 7 (Some demo_record)"
  let ?s = "snd (fire ?k (Sys_write 1 3 4096 26) demo_tracer)"
  have s: "traced ?s = {7}" "my_config ?s = [(7, 1)]"
    using e [OF l, of "Sys_write 1 3 4096 26" ?k] by (simp_all add: is_fork_def o t em demo_tracer_def) (simp add: traced_def)
  let ?s2 = "snd (fire (demo_kernel 7 None) (Fork 7 8) ?s)"
  have s2: "traced ?s2 = {7, 8}"
    using s by (simp only: fire_fork) (simp add: traced_def hash_update_def my_config_max_def insert_commute)
  have l2: "lost_events ?s2 \<noteq> []"
    by (intro well_formedD well_formed_fire demo_tracer_ok)
  let ?s3 = "snd (fire (demo_kernel 8 None) (Sys_write 1 3 4096 26) ?s2)"
  have s3: "traced ?s3 = {7, 8}" using e [OF l2, of "Sys_write 1 3 4096 26" "demo_kernel 8 None"] s2
    by (simp add: is_fork_def o em)
  have fk: "observed k s (Fork a b) = None" for k s a b by (simp add: observed_def)
  show ?thesis unfolding demo_trace_def reports.simps o t s2 s3 fk by (simp add: p)
qed

theorem systracer_accounts_for_all_witness:
  "length (events (run demo_trace demo_tracer)) = length (filter kept (reports demo_trace demo_tracer))"
  using systracer_accounts_for_all [OF demo_tracer_ok, of demo_trace] by (simp add: demo_tracer_def)


text \<open>Tracing follows forks and nothing else: a process that is neither given nor a descendant of one is never
  traced, and never more than 100 are; as long as the given processes and their descendants are at most 100, the traced
  processes of a run are exactly these, whatever else happens in between.\<close>

theorem systracer_traces_family:
  assumes "well_formed s"
  shows "traced (run cs s) \<subseteq> family (forks cs) (traced s) \<and> card (traced (run cs s)) \<le> my_config_max \<and>
    (card (family (forks cs) (traced s)) \<le> my_config_max \<longrightarrow> traced (run cs s) = family (forks cs) (traced s))"
  using run_traced_only [OF assms, of cs] run_traced [OF assms, of cs] by simp

theorem systracer_traces_family_witness:
  "traced (run demo_trace demo_tracer) = {7, 8}"
proof -
  have "family (forks demo_trace) (traced demo_tracer) = {7, 8}"
    by (auto simp: demo_trace_def family_def traced_def demo_tracer_def)
  then show ?thesis using systracer_traces_family [OF demo_tracer_ok, of demo_trace] by (simp add: my_config_max_def)
qed



end
