(* ===== verification/C_Text.thy ===== *)
theory C_Text
  imports Prelude
begin

text \<open>
  The parts of the C library with which the two monitors print: decimal numbers (\<^verbatim>\<open>%d\<close>, \<^verbatim>\<open>%u\<close>, \<^verbatim>\<open>%llu\<close>),
  left-justified columns (\<^verbatim>\<open>%-16s\<close>), C strings in fixed arrays and \<^verbatim>\<open>atoi\<close>. The lemmas give what the
  programs rely on: how long a number can be, and that different numbers print differently.
\<close>

section \<open>Numbers\<close>

definition digit :: "nat \<Rightarrow> char" where
  "digit n = char_of (48 + n)"

fun dec :: "nat \<Rightarrow> string" where
  "dec n = (if n < 10 then [digit n] else dec (n div 10) @ [digit (n mod 10)])"

declare dec.simps [simp del]

definition dec_int :: "int \<Rightarrow> string" where
  "dec_int x = (if x < 0 then CHR ''-'' # dec (nat (- x)) else dec (nat x))"

lemma digit_inj: "m < 10 \<Longrightarrow> n < 10 \<Longrightarrow> digit m = digit n \<longleftrightarrow> m = n"
  by (simp add: digit_def)

lemma digit_not_minus: "n < 10 \<Longrightarrow> digit n \<noteq> CHR ''-''"
proof
  assume "n < 10" "digit n = CHR ''-''"
  then have "of_char (digit n) = (45 :: nat)" by simp
  with \<open>n < 10\<close> show False by (simp add: digit_def)
qed

lemma dec_not_Nil [simp]: "dec n \<noteq> []"
  by (subst dec.simps) simp

lemma dec_no_minus: "CHR ''-'' \<notin> set (dec n)"
proof (induction n rule: dec.induct)
  case (1 n)
  then show ?case using digit_not_minus [of n] digit_not_minus [of "n mod 10"]
    by (subst dec.simps) auto
qed

lemma dec_inj: "dec m = dec n \<longleftrightarrow> m = n"
proof
  show "dec m = dec n \<Longrightarrow> m = n"
  proof (induction m arbitrary: n rule: dec.induct)
    case (1 m)
    show ?case
    proof (cases "m < 10 \<or> n < 10")
      case True
      then show ?thesis using 1(2) by (simp add: dec.simps [of m] dec.simps [of n] digit_inj append_eq_Cons_conv Cons_eq_append_conv split: if_splits)
    next
      case False
      then have "dec (m div 10) = dec (n div 10)" "m mod 10 = n mod 10"
        using 1(2) by (simp_all add: dec.simps [of m] dec.simps [of n] digit_inj)
      then have "m div 10 = n div 10" "m mod 10 = n mod 10" using 1(1) [of "n div 10"] False by simp_all
      then show ?thesis by (metis mult_div_mod_eq)
    qed
  qed
qed simp

lemma dec_length: "n < 10 ^ k \<Longrightarrow> 0 < k \<Longrightarrow> length (dec n) \<le> k"
proof (induction n arbitrary: k rule: dec.induct)
  case (1 n)
  show ?case
  proof (cases "n < 10")
    case True
    then show ?thesis using 1 by (simp add: dec.simps [of n])
  next
    case False
    then obtain k' where k: "k = Suc k'" "0 < k'"
      using 1(2,3) by (cases k; cases "k - 1") auto
    then have "n div 10 < 10 ^ k'" using 1(2) by (simp add: less_mult_imp_div_less mult.commute)
    then show ?thesis using 1(1) [OF False, of k'] k False by (simp add: dec.simps [of n])
  qed
qed

lemma dec_int_nonneg: "0 \<le> x \<Longrightarrow> dec_int x = dec (nat x)"
  by (simp add: dec_int_def)

lemma dec_int_inj: "dec_int x = dec_int y \<longleftrightarrow> x = y"
proof
  assume e: "dec_int x = dec_int y"
  have h: "hd (dec n) \<noteq> CHR ''-''" for n using dec_no_minus [of n] dec_not_Nil [of n] by (metis hd_in_set)
  have "x < 0 \<longleftrightarrow> y < 0"
    using e h [of "nat x"] h [of "nat y"] by (auto simp: dec_int_def split: if_splits) (metis list.sel(1))+
  then show "x = y" using e by (auto simp: dec_int_def dec_inj split: if_splits)
qed simp

text \<open>A 32-bit number, with its sign, and a 64-bit number.\<close>

lemma dec_int_length: "\<bar>x\<bar> < 10 ^ 10 \<Longrightarrow> length (dec_int x) \<le> 11"
proof -
  assume "\<bar>x\<bar> < 10 ^ 10"
  then have "nat \<bar>x\<bar> < 10 ^ 10" by simp
  then have "length (dec (nat \<bar>x\<bar>)) \<le> 10" by (rule dec_length) simp
  then show ?thesis by (cases "x < 0") (simp_all add: dec_int_def)
qed

lemma dec_unat_length: "length (dec (unat (w :: 64 word))) \<le> 20"
proof (rule dec_length)
  have "unat w < 2 ^ LENGTH(64)" by (rule unsigned_less)
  then show "unat w < 10 ^ 20" by simp
qed simp

section \<open>Columns and strings\<close>

definition column :: "nat \<Rightarrow> string \<Rightarrow> string" where
  "column n s = s @ replicate (n - length s) CHR '' ''"

lemma column_length [simp]: "length (column n s) = max n (length s)"
  by (simp add: column_def max_def)

lemma take_column: "length s \<le> n \<Longrightarrow> takeWhile (\<lambda>c. c \<noteq> CHR '' '') s = s \<Longrightarrow> takeWhile (\<lambda>c. c \<noteq> CHR '' '') (column n s) = s"
  by (cases "n - length s") (simp_all add: column_def takeWhile_append takeWhile_eq_all_conv)

text \<open>The C string in an array of bytes; none when no byte of it is zero, since the program would read on
  behind the array.\<close>

definition c_string :: "8 word list \<Rightarrow> string option" where
  "c_string bs = (if 0 \<in> set bs then Some (map (\<lambda>b. char_of (unat b)) (takeWhile (\<lambda>b. b \<noteq> 0) bs)) else None)"

lemma c_string_length: "c_string bs = Some s \<Longrightarrow> length s < length bs"
proof -
  assume "c_string bs = Some s"
  then have m: "0 \<in> set bs" and s: "s = map (\<lambda>b. char_of (unat b)) (takeWhile (\<lambda>b. b \<noteq> 0) bs)"
    by (auto simp: c_string_def split: if_splits)
  have "takeWhile (\<lambda>b. b \<noteq> 0) bs \<noteq> bs" using m by (metis set_takeWhileD)
  then show "length s < length bs"
    unfolding s by (metis length_map length_takeWhile_le le_neq_implies_less takeWhile_eq_take take_all_iff order_refl)
qed

text \<open>\<^verbatim>\<open>atoi\<close>: blanks, a sign, digits.\<close>

definition is_digit :: "char \<Rightarrow> bool" where
  "is_digit c \<longleftrightarrow> 48 \<le> (of_char c :: nat) \<and> (of_char c :: nat) \<le> 57"

definition digits_value :: "string \<Rightarrow> int" where
  "digits_value s = foldl (\<lambda>v c. 10 * v + (of_char c - 48)) 0 (takeWhile is_digit s)"

definition atoi :: "string \<Rightarrow> int" where
  "atoi s =
     (let s1 = dropWhile (\<lambda>c. c = CHR '' '' \<or> (9 \<le> (of_char c :: nat) \<and> (of_char c :: nat) \<le> 13)) s
      in case s1 of [] \<Rightarrow> 0
         | c # s2 \<Rightarrow> if c = CHR ''-'' then - digits_value s2 else if c = CHR ''+'' then digits_value s2
                    else digits_value s1)"

lemma digits_value_append: "takeWhile is_digit s = s \<Longrightarrow> is_digit c \<Longrightarrow> digits_value (s @ [c]) = 10 * digits_value s + (of_char c - 48)"
proof -
  assume s: "takeWhile is_digit s = s" and c: "is_digit c"
  then have "takeWhile is_digit (s @ [c]) = s @ [c]" by (simp add: takeWhile_append takeWhile_eq_all_conv)
  then show ?thesis unfolding digits_value_def s by simp
qed

lemma digit_is_digit: "n < 10 \<Longrightarrow> is_digit (digit n) \<and> (of_char (digit n) :: int) = 48 + int n"
proof -
  assume n: "n < 10"
  then have "(of_char (digit n) :: nat) = 48 + n" by (simp add: digit_def)
  moreover have "(of_char (digit n) :: int) = int (of_char (digit n))" by (rule of_nat_of_char [symmetric])
  ultimately show ?thesis using n by (simp add: is_digit_def)
qed

lemma dec_digits: "takeWhile is_digit (dec n) = dec n \<and> digits_value (dec n) = int n"
proof (induction n rule: dec.induct)
  case (1 n)
  show ?case
  proof (cases "n < 10")
    case True
    then show ?thesis using digit_is_digit [of n] by (simp add: dec.simps [of n] digits_value_def)
  next
    case False
    then have ih: "takeWhile is_digit (dec (n div 10)) = dec (n div 10)" "digits_value (dec (n div 10)) = int (n div 10)"
      using 1 by simp_all
    have d: "is_digit (digit (n mod 10))" "(of_char (digit (n mod 10)) :: int) = 48 + int (n mod 10)"
      using digit_is_digit [of "n mod 10"] by simp_all
    have "dec n = dec (n div 10) @ [digit (n mod 10)]" using False by (simp add: dec.simps [of n])
    moreover have "takeWhile is_digit (dec (n div 10) @ [digit (n mod 10)]) = dec (n div 10) @ [digit (n mod 10)]"
      using ih(1) d(1) by (simp add: takeWhile_append takeWhile_eq_all_conv)
    moreover have "digits_value (dec (n div 10) @ [digit (n mod 10)]) = int n"
    proof -
      have "int n = 10 * int (n div 10) + int (n mod 10)"
        by (metis div_mult_mod_eq mult.commute of_nat_add of_nat_mult of_nat_numeral)
      then show ?thesis using digits_value_append [OF ih(1) d(1)] ih(2) d(2) by simp
    qed
    ultimately show ?thesis by simp
  qed
qed

text \<open>\<^verbatim>\<open>atoi\<close> reads back what \<^verbatim>\<open>%d\<close> prints.\<close>

lemma atoi_dec: "atoi (dec n) = int n"
proof -
  obtain c s where cs: "dec n = c # s" using dec_not_Nil [of n] by (cases "dec n") auto
  have "is_digit c" using dec_digits [of n] cs by (metis takeWhile_eq_all_conv list.set_intros(1))
  then have "dropWhile (\<lambda>c. c = CHR '' '' \<or> (9 \<le> (of_char c :: nat) \<and> (of_char c :: nat) \<le> 13)) (dec n) = dec n"
    "c \<noteq> CHR ''-''" "c \<noteq> CHR ''+''" by (auto simp: cs is_digit_def)
  then show ?thesis using dec_digits [of n] cs by (simp add: atoi_def)
qed

end
