(* ===== verification/Systracer_User.thy ===== *)
theory Systracer_User
  imports Systracer Syscalls_Table C_Text
begin

text \<open>
  \<^verbatim>\<open>systracer/systracer.c\<close>: the user side of the tracer. \<open>event_handler\<close> turns a record of the ring
  buffer into a line; it is undefined (None) where the C code would print uninitialised or unterminated
  memory. \<open>systracer_main\<close> is the program, with the kernel's answers as its environment: the probes run
  between two polls, and a poll hands every record to the handler. The main theorem follows a report
  from the probe to its line and accounts for the ones that were lost.
\<close>

section \<open>Lines\<close>

definition newline :: string where "newline = [CHR 0x0A]"

definition layer_text :: "int \<Rightarrow> string option" where
  "layer_text ty =
     (if ty = L_SYSCALL then Some ''syscall'' else if ty = L_VFS then Some ''VFS'' else if ty = L_EXT4 then Some ''EXT4''
      else if ty = L_FUSE then Some ''FUSE'' else if ty = L_BIO then Some ''BIO'' else None)"

definition event_line :: "data_t \<Rightarrow> string \<Rightarrow> string \<Rightarrow> string \<Rightarrow> string" where
  "event_line m ty command filename =
     (let syscall_name = resolve_syscall (sint (ucast (d_syscall_id m) :: 32 word));
          start = column 6 (dec_int (sint (d_pid m))) @ '' '' @ column 16 command @ '' '' @ column 16 syscall_name @ '' '' @
            column 16 ty @ '' '' @ column 64 filename
      in if syscall_name = ''write'' \<or> syscall_name = ''pwrite'' \<or> syscall_name = ''read'' \<or> syscall_name = ''pread''
         then if d_hash m \<noteq> 0
              then start @ '' '' @ column 10 (dec_int (sint (d_size m))) @ '' '' @ column 10 (dec (unat (d_hash m))) @ newline
              else start @ '' '' @ column 10 (dec_int (sint (d_size m))) @ newline
         else start @ newline)"

definition event_handler :: "data_t \<Rightarrow> string option" where
  "event_handler m =
     (case (layer_text (d_type m), c_string (d_command m), c_string (d_filename m)) of
        (Some ty, Some command, Some filename) \<Rightarrow> Some (event_line m ty command filename)
      | _ \<Rightarrow> None)"

section \<open>The program\<close>

text \<open>What the program meets: its arguments, the answers of libbpf, the calls probed before the counter
  of lost events is set, and before each poll until a signal arrives.\<close>

record tracer_env =
  args :: "string list"
  open_ok :: bool
  attach_err :: int
  before :: trace
  ring_ok :: bool
  polls :: "trace list"
  lookup_err :: int

text \<open>\<open>status\<close> is None when the value returned was never set.\<close>

record outcome =
  printed :: "string list"
  errors :: "string list"
  destroyed :: nat
  status :: "int option"

fun add_pids :: "string list \<Rightarrow> systracer \<Rightarrow> string list \<times> systracer" where
  "add_pids [] s = ([], s)"
| "add_pids (a # as) s =
     (let key = word_of_int (atoi a) :: 32 word;
          s = s\<lparr>my_config := snd (hash_update my_config_max key 1 BPF_ANY (my_config s))\<rparr>;
          (out, s) = add_pids as s
      in ((''Tracing Pid '' @ dec_int (sint key) @ newline) # out, s))"

fun poll_loop :: "trace list \<Rightarrow> systracer \<Rightarrow> (string list \<times> systracer) option" where
  "poll_loop [] s = Some ([], s)"
| "poll_loop (tr # trs) s =
     (let s = run tr s in
      case those (map event_handler (events s)) of None \<Rightarrow> None
      | Some out \<Rightarrow> (case poll_loop trs (s\<lparr>events := []\<rparr>) of None \<Rightarrow> None
          | Some (out', s) \<Rightarrow> Some (out @ out', s)))"

definition return_code :: "int \<Rightarrow> int" where
  "return_code err = (if err < 0 then - err else 0)"

definition table_head :: string where
  "table_head = column 6 ''pid'' @ '' '' @ column 16 ''command'' @ '' '' @ column 16 ''syscall'' @ '' '' @
     column 16 ''type'' @ '' '' @ column 64 ''filename'' @ '' '' @ column 10 ''size'' @ '' '' @ column 10 ''hash'' @ newline"

definition systracer_main :: "tracer_env \<Rightarrow> systracer \<Rightarrow> outcome option" where
  "systracer_main env s =
     (if \<not> open_ok env
      then Some \<lparr>printed = [''Failed to open BPF object'' @ newline], errors = [], destroyed = 1, status = None\<rparr>
      else let usage = if args env = [] then [''usage: ./systracer <pid>''] else [];
               (out, s) = add_pids (args env) s in
      if attach_err env \<noteq> 0
      then Some \<lparr>printed = usage @ out,
             errors = [''Failed to attach BPF skeleton: '' @ dec_int (attach_err env) @ newline],
             destroyed = 2, status = Some (return_code (attach_err env))\<rparr>
      else let s = (run (before env) s)\<lparr>lost_events := [0]\<rparr> in
      if \<not> ring_ok env
      then Some \<lparr>printed = usage @ out @ [''Failed to create events ring buffer'' @ newline], errors = [],
             destroyed = 1, status = Some (return_code (- 1))\<rparr>
      else case poll_loop (polls env) s of None \<Rightarrow> None
      | Some (ls, s) \<Rightarrow>
          let shown = usage @ out @ [table_head, replicate 148 CHR ''-'' @ newline] @ ls @ [replicate 146 CHR ''-'' @ newline] in
          if lookup_err env < 0
          then Some \<lparr>printed = shown, errors = [], destroyed = 1, status = Some (return_code (lookup_err env))\<rparr>
          else Some \<lparr>printed = shown @ [''Lost '' @ dec_int (sint (hd (lost_events s))) @ '' events'' @ newline], errors = [],
                 destroyed = 1, status = Some (return_code (lookup_err env))\<rparr>)"

section \<open>From probe to line\<close>

lemma those_Some: "(\<And>x. x \<in> set xs \<Longrightarrow> f x = Some (g x)) \<Longrightarrow> those (map f xs) = Some (map g xs)"
  by (induction xs) auto

lemma those_map_Some: "those (map f xs) = Some ys \<Longrightarrow> ys = map (the \<circ> f) xs \<and> (\<forall>x\<in>set xs. f x \<noteq> None)"
  by (induction xs arbitrary: ys) (auto split: option.splits)

text \<open>Every report names one of the five layers.\<close>

lemma watched_layer: "watched k c = Some r \<Longrightarrow> layer_text (r_layer r) \<noteq> None"
  by (cases c) (auto simp: report_if_def layer_text_def L_SYSCALL_def L_VFS_def L_EXT4_def L_FUSE_def L_BIO_def Let_def
      split: if_splits)

definition printable :: "data_t kernel \<times> report \<Rightarrow> bool" where
  "printable e \<longleftrightarrow> c_string (comm (fst e)) \<noteq> None \<and> c_string (probe_read (fst e) (r_name (snd e)) filename_size) \<noteq> None"

lemma reports_layer: "e \<in> set (reports cs s) \<Longrightarrow> layer_text (r_layer (snd e)) \<noteq> None"
proof (induction cs arbitrary: s)
  case (Cons kc cs)
  obtain k c where kc: "kc = (k, c)" by (cases kc)
  show ?case
  proof (cases "e \<in> set (reports cs (snd (fire k c s)))")
    case True
    then show ?thesis by (rule Cons.IH)
  next
    case False
    then obtain r where "observed k s c = Some r" "e = (k, r)"
      using Cons.prems by (cases "observed k s c") (auto simp: kc)
    then show ?thesis using watched_layer [of k c r] by (simp add: observed_def split: if_splits)
  qed
qed simp

lemma handler_defined:
  "printable e \<Longrightarrow> layer_text (r_layer (snd e)) \<noteq> None \<Longrightarrow> event_handler (record_of e) \<noteq> None"
  by (auto simp: printable_def record_of_def to_record_def event_handler_def split: option.splits)

text \<open>The reports of a run depend on the traced processes only.\<close>

lemma fire_config:
  assumes "lost_events s \<noteq> []" "lost_events s' \<noteq> []" "my_config s = my_config s'"
  shows "my_config (snd (fire k c s)) = my_config (snd (fire k c s')) \<and> lost_events (snd (fire k c s)) \<noteq> []"
proof -
  have t: "traced s = traced s'" "observed k s c = observed k s' c" using assms(3) by (simp_all add: traced_def observed_def)
  show ?thesis
  proof (cases "is_fork c")
    case True
    then obtain p q where "c = Fork p q" by (auto simp: is_fork_def)
    then show ?thesis using fire_fork [of k p q] assms t by simp
  next
    case False
    then show ?thesis using fire_spec [OF assms(1) False] fire_spec [OF assms(2) False] assms t
      by (auto simp: emit_def split: option.splits)
  qed
qed

lemma reports_config:
  assumes "lost_events s \<noteq> []" "lost_events s' \<noteq> []" "my_config s = my_config s'"
  shows "reports cs s = reports cs s'"
  using assms
proof (induction cs arbitrary: s s')
  case (Cons kc cs)
  obtain k c where kc: "kc = (k, c)" by (cases kc)
  have "observed k s c = observed k s' c" using Cons.prems(3) by (simp add: traced_def observed_def)
  moreover have "reports cs (snd (fire k c s)) = reports cs (snd (fire k c s'))"
    by (rule Cons.IH) (use fire_config [OF Cons.prems] fire_config [OF Cons.prems(2,1) Cons.prems(3) [symmetric]] in auto)
  ultimately show ?case by (simp add: kc)
qed simp

lemma reports_append: "reports (cs @ ds) s = reports cs s @ reports ds (run cs s)"
  by (induction cs arbitrary: s) auto

abbreviation line_of :: "data_t kernel \<times> report \<Rightarrow> string" where
  "line_of e \<equiv> the (event_handler (record_of e))"

definition all_printable :: "(data_t kernel \<times> report) list \<Rightarrow> bool" where
  "all_printable es \<longleftrightarrow> (\<forall>e\<in>set es. kept e \<longrightarrow> printable e)"

lemma lines_defined:
  assumes "all_printable es" and "\<forall>e\<in>set es. layer_text (r_layer (snd e)) \<noteq> None"
  shows "those (map event_handler (map record_of (filter kept es))) = Some (map line_of (filter kept es))"
proof -
  have "event_handler (record_of e) \<noteq> None" if "e \<in> set (filter kept es)" for e
    by (rule handler_defined) (use that assms in \<open>auto simp: all_printable_def\<close>)
  then show ?thesis unfolding map_map by (intro those_Some) auto
qed

text \<open>\<open>P\<close> are the reports whose records wait in the ring buffer when polling starts.\<close>

lemma poll_loop_lines:
  assumes "well_formed s" and "events s = map record_of (filter kept P)" and "trs \<noteq> [] \<or> P = []"
    and "\<forall>e\<in>set P. layer_text (r_layer (snd e)) \<noteq> None" and "all_printable (P @ reports (concat trs) s)"
  shows "\<exists>s'. poll_loop trs s = Some (map line_of (filter kept (P @ reports (concat trs) s)), s') \<and>
    lost_events s' = [hd (lost_events s) + of_nat (length (filter (\<lambda>e. \<not> kept e) (reports (concat trs) s)))]"
  using assms
proof (induction trs arbitrary: s P)
  case Nil
  then show ?case by (cases "lost_events s") (auto simp: well_formed_def)
next
  case (Cons tr trs)
  let ?s = "(run tr s)\<lparr>events := []\<rparr>"
  note acc = run_accounts [OF Cons.prems(1), of tr]
  have w: "well_formed ?s" using well_formed_run [OF Cons.prems(1), of tr] by (simp add: well_formed_def)
  have r: "reports (concat trs) (run tr s) = reports (concat trs) ?s"
    by (rule reports_config) (use well_formedD [OF well_formed_run [OF Cons.prems(1)]] in simp_all)
  have all: "reports (concat (tr # trs)) s = reports tr s @ reports (concat trs) ?s" by (simp add: reports_append r)
  obtain s' where s': "poll_loop trs ?s = Some (map line_of (filter kept ([] @ reports (concat trs) ?s)), s')"
    "lost_events s' = [hd (lost_events ?s) + of_nat (length (filter (\<lambda>e. \<not> kept e) (reports (concat trs) ?s)))]"
    using Cons.IH [OF w, of "[]"] Cons.prems(5) all by (auto simp: all_printable_def)
  have "those (map event_handler (map record_of (filter kept (P @ reports tr s)))) =
      Some (map line_of (filter kept (P @ reports tr s)))"
    by (rule lines_defined) (use Cons.prems(4,5) all reports_layer in \<open>auto simp: all_printable_def\<close>)
  moreover have "events (run tr s) = map record_of (filter kept (P @ reports tr s))"
    using acc Cons.prems(2) by simp
  ultimately have "those (map event_handler (events (run tr s))) = Some (map line_of (filter kept (P @ reports tr s)))"
    by (simp only:)
  then show ?case using s' acc all by (simp add: add.assoc)
qed

lemma add_pids_config:
  "well_formed s \<Longrightarrow> well_formed (snd (add_pids as s)) \<and> events (snd (add_pids as s)) = events s"
proof (induction "as" arbitrary: s)
  case (Cons a "as")
  have "well_formed (s\<lparr>my_config := snd (hash_update my_config_max (word_of_int (atoi a)) 1 BPF_ANY (my_config s))\<rparr>)"
    using Cons.prems hash_map.ok_put [of my_config_max "my_config s"] by (simp add: well_formed_def)
  from Cons.IH [OF this] show ?case by (simp add: Let_def split_beta)
qed simp


section \<open>Properties\<close>

lemma main_lines:
  assumes "well_formed s" and "events s = []" and ok: "open_ok env" "attach_err env = 0" "ring_ok env" "lookup_err env = 0"
    and "polls env \<noteq> []"
    and "add_pids (args env) s = (out, s1)" and "s2 = (run (before env) s1)\<lparr>lost_events := [0]\<rparr>"
    and "es = reports (before env) s1 @ reports (concat (polls env)) s2" and "all_printable es"
  shows "systracer_main env s = Some \<lparr>printed =
      (if args env = [] then [''usage: ./systracer <pid>''] else []) @ out @
      [table_head, replicate 148 CHR ''-'' @ newline] @ map line_of (filter kept es) @
      [replicate 146 CHR ''-'' @ newline,
       ''Lost '' @ dec_int (sint (of_nat (length (filter (\<lambda>e. \<not> kept e) (reports (concat (polls env)) s2))) :: 64 word)) @
         '' events'' @ newline],
      errors = [], destroyed = 1, status = Some 0\<rparr>"
proof -
  have w1: "well_formed s1" "events s1 = []" using add_pids_config [OF assms(1), of "args env"] assms(2,8) by simp_all
  have w2: "well_formed s2" using well_formed_run [OF w1(1), of "before env"] by (simp add: assms(9) well_formed_def)
  have e2: "events s2 = map record_of (filter kept (reports (before env) s1))"
    using run_accounts [OF w1(1), of "before env"] w1(2) by (simp add: assms(9))
  have "\<exists>s'. poll_loop (polls env) s2 = Some (map line_of (filter kept es), s') \<and>
    lost_events s' = [hd (lost_events s2) + of_nat (length (filter (\<lambda>e. \<not> kept e) (reports (concat (polls env)) s2)))]"
    unfolding assms(10)
    by (rule poll_loop_lines [OF w2 e2]) (use assms(7,10,11) reports_layer in auto)
  then obtain s' where s': "poll_loop (polls env) s2 = Some (map line_of (filter kept es), s')"
    "lost_events s' = [of_nat (length (filter (\<lambda>e. \<not> kept e) (reports (concat (polls env)) s2)))]"
    by (auto simp: assms(9))
  show ?thesis
    unfolding systracer_main_def Let_def assms(8) prod.case assms(9) [symmetric]
    using ok s' by (simp add: return_code_def)
qed


text \<open>One argument, a write of the traced process, a fork, a write of the child with no room left.\<close>

definition named_kernel :: "32 word \<Rightarrow> data_t option \<Rightarrow> data_t kernel" where
  "named_kernel p old = (demo_kernel p old)\<lparr>probe_read := (\<lambda>a n. take n ([108, 111, 103] @ replicate 125 0))\<rparr>"

definition demo_env :: tracer_env where
  "demo_env = \<lparr>args = [''7''], open_ok = True, attach_err = 0, before = [], ring_ok = True,
     polls = [[(named_kernel 7 (Some demo_record), Sys_openat 257 0x5000)],
              [(named_kernel 7 None, Fork 7 8), (named_kernel 8 None, Sys_openat 257 0x5000)]], lookup_err = 0\<rparr>"

definition empty_tracer :: systracer where
  "empty_tracer = \<lparr>events = [], lost_events = [0], my_config = []\<rparr>"

lemma demo_env_reports:
  "add_pids (args demo_env) empty_tracer = ([''Tracing Pid 7'' @ newline], demo_tracer)"
  "reports (concat (polls demo_env)) demo_tracer =
     [(named_kernel 7 (Some demo_record), \<lparr>r_nr = 257, r_layer = L_SYSCALL, r_name = 0x5000, r_size = 0, r_hash = 0\<rparr>),
      (named_kernel 8 None, \<lparr>r_nr = 257, r_layer = L_SYSCALL, r_name = 0x5000, r_size = 0, r_hash = 0\<rparr>)]"
proof -
  show "add_pids (args demo_env) empty_tracer = ([''Tracing Pid 7'' @ newline], demo_tracer)"
  proof -
    have d: "dec 7 = ''7''" by (simp add: dec.simps digit_def char_of_def bit_0)
    then have "atoi ''7'' = 7" using atoi_dec [of 7] by simp
    moreover have "dec_int 7 = ''7''" using d by (simp add: dec_int_def)
    ultimately show ?thesis
      by (simp add: demo_env_def empty_tracer_def demo_tracer_def hash_update_def my_config_max_def Let_def)
  qed
  have p: "current_pid (named_kernel p r) = p" for p r
    by (simp add: current_pid_def named_kernel_def demo_kernel_def, rule bit_word_eqI) (simp add: bit_simps)
  have o: "observed (named_kernel p r) s (Sys_openat 257 0x5000) = (if p \<in> traced s
      then Some \<lparr>r_nr = 257, r_layer = L_SYSCALL, r_name = 0x5000, r_size = 0, r_hash = 0\<rparr> else None)" for p r s
    by (simp add: observed_def p report_if_def)
  have f: "snd (fire k (Sys_openat nr a) s) = (case observed k s (Sys_openat nr a) of None \<Rightarrow> s | Some r \<Rightarrow> emit k r s)"
    if "lost_events s \<noteq> []" for k nr a s using fire_spec [OF that, of "Sys_openat nr a" k] by (simp add: is_fork_def)
  have t: "traced demo_tracer = {7}" by (simp add: traced_def demo_tracer_def)
  let ?s = "snd (fire (named_kernel 7 (Some demo_record)) (Sys_openat 257 0x5000) demo_tracer)"
  have s: "traced ?s = {7}" "my_config ?s = [(7, 1)]"
    using f [of demo_tracer] by (simp_all add: o t demo_tracer_def) (simp add: traced_def)
  have "traced (snd (fire (named_kernel 7 None) (Fork 7 8) ?s)) = {7, 8}"
    using s by (simp only: fire_fork) (simp add: traced_def hash_update_def my_config_max_def insert_commute)
  moreover have "observed k s' (Fork a b) = None" for k s' a b by (simp add: observed_def)
  ultimately show "reports (concat (polls demo_env)) demo_tracer =
     [(named_kernel 7 (Some demo_record), \<lparr>r_nr = 257, r_layer = L_SYSCALL, r_name = 0x5000, r_size = 0, r_hash = 0\<rparr>),
      (named_kernel 8 None, \<lparr>r_nr = 257, r_layer = L_SYSCALL, r_name = 0x5000, r_size = 0, r_hash = 0\<rparr>)]"
    by (simp add: demo_env_def o t)
qed

lemma demo_kept: "reserve (named_kernel p r) = r" "comm (named_kernel p r) = [102, 105, 111, 0]"
  "probe_read (named_kernel p r) a n = take n ([108, 111, 103] @ replicate 125 0)"
  by (simp_all add: named_kernel_def demo_kernel_def)


text \<open>C34. The handler never prints undefined memory for a report of the probes, as long as the name and the
  command are terminated; a name of 128 bytes or more, which Linux allows, is not, and then it does.\<close>

theorem event_handler_defined:
  assumes "e \<in> set (reports cs s)" and "c_string (comm (fst e)) \<noteq> None"
  shows "event_handler (record_of e) \<noteq> None \<longleftrightarrow>
    0 \<in> set (probe_read (fst e) (r_name (snd e)) filename_size)"
proof
  assume "0 \<in> set (probe_read (fst e) (r_name (snd e)) filename_size)"
  then show "event_handler (record_of e) \<noteq> None"
    using assms(2) reports_layer [OF assms(1)] by (intro handler_defined) (simp_all add: printable_def c_string_def)
next
  assume "event_handler (record_of e) \<noteq> None"
  then show "0 \<in> set (probe_read (fst e) (r_name (snd e)) filename_size)"
    by (auto simp: event_handler_def record_of_def to_record_def c_string_def split: option.splits if_splits)
qed

theorem event_handler_defined_witness:
  "event_handler (record_of (named_kernel 7 (Some demo_record),
     \<lparr>r_nr = 257, r_layer = L_SYSCALL, r_name = 0x5000, r_size = 0, r_hash = 0\<rparr>)) \<noteq> None"
proof -
  let ?e = "(named_kernel 7 (Some demo_record), \<lparr>r_nr = 257, r_layer = L_SYSCALL, r_name = 0x5000, r_size = 0, r_hash = 0\<rparr>)"
  have "?e \<in> set (reports (concat (polls demo_env)) demo_tracer)" unfolding demo_env_reports(2) by simp
  moreover have "c_string (comm (fst ?e)) \<noteq> None" by (simp add: demo_kept c_string_def)
  ultimately show ?thesis using event_handler_defined by (simp add: demo_kept filename_size_def)
qed

text \<open>Starting can fail in three ways, each with its message: the program cannot be loaded, the
  probes cannot be attached, the ring buffer cannot be opened. In the first the exit status is never set, in
  the second the program destroys its skeleton twice.\<close>

theorem systracer_start_errors:
  "(\<not> open_ok env \<longrightarrow> (\<exists>r. systracer_main env s = Some r \<and> printed r = [''Failed to open BPF object'' @ newline] \<and> status r = None)) \<and>
   (open_ok env \<and> attach_err env \<noteq> 0 \<longrightarrow> (\<exists>r. systracer_main env s = Some r \<and> destroyed r = 2 \<and>
      status r = Some (max 0 (- attach_err env)))) \<and>
   (open_ok env \<and> attach_err env = 0 \<and> \<not> ring_ok env \<longrightarrow> (\<exists>r. systracer_main env s = Some r \<and> destroyed r = 1 \<and> status r = Some 1))"
  by (cases "add_pids (args env) s") (simp add: systracer_main_def return_code_def Let_def max_def)

theorem systracer_start_errors_witness:
  "\<exists>r. systracer_main (demo_env\<lparr>attach_err := - 1\<rparr>) empty_tracer = Some r \<and> destroyed r = 2 \<and> status r = Some 1"
proof -
  have "open_ok (demo_env\<lparr>attach_err := - 1\<rparr>)" "attach_err (demo_env\<lparr>attach_err := - 1\<rparr>) = - 1"
    by (simp_all add: demo_env_def)
  then show ?thesis using systracer_start_errors [of "demo_env\<lparr>attach_err := - 1\<rparr>" empty_tracer] by auto
qed

end
