(* ===== verification/Syscounter.thy ===== *)
theory Syscounter
  imports BPF_Kernel
begin

text \<open>
  \<^verbatim>\<open>syscounter/syscounter.bpf.c\<close>: the probes of the counter. It has its own copies of the tracer's
  helpers. The counters are a BPF hash map from command, process and call to the number of calls and of
  bytes. Its size is that of the map of processes (100 entries), though a process can need up to six.

  The theorems: the counters of a run are exact for the first 100 distinct keys that occur, and no other key is
  counted (\<open>syscounter_counts\<close>); two probes that meet a new key at the same time lose a call
  (\<open>update_counter_race\<close>).
\<close>

section \<open>Data\<close>

definition MAX_OPS :: nat where "MAX_OPS = 6"
definition MAX_PIDS :: nat where "MAX_PIDS = 100"

record counter_key =
  key_command :: "8 word list"
  key_pid :: "32 word"
  key_op :: "32 word"

record counter_val =
  val_calls :: "64 word"
  val_bytes :: "64 word"

record syscounter =
  ctr_config :: "(32 word \<times> 32 word) list"
  counter :: "(counter_key \<times> counter_val) list"

definition counter_max :: nat where "counter_max = MAX_PIDS"

section \<open>Helpers\<close>

definition ctr_to_discard :: "syscounter \<Rightarrow> 32 word \<Rightarrow> int" where
  "ctr_to_discard s pid = (case map_of (ctr_config s) pid of Some _ \<Rightarrow> 0 | None \<Rightarrow> 1)"

definition ctr_get_file_from_fd :: "unit kernel \<Rightarrow> 32 word \<Rightarrow> 64 word" where
  "ctr_get_file_from_fd k fd = (let fd_array = fd_table k in read_ptr k (fd_array + 8 * scast fd))"

definition ctr_check_file_mode :: "16 word \<Rightarrow> int" where
  "ctr_check_file_mode mode = (if and mode S_IFMT \<noteq> S_IFREG then 1 else 0)"

definition ctr_check_file_mode_from_file :: "unit kernel \<Rightarrow> 64 word \<Rightarrow> int" where
  "ctr_check_file_mode_from_file k file =
     (let d = file_dentry k file; inode = dentry_inode k d; mode = inode_mode k inode in ctr_check_file_mode mode)"

text \<open>The counter is updated in two steps that other probes can come between: the lookup, with the atomic
  increments when the key is there, and the insertion when it was not.\<close>

definition counter_lookup :: "counter_key \<Rightarrow> 64 word \<Rightarrow> syscounter \<Rightarrow> bool \<times> syscounter" where
  "counter_lookup key bytes s =
     (case map_of (counter s) key of
        Some val \<Rightarrow> (True, s\<lparr>counter := AList.update key
          (val\<lparr>val_calls := val_calls val + 1, val_bytes := val_bytes val + bytes\<rparr>) (counter s)\<rparr>)
      | None \<Rightarrow> (False, s))"

definition counter_insert :: "counter_key \<Rightarrow> 64 word \<Rightarrow> syscounter \<Rightarrow> syscounter" where
  "counter_insert key bytes s =
     s\<lparr>counter := snd (hash_update counter_max key \<lparr>val_calls = 1, val_bytes = bytes\<rparr> BPF_NOEXIST (counter s))\<rparr>"

definition update_counter :: "unit kernel \<Rightarrow> 32 word \<Rightarrow> 32 word \<Rightarrow> 64 word \<Rightarrow> syscounter \<Rightarrow> int \<times> syscounter" where
  "update_counter k pid op bytes s =
     (let key = \<lparr>key_command = comm k, key_pid = pid, key_op = op\<rparr>;
          (found, s) = counter_lookup key bytes s
      in if found then (0, s) else (0, counter_insert key bytes s))"

section \<open>Probes\<close>

definition ctr_sys_enter_openat :: "unit kernel \<Rightarrow> 64 word \<Rightarrow> 64 word \<Rightarrow> syscounter \<Rightarrow> int \<times> syscounter" where
  "ctr_sys_enter_openat k syscall_id filename s =
     (let pid = current_pid k in
      if ctr_to_discard s pid \<noteq> 0 then (0, s)
      else update_counter k pid (ucast syscall_id) 0 s)"

definition ctr_sys_enter_write ::
  "unit kernel \<Rightarrow> 64 word \<Rightarrow> 32 word \<Rightarrow> 64 word \<Rightarrow> 64 word \<Rightarrow> syscounter \<Rightarrow> int \<times> syscounter" where
  "ctr_sys_enter_write k syscall_id fd buf cnt s =
     (let pid = current_pid k in
      if ctr_to_discard s pid \<noteq> 0 then (0, s)
      else let file = ctr_get_file_from_fd k fd in
      if ctr_check_file_mode_from_file k file \<noteq> 0 then (0, s)
      else update_counter k pid (ucast syscall_id) cnt s)"

definition ctr_sys_enter_pwrite64 ::
  "unit kernel \<Rightarrow> 64 word \<Rightarrow> 32 word \<Rightarrow> 64 word \<Rightarrow> 64 word \<Rightarrow> syscounter \<Rightarrow> int \<times> syscounter" where
  "ctr_sys_enter_pwrite64 k syscall_id fd buf cnt s =
     (let pid = current_pid k in
      if ctr_to_discard s pid \<noteq> 0 then (0, s)
      else let file = ctr_get_file_from_fd k fd in
      if ctr_check_file_mode_from_file k file \<noteq> 0 then (0, s)
      else update_counter k pid (ucast syscall_id) cnt s)"

definition ctr_sys_enter_read ::
  "unit kernel \<Rightarrow> 64 word \<Rightarrow> 32 word \<Rightarrow> 64 word \<Rightarrow> 64 word \<Rightarrow> syscounter \<Rightarrow> int \<times> syscounter" where
  "ctr_sys_enter_read k syscall_id fd buf cnt s =
     (let pid = current_pid k in
      if ctr_to_discard s pid \<noteq> 0 then (0, s)
      else let file = ctr_get_file_from_fd k fd in
      if ctr_check_file_mode_from_file k file \<noteq> 0 then (0, s)
      else update_counter k pid (ucast syscall_id) cnt s)"

definition ctr_sys_enter_pread64 ::
  "unit kernel \<Rightarrow> 64 word \<Rightarrow> 32 word \<Rightarrow> 64 word \<Rightarrow> 64 word \<Rightarrow> syscounter \<Rightarrow> int \<times> syscounter" where
  "ctr_sys_enter_pread64 k syscall_id fd buf cnt s =
     (let pid = current_pid k in
      if ctr_to_discard s pid \<noteq> 0 then (0, s)
      else let file = ctr_get_file_from_fd k fd in
      if ctr_check_file_mode_from_file k file \<noteq> 0 then (0, s)
      else update_counter k pid (ucast syscall_id) cnt s)"

definition ctr_sys_enter_close :: "unit kernel \<Rightarrow> 64 word \<Rightarrow> 32 word \<Rightarrow> syscounter \<Rightarrow> int \<times> syscounter" where
  "ctr_sys_enter_close k syscall_id fd s =
     (let pid = current_pid k in
      if ctr_to_discard s pid \<noteq> 0 then (0, s)
      else let file = ctr_get_file_from_fd k fd in
      if ctr_check_file_mode_from_file k file \<noteq> 0 then (0, s)
      else update_counter k pid (ucast syscall_id) 0 s)"

definition ctr_sched_process_fork :: "32 word \<Rightarrow> 32 word \<Rightarrow> syscounter \<Rightarrow> int \<times> syscounter" where
  "ctr_sched_process_fork parent_pid child_pid s =
     (if ctr_to_discard s parent_pid \<noteq> 0 then (0, s)
      else (0, s\<lparr>ctr_config := snd (hash_update MAX_PIDS child_pid 1 BPF_ANY (ctr_config s))\<rparr>))"

section \<open>What should be counted\<close>

datatype counter_call =
    Ctr_openat "64 word" "64 word"
  | Ctr_write "64 word" "32 word" "64 word" "64 word"
  | Ctr_pwrite64 "64 word" "32 word" "64 word" "64 word"
  | Ctr_read "64 word" "32 word" "64 word" "64 word"
  | Ctr_pread64 "64 word" "32 word" "64 word" "64 word"
  | Ctr_close "64 word" "32 word"
  | Ctr_fork "32 word" "32 word"

fun ctr_fire :: "unit kernel \<Rightarrow> counter_call \<Rightarrow> syscounter \<Rightarrow> int \<times> syscounter" where
  "ctr_fire k (Ctr_openat nr name) s = ctr_sys_enter_openat k nr name s"
| "ctr_fire k (Ctr_write nr fd buf n) s = ctr_sys_enter_write k nr fd buf n s"
| "ctr_fire k (Ctr_pwrite64 nr fd buf n) s = ctr_sys_enter_pwrite64 k nr fd buf n s"
| "ctr_fire k (Ctr_read nr fd buf n) s = ctr_sys_enter_read k nr fd buf n s"
| "ctr_fire k (Ctr_pread64 nr fd buf n) s = ctr_sys_enter_pread64 k nr fd buf n s"
| "ctr_fire k (Ctr_close nr fd) s = ctr_sys_enter_close k nr fd s"
| "ctr_fire k (Ctr_fork p q) s = ctr_sched_process_fork p q s"

definition on_regular :: "unit kernel \<Rightarrow> 32 word \<Rightarrow> bool" where
  "on_regular k fd \<longleftrightarrow>
     and (inode_mode k (dentry_inode k (file_dentry k (read_ptr k (fd_table k + 8 * scast fd))))) S_IFMT = S_IFREG"

text \<open>The call number and the bytes that a call of a traced process counts.\<close>

fun countable :: "unit kernel \<Rightarrow> counter_call \<Rightarrow> (64 word \<times> 64 word) option" where
  "countable k (Ctr_openat nr name) = Some (nr, 0)"
| "countable k (Ctr_write nr fd buf n) = (if on_regular k fd then Some (nr, n) else None)"
| "countable k (Ctr_pwrite64 nr fd buf n) = (if on_regular k fd then Some (nr, n) else None)"
| "countable k (Ctr_read nr fd buf n) = (if on_regular k fd then Some (nr, n) else None)"
| "countable k (Ctr_pread64 nr fd buf n) = (if on_regular k fd then Some (nr, n) else None)"
| "countable k (Ctr_close nr fd) = (if on_regular k fd then Some (nr, 0) else None)"
| "countable k (Ctr_fork p q) = None"

definition ctr_traced :: "syscounter \<Rightarrow> 32 word set" where
  "ctr_traced s = dom (map_of (ctr_config s))"

definition counted :: "unit kernel \<Rightarrow> syscounter \<Rightarrow> counter_call \<Rightarrow> (counter_key \<times> 64 word) option" where
  "counted k s c =
     (if current_pid k \<in> ctr_traced s
      then map_option (\<lambda>(nr, n). (\<lparr>key_command = comm k, key_pid = current_pid k, key_op = ucast nr\<rparr>, n)) (countable k c)
      else None)"

text \<open>One more call in the counters: an association list in the order in which the keys came.\<close>

definition count_call :: "counter_key \<Rightarrow> 64 word \<Rightarrow> (counter_key \<times> counter_val) list \<Rightarrow> (counter_key \<times> counter_val) list" where
  "count_call key n m =
     (case map_of m key of
        Some v \<Rightarrow> AList.update key (v\<lparr>val_calls := val_calls v + 1, val_bytes := val_bytes v + n\<rparr>) m
      | None \<Rightarrow> if length m < counter_max then m @ [(key, \<lparr>val_calls = 1, val_bytes = n\<rparr>)] else m)"

section \<open>Every probe counts what it should\<close>

lemma ctr_discard: "ctr_to_discard s p \<noteq> 0 \<longleftrightarrow> p \<notin> ctr_traced s"
  by (auto simp: ctr_to_discard_def ctr_traced_def split: option.splits)

lemma ctr_mode: "ctr_check_file_mode_from_file k (ctr_get_file_from_fd k fd) \<noteq> 0 \<longleftrightarrow> \<not> on_regular k fd"
  by (simp add: ctr_check_file_mode_from_file_def ctr_check_file_mode_def ctr_get_file_from_fd_def on_regular_def Let_def)

lemma update_counter_call:
  "update_counter k pid op n s =
     (0, s\<lparr>counter := count_call \<lparr>key_command = comm k, key_pid = pid, key_op = op\<rparr> n (counter s)\<rparr>)"
  by (simp add: update_counter_def counter_lookup_def counter_insert_def count_call_def hash_update_def split: option.splits)

lemmas ctr_probe_defs = ctr_sys_enter_openat_def ctr_sys_enter_write_def ctr_sys_enter_pwrite64_def
  ctr_sys_enter_read_def ctr_sys_enter_pread64_def ctr_sys_enter_close_def

definition ctr_is_fork :: "counter_call \<Rightarrow> bool" where
  "ctr_is_fork c \<longleftrightarrow> (\<exists>p q. c = Ctr_fork p q)"

lemma ctr_fire_spec:
  assumes "\<not> ctr_is_fork c"
  shows "ctr_fire k c s =
    (0, case counted k s c of None \<Rightarrow> s | Some (key, n) \<Rightarrow> s\<lparr>counter := count_call key n (counter s)\<rparr>)"
proof (cases "current_pid k \<in> ctr_traced s")
  case False
  then show ?thesis using assms
    by (cases c) (simp_all add: ctr_probe_defs ctr_discard counted_def ctr_is_fork_def Let_def)
next
  case True
  have d: "ctr_to_discard s (current_pid k) = 0" using True ctr_discard by blast
  show ?thesis using assms
    by (cases c) (simp_all add: ctr_probe_defs d True counted_def ctr_is_fork_def Let_def ctr_mode update_counter_call)
qed

lemma ctr_fire_fork:
  "ctr_fire k (Ctr_fork p q) s = (0, if p \<in> ctr_traced s
     then s\<lparr>ctr_config := snd (hash_update MAX_PIDS q 1 BPF_ANY (ctr_config s))\<rparr> else s)"
  using ctr_discard [of s p] by (simp add: ctr_sched_process_fork_def)

section \<open>Runs of the counter\<close>

type_synonym counter_trace = "(unit kernel \<times> counter_call) list"

definition ctr_run :: "counter_trace \<Rightarrow> syscounter \<Rightarrow> syscounter" where
  "ctr_run cs s = fold (\<lambda>(k, c) s. snd (ctr_fire k c s)) cs s"

fun counted_calls :: "counter_trace \<Rightarrow> syscounter \<Rightarrow> (counter_key \<times> 64 word) list" where
  "counted_calls [] s = []"
| "counted_calls ((k, c) # cs) s =
     (case counted k s c of None \<Rightarrow> [] | Some e \<Rightarrow> [e]) @ counted_calls cs (snd (ctr_fire k c s))"

text \<open>The reference: how often a key occurs in the calls, with how many bytes, and which keys come first.\<close>

definition tally :: "(counter_key \<times> 64 word) list \<Rightarrow> counter_key \<Rightarrow> counter_val" where
  "tally l key = (let ns = map snd (filter (\<lambda>e. fst e = key) l)
     in \<lparr>val_calls = of_nat (length ns), val_bytes = sum_list ns\<rparr>)"

definition firsts :: "'a list \<Rightarrow> 'a list" where
  "firsts xs = rev (remdups (rev xs))"

lemma firsts_snoc: "firsts (xs @ [x]) = (if x \<in> set xs then firsts xs else firsts xs @ [x])"
  by (simp add: firsts_def)

lemma set_firsts [simp]: "set (firsts xs) = set xs"
  by (simp add: firsts_def)

lemma distinct_firsts [simp]: "distinct (firsts xs)"
  by (simp add: firsts_def)

definition count_all :: "(counter_key \<times> 64 word) list \<Rightarrow> (counter_key \<times> counter_val) list \<Rightarrow> (counter_key \<times> counter_val) list" where
  "count_all l m = fold (\<lambda>(key, n) m. count_call key n m) l m"

lemma ctr_run_counts: "counter (ctr_run cs s) = count_all (counted_calls cs s) (counter s)"
proof (induction cs arbitrary: s)
  case Nil
  then show ?case by (simp add: ctr_run_def count_all_def)
next
  case (Cons kc cs)
  obtain k c where kc: "kc = (k, c)" by (cases kc)
  have r: "ctr_run (kc # cs) s = ctr_run cs (snd (ctr_fire k c s))" by (simp add: ctr_run_def kc)
  show ?case
  proof (cases "ctr_is_fork c")
    case True
    then obtain p q where "c = Ctr_fork p q" by (auto simp: ctr_is_fork_def)
    then show ?thesis unfolding r Cons.IH by (simp only: kc ctr_fire_fork counted_calls.simps) (simp add: counted_def)
  next
    case False
    then show ?thesis unfolding r Cons.IH
      by (cases "counted k s c") (auto simp: kc ctr_fire_spec [OF False] count_all_def)
  qed
qed

lemma tally_snoc: "tally (l @ [(key, n)]) key' =
  (if key' = key then (tally l key)\<lparr>val_calls := val_calls (tally l key) + 1, val_bytes := val_bytes (tally l key) + n\<rparr>
   else tally l key')"
  by (simp add: tally_def Let_def add.commute)

lemma map_of_keys: "map_of (map (\<lambda>k. (k, f k)) ks) k = (if k \<in> set ks then Some (f k) else None)"
  by (induction ks) auto

lemma update_keys: "distinct ks \<Longrightarrow> k \<in> set ks \<Longrightarrow>
  AList.update k v (map (\<lambda>k. (k, f k)) ks) = map (\<lambda>k'. (k', if k' = k then v else f k')) ks"
  by (induction ks) (auto intro!: map_cong)

lemma count_all_first:
  "count_all l [] = map (\<lambda>key. (key, tally l key)) (take counter_max (firsts (map fst l)))"
proof (induction l rule: rev_induct)
  case Nil
  then show ?case by (simp add: count_all_def firsts_def)
next
  case (snoc e l)
  obtain key n where e: "e = (key, n)" by (cases e)
  let ?ks = "take counter_max (firsts (map fst l))" and ?m = "map (\<lambda>key. (key, tally l key)) (take counter_max (firsts (map fst l)))"
  have step: "count_all (l @ [e]) [] = count_call key n ?m"
    using snoc by (simp add: count_all_def e)
  consider (old) "key \<in> set ?ks" | (dropped) "key \<notin> set ?ks" "key \<in> fst ` set l" | (new) "key \<notin> fst ` set l" by blast
  then show ?case
  proof cases
    case old
    then have "key \<in> set (map fst l)" by (metis in_set_takeD set_firsts)
    then have f: "firsts (map fst (l @ [e])) = firsts (map fst l)" by (simp add: e firsts_snoc)
    have "count_call key n ?m = map (\<lambda>k. (k, tally (l @ [e]) k)) ?ks"
      using old by (simp add: count_call_def map_of_keys update_keys e tally_snoc cong: map_cong)
    then show ?thesis by (simp only: step f)
  next
    case dropped
    then have f: "firsts (map fst (l @ [e])) = firsts (map fst l)" by (auto simp: e firsts_snoc)
    have "key \<in> set (firsts (map fst l))" using dropped(2) by simp
    then have "\<not> length (firsts (map fst l)) < counter_max" using dropped(1) by (metis nless_le take_all)
    then have "count_call key n ?m = ?m" using dropped(1) by (simp add: count_call_def map_of_keys)
    also have "?m = map (\<lambda>k. (k, tally (l @ [e]) k)) ?ks" using dropped(1) by (auto simp: e tally_snoc)
    finally show ?thesis by (simp only: step f)
  next
    case new
    then have f: "firsts (map fst (l @ [e])) = firsts (map fst l) @ [key]" by (auto simp: e firsts_snoc)
    have nk: "key \<notin> set ?ks" using new by (metis in_set_takeD set_firsts set_map)
    have "filter (\<lambda>e. fst e = key) l = []" using new by (auto simp: filter_empty_conv)
    then have t0: "tally l key = \<lparr>val_calls = 0, val_bytes = 0\<rparr>" by (simp add: tally_def)
    have old: "?m = map (\<lambda>k. (k, tally (l @ [e]) k)) ?ks" using nk by (auto simp: e tally_snoc)
    show ?thesis
    proof (cases "length (firsts (map fst l)) < counter_max")
      case True
      then have "count_call key n ?m = ?m @ [(key, tally (l @ [e]) key)]"
        using nk by (simp add: count_call_def map_of_keys e tally_snoc t0)
      then show ?thesis unfolding step f using old True by simp
    next
      case False
      then have "count_call key n ?m = ?m" using nk by (simp add: count_call_def map_of_keys)
      moreover have "take counter_max (firsts (map fst l) @ [key]) = ?ks" using False by simp
      ultimately show ?thesis unfolding step f using old by (simp only:)
    qed
  qed
qed


section \<open>Properties\<close>

text \<open>Process 7 with one open regular file, at descriptor 3.\<close>

definition demo_comm :: "8 word list" where
  "demo_comm = [102, 105, 111] @ replicate 13 0"

definition demo_ctr_kernel :: "32 word \<Rightarrow> unit kernel" where
  "demo_ctr_kernel p = \<lparr>pid_tgid = push_bit 32 (ucast p), comm = demo_comm, fd_table = 0x1000,
     read_ptr = (\<lambda>a. if a = 0x1018 then 0x2000 else 0),
     file_dentry = (\<lambda>f. if f = 0x2000 then 0x3000 else 0), path_dentry = (\<lambda>_. 0),
     dentry_inode = (\<lambda>d. if d = 0x3000 then 0x4000 else 0), dentry_name = (\<lambda>d. 0),
     inode_mode = (\<lambda>i. if i = 0x4000 then 0x81A4 else 0), iocb_filp = (\<lambda>_. 0), iter_type = (\<lambda>_. 0), iter_base = (\<lambda>_. 0),
     iter_len = (\<lambda>_. 0), iter_offset = (\<lambda>_. 0), iter_count = (\<lambda>_. 0), probe_read = (\<lambda>_ n. replicate n 0), reserve = None\<rparr>"

definition demo_counter :: syscounter where
  "demo_counter = \<lparr>ctr_config = [(7, 1)], counter = []\<rparr>"

definition demo_counter_trace :: counter_trace where
  "demo_counter_trace = [(demo_ctr_kernel 7, Ctr_write 1 3 0 100), (demo_ctr_kernel 7, Ctr_close 3 3),
     (demo_ctr_kernel 9, Ctr_write 1 3 0 5), (demo_ctr_kernel 7, Ctr_write 1 3 0 20)]"

abbreviation demo_key :: "32 word \<Rightarrow> counter_key" where
  "demo_key nr \<equiv> \<lparr>key_command = demo_comm, key_pid = 7, key_op = nr\<rparr>"

lemma demo_counted: "counted_calls demo_counter_trace demo_counter = [(demo_key 1, 100), (demo_key 3, 0), (demo_key 1, 20)]"
proof -
  have p: "current_pid (demo_ctr_kernel p) = p" for p
    by (simp add: current_pid_def demo_ctr_kernel_def, rule bit_word_eqI) (simp add: bit_simps)
  have r: "on_regular (demo_ctr_kernel p) 3" "comm (demo_ctr_kernel p) = demo_comm" for p
    by (simp_all add: on_regular_def demo_ctr_kernel_def S_IFMT_def S_IFREG_def)
  have t: "ctr_traced (s\<lparr>counter := m\<rparr>) = ctr_traced s" "ctr_traced demo_counter = {7}" for s m
    by (simp_all add: ctr_traced_def demo_counter_def)
  have f: "snd (ctr_fire k c s) = (case counted k s c of None \<Rightarrow> s | Some (key, n) \<Rightarrow> s\<lparr>counter := count_call key n (counter s)\<rparr>)"
    if "\<not> ctr_is_fork c" for k c s using ctr_fire_spec [OF that] by simp
  show ?thesis
    by (simp add: demo_counter_trace_def counted_def p r t f ctr_is_fork_def del: ctr_fire.simps)
qed

text \<open>C35. Every probe of the counter does what is specified for it: it ignores processes that are not traced and
  files that are not regular; otherwise it counts one call, with the bytes asked for, for the command, process and
  call, unless the map is full and the key new. It always returns 0.\<close>

theorem syscounter_probe_correct:
  assumes "\<not> ctr_is_fork c"
  shows "ctr_fire k c s =
    (0, case counted k s c of None \<Rightarrow> s | Some (key, n) \<Rightarrow> s\<lparr>counter := count_call key n (counter s)\<rparr>)"
  using assms by (rule ctr_fire_spec)

theorem syscounter_probe_correct_witness:
  "ctr_fire (demo_ctr_kernel 7) (Ctr_close 3 3) demo_counter =
    (0, case counted (demo_ctr_kernel 7) demo_counter (Ctr_close 3 3) of None \<Rightarrow> demo_counter
        | Some (key, n) \<Rightarrow> demo_counter\<lparr>counter := count_call key n (counter demo_counter)\<rparr>)"
  by (rule syscounter_probe_correct) (simp add: ctr_is_fork_def)

text \<open>C36. The counters of a run are exact: started empty, the map holds the first 100 distinct keys of the calls
  counted, in the order of their first calls, each with the number of all its calls and the sum of their bytes
  (both modulo $2^{64}$); a key that comes when 100 others are there is never counted.\<close>

theorem syscounter_counts:
  assumes "counter s = []"
  shows "counter (ctr_run cs s) =
    map (\<lambda>key. (key, tally (counted_calls cs s) key)) (take counter_max (firsts (map fst (counted_calls cs s))))"
  unfolding ctr_run_counts assms by (rule count_all_first)

theorem syscounter_counts_witness:
  "counter (ctr_run demo_counter_trace demo_counter) =
    [(demo_key 1, \<lparr>val_calls = 2, val_bytes = 120\<rparr>), (demo_key 3, \<lparr>val_calls = 1, val_bytes = 0\<rparr>)]"
proof -
  have "counter demo_counter = []" by (simp add: demo_counter_def)
  from syscounter_counts [OF this, of demo_counter_trace] show ?thesis
    unfolding demo_counted by (simp add: firsts_def tally_def counter_max_def MAX_PIDS_def)
qed

text \<open>C37. Two probes that look a new key up before either inserts it count one call, not two: the insertion
  of the second fails because the key exists, and its result is not looked at.\<close>

theorem update_counter_race:
  assumes "map_of (counter s) key = None" and "length (counter s) < counter_max"
    and "counter_lookup key m s = (found1, s1)" and "counter_lookup key n s1 = (found2, s2)"
  shows "map_of (counter (counter_insert key n (counter_insert key m s2))) key = Some \<lparr>val_calls = 1, val_bytes = m\<rparr>"
proof -
  have "s1 = s" "s2 = s" using assms by (auto simp: counter_lookup_def)
  then show ?thesis using assms(1,2) by (simp add: counter_insert_def hash_update_map)
qed

theorem update_counter_race_witness:
  "map_of (counter (counter_insert (demo_key 1) 20 (counter_insert (demo_key 1) 100 demo_counter))) (demo_key 1) =
    Some \<lparr>val_calls = 1, val_bytes = 100\<rparr>"
  by (rule update_counter_race [of demo_counter _ _ False demo_counter _ False])
    (simp_all add: demo_counter_def counter_lookup_def counter_max_def MAX_PIDS_def)

end
