(* ===== verification/Syscounter_User.thy ===== *)
theory Syscounter_User
  imports Syscounter Syscalls_Table C_Text
begin

text \<open>
  \<^verbatim>\<open>syscounter/syscounter.c\<close>: the user side of the counter, which reads the map of counters when it is
  stopped and prints a table with a row for each process and a column for each call. The walk over the map goes
  through \<^verbatim>\<open>bpf_map__get_next_key\<close> of libbpf, a parameter; \<open>walks\<close> says that it enumerates the keys, and the
  loop is a partial function, since with another answer it need not end. The theorems: the walk ends and finds
  every entry, the arrays on the stack are large enough, and the printed cells and totals are the counters.
\<close>

type_synonym entries = "(counter_key \<times> counter_val) list"

section \<open>Reading the map\<close>

partial_function (option) collect ::
  "(counter_key option \<Rightarrow> counter_key option) \<Rightarrow> entries \<Rightarrow> counter_key \<Rightarrow> entries \<Rightarrow> entries option" where
  "collect next_key m cur_key acc =
     (let acc = (case map_of m cur_key of Some counter_value \<Rightarrow> acc @ [(cur_key, counter_value)] | None \<Rightarrow> acc)
      in case next_key (Some cur_key) of None \<Rightarrow> Some acc | Some nxt \<Rightarrow> collect next_key m nxt acc)"

text \<open>What is printed, and the entries.\<close>

definition get_values_from_counter_map ::
  "(counter_key option \<Rightarrow> counter_key option) \<Rightarrow> entries \<Rightarrow> (string list \<times> entries) option" where
  "get_values_from_counter_map next_key m =
     (case next_key None of
        None \<Rightarrow> Some ([''Map is empty'' @ [CHR 0x0A]], [])
      | Some cur_key \<Rightarrow> map_option (Pair []) (collect next_key m cur_key []))"

section \<open>Rows and columns\<close>

text \<open>A C string in an array, up to its zero byte; the kernel terminates every command.\<close>

definition c_text :: "8 word list \<Rightarrow> string" where
  "c_text bs = map (\<lambda>b. char_of (unat b)) (takeWhile (\<lambda>b. b \<noteq> 0) bs)"

definition key_text :: "counter_key \<Rightarrow> string" where
  "key_text key = c_text (key_command key) @ ''-'' @ dec_int (sint (key_pid key))"

text \<open>\<^verbatim>\<open>snprintf\<close> into 30 bytes keeps 29 characters.\<close>

fun get_unique_pid_values :: "entries \<Rightarrow> string list \<Rightarrow> string list" where
  "get_unique_pid_values [] pid_list = pid_list"
| "get_unique_pid_values ((key, _) # es) pid_list =
     (let val = take 29 (key_text key); found = list_ex (\<lambda>p. p = val) pid_list
      in get_unique_pid_values es (if \<not> found then pid_list @ [val] else pid_list))"

fun get_unique_op_values :: "entries \<Rightarrow> 32 word list \<Rightarrow> 32 word list" where
  "get_unique_op_values [] op_list = op_list"
| "get_unique_op_values ((key, _) # es) op_list =
     (let found = list_ex (\<lambda>p. p = key_op key) op_list
      in get_unique_op_values es (if \<not> found then op_list @ [key_op key] else op_list))"

section \<open>The table\<close>

definition val_text :: "counter_val \<Rightarrow> string" where
  "val_text v = dec (unat (val_calls v)) @ ''/'' @ dec (unat (val_bytes v))"

definition add_val :: "counter_val \<Rightarrow> counter_val \<Rightarrow> counter_val" where
  "add_val a b = \<lparr>val_calls = val_calls a + val_calls b, val_bytes = val_bytes a + val_bytes b\<rparr>"

abbreviation no_val :: counter_val where
  "no_val \<equiv> \<lparr>val_calls = 0, val_bytes = 0\<rparr>"

text \<open>The innermost loop: the value of a cell, and the total of its column with the cell added.\<close>

fun cell :: "entries \<Rightarrow> string \<Rightarrow> 32 word \<Rightarrow> counter_val \<times> counter_val \<Rightarrow> counter_val \<times> counter_val" where
  "cell [] p nr acc = acc"
| "cell ((key, v) # es) p nr (val, tot) =
     cell es p nr (if key_text key = p \<and> key_op key = nr then (v, add_val tot v) else (val, tot))"

fun row_cells :: "entries \<Rightarrow> string \<Rightarrow> 32 word list \<Rightarrow> nat \<Rightarrow> counter_val list \<Rightarrow> string \<times> counter_val list" where
  "row_cells es p [] i totals = ([], totals)"
| "row_cells es p (nr # nrs) i totals =
     (let (val, tot) = cell es p nr (no_val, totals ! i);
          (out, totals) = row_cells es p nrs (i + 1) (totals[i := tot])
      in (column 24 (val_text val) @ out, totals))"

fun table_rows :: "entries \<Rightarrow> string list \<Rightarrow> 32 word list \<Rightarrow> counter_val list \<Rightarrow> string \<times> counter_val list" where
  "table_rows es [] op_list totals = ([], totals)"
| "table_rows es (p # ps) op_list totals =
     (let (cells, totals) = row_cells es p op_list 0 totals;
          (out, totals) = table_rows es ps op_list totals
      in (column 30 p @ cells @ [CHR 0x0A] @ out, totals))"

definition header_text :: "32 word \<Rightarrow> string" where
  "header_text nr = syscounter_resolve_syscall (sint nr) @ ''(C/B)''"

definition print_results :: "entries \<Rightarrow> string list \<Rightarrow> 32 word list \<Rightarrow> string" where
  "print_results es pid_list op_list =
     (let total_width = 30 + length op_list * 24;
          rule_line = replicate total_width CHR ''-'' @ [CHR 0x0A];
          (out, totals) = table_rows es pid_list op_list (replicate MAX_OPS no_val)
      in column 30 (''PID'' @ [CHR 0x5C] @ ''OP'') @ concat (map (\<lambda>nr. column 24 (header_text nr)) op_list) @ [CHR 0x0A] @
         rule_line @ out @ rule_line @
         column 30 ''Total'' @ concat (map (\<lambda>i. column 24 (val_text (totals ! i))) [0..<length op_list]) @ [CHR 0x0A])"

section \<open>The program\<close>

record counter_env =
  c_args :: "string list"
  c_open_ok :: bool
  c_attach_err :: int
  c_seen :: counter_trace
  c_next_key :: "entries \<Rightarrow> counter_key option \<Rightarrow> counter_key option"

record counter_outcome =
  c_printed :: "string list"
  c_errors :: "string list"
  c_destroyed :: nat
  c_status :: "int option"

fun ctr_add_pids :: "string list \<Rightarrow> syscounter \<Rightarrow> string list \<times> syscounter" where
  "ctr_add_pids [] s = ([], s)"
| "ctr_add_pids (a # as) s =
     (let key = word_of_int (atoi a) :: 32 word;
          s = s\<lparr>ctr_config := snd (hash_update MAX_PIDS key 1 BPF_ANY (ctr_config s))\<rparr>;
          (out, s) = ctr_add_pids as s
      in ((''Tracing Pid '' @ dec_int (sint key) @ [CHR 0x0A]) # out, s))"

definition syscounter_main :: "counter_env \<Rightarrow> syscounter \<Rightarrow> counter_outcome option" where
  "syscounter_main env s =
     (if \<not> c_open_ok env
      then Some \<lparr>c_printed = [''Failed to open BPF object'' @ [CHR 0x0A]], c_errors = [], c_destroyed = 1, c_status = None\<rparr>
      else let usage = if c_args env = [] then [''usage: ./syscounter <pid>''] else [];
               (out, s) = ctr_add_pids (c_args env) s in
      if c_attach_err env \<noteq> 0
      then Some \<lparr>c_printed = usage @ out,
             c_errors = [''Failed to attach BPF skeleton: '' @ dec_int (c_attach_err env) @ [CHR 0x0A]],
             c_destroyed = 2, c_status = Some (if c_attach_err env < 0 then - c_attach_err env else 0)\<rparr>
      else let start = ''Successfully started! Press Ctrl-C or kill to stop and print results.'' @ [CHR 0x0A];
               s = ctr_run (c_seen env) s in
      case get_values_from_counter_map (c_next_key env (counter s)) (counter s) of None \<Rightarrow> None
      | Some (msg, es) \<Rightarrow>
          let table = (if es \<noteq> []
                       then [print_results es (get_unique_pid_values es []) (get_unique_op_values es [])] else [])
          in Some \<lparr>c_printed = usage @ out @ [start, [CHR 0x0A]] @ msg @ table, c_errors = [],
               c_destroyed = 1, c_status = Some 0\<rparr>)"

section \<open>The walk over the map\<close>

definition walks :: "(counter_key option \<Rightarrow> counter_key option) \<Rightarrow> counter_key list \<Rightarrow> bool" where
  "walks next_key ks \<longleftrightarrow> next_key None = (case ks of [] \<Rightarrow> None | k # _ \<Rightarrow> Some k) \<and>
     (\<forall>i<length ks. next_key (Some (ks ! i)) = (if Suc i < length ks then Some (ks ! Suc i) else None))"

lemma collect_walk:
  assumes "walks next_key ks" and "\<forall>k\<in>set ks. map_of m k \<noteq> None"
  shows "i < length ks \<Longrightarrow> collect next_key m (ks ! i) acc = Some (acc @ map (\<lambda>k. (k, the (map_of m k))) (drop i ks))"
proof (induction "length ks - i" arbitrary: i acc)
  case (Suc d)
  have nk: "next_key (Some (ks ! i)) = (if Suc i < length ks then Some (ks ! Suc i) else None)"
    using assms(1) Suc.prems by (simp add: walks_def)
  obtain v where v: "map_of m (ks ! i) = Some v" using assms(2) Suc.prems by (metis not_None_eq nth_mem)
  have drop: "drop i ks = ks ! i # drop (Suc i) ks" using Suc.prems by (simp add: Cons_nth_drop_Suc)
  show ?case
  proof (cases "Suc i < length ks")
    case True
    have "collect next_key m (ks ! Suc i) (acc @ [(ks ! i, v)]) =
        Some ((acc @ [(ks ! i, v)]) @ map (\<lambda>k. (k, the (map_of m k))) (drop (Suc i) ks))"
      by (rule Suc.hyps(1)) (use Suc.hyps(2) True in auto)
    then show ?thesis using True by (subst collect.simps) (simp add: v nk drop)
  next
    case False
    then show ?thesis by (subst collect.simps) (simp add: v nk drop)
  qed
qed simp

lemma get_values_walk:
  assumes "walks next_key ks" and "set ks = fst ` set m"
  shows "get_values_from_counter_map next_key m =
    Some (if ks = [] then [''Map is empty'' @ [CHR 0x0A]] else [], map (\<lambda>k. (k, the (map_of m k))) ks)"
proof (cases ks)
  case Nil
  then show ?thesis using assms(1) by (simp add: get_values_from_counter_map_def walks_def)
next
  case (Cons k ks')
  then have "next_key None = Some (ks ! 0)" using assms(1) by (simp add: walks_def)
  moreover have "\<forall>k\<in>set ks. map_of m k \<noteq> None" using assms(2) by (simp add: map_of_eq_None_iff)
  ultimately show ?thesis using collect_walk [OF assms(1), of m 0 "[]"] Cons by (simp add: get_values_from_counter_map_def)
qed

section \<open>Distinct processes and calls\<close>

lemma firsts_append_in: "firsts (xs @ ys) = firsts xs @ filter (\<lambda>y. y \<notin> set xs) (firsts ys)"
proof (induction ys rule: rev_induct)
  case (snoc y ys)
  have "firsts (xs @ ys @ [y]) = firsts ((xs @ ys) @ [y])" by simp
  also have "\<dots> = firsts xs @ filter (\<lambda>y. y \<notin> set xs) (firsts (ys @ [y]))"
    unfolding firsts_snoc snoc by (auto simp: filter_False)
  finally show ?case .
qed (simp add: firsts_def)

lemma unique_firsts: "get_unique_op_values es (firsts l) = firsts (l @ map (\<lambda>e. key_op (fst e)) es)"
proof (induction es arbitrary: l)
  case (Cons e es)
  obtain key v where e: "e = (key, v)" by (cases e)
  have "(if \<not> list_ex (\<lambda>p. p = key_op key) (firsts l) then firsts l @ [key_op key] else firsts l) = firsts (l @ [key_op key])"
    by (simp add: firsts_snoc list_ex_iff)
  then show ?case using Cons [of "l @ [key_op key]"] by (simp add: e)
qed simp

lemma unique_ops_firsts: "get_unique_op_values es [] = firsts (map (\<lambda>e. key_op (fst e)) es)"
  using unique_firsts [of es "[]"] by (simp add: firsts_def)

lemma unique_pids_step: "get_unique_pid_values es (firsts l) = firsts (l @ map (\<lambda>e. take 29 (key_text (fst e))) es)"
proof (induction es arbitrary: l)
  case (Cons e es)
  obtain key v where e: "e = (key, v)" by (cases e)
  have "(if \<not> list_ex (\<lambda>p. p = take 29 (key_text key)) (firsts l) then firsts l @ [take 29 (key_text key)] else firsts l) =
      firsts (l @ [take 29 (key_text key)])"
    by (simp add: firsts_snoc list_ex_iff)
  then show ?case using Cons [of "l @ [take 29 (key_text key)]"] by (simp add: e Let_def)
qed simp

lemma unique_pids_firsts: "get_unique_pid_values es [] = firsts (map (\<lambda>e. take 29 (key_text (fst e))) es)"
  using unique_pids_step [of es "[]"] by (simp add: firsts_def)

text \<open>The text of a key with a command of at most 15 characters fits 30 bytes, so \<^verbatim>\<open>snprintf\<close> does not cut it.\<close>

definition short_command :: "counter_key \<Rightarrow> bool" where
  "short_command key \<longleftrightarrow> length (takeWhile (\<lambda>b. b \<noteq> 0) (key_command key)) \<le> 15"

lemma sint32_bound: "\<bar>sint (w :: 32 word)\<bar> < 10 ^ 10"
proof -
  have "- (2 ^ (LENGTH(32) - 1)) \<le> sint w" by (rule sint_ge)
  moreover have "sint w < 2 ^ (LENGTH(32) - 1)" by (rule sint_lt)
  ultimately show ?thesis by simp
qed

lemma key_text_length: "short_command key \<Longrightarrow> length (key_text key) \<le> 27"
  using dec_int_length [OF sint32_bound, of "key_pid key"] by (simp add: key_text_def c_text_def short_command_def)

lemma take_key_text: "short_command key \<Longrightarrow> take 29 (key_text key) = key_text key"
  using key_text_length [of key] by simp

text \<open>A key as the kernel makes it: the command in 16 bytes, padded with zeros, and a process number that is not
  negative. Such keys differ when their texts or calls differ, since no decimal number contains a hyphen.\<close>

definition proper_key :: "counter_key \<Rightarrow> bool" where
  "proper_key key \<longleftrightarrow> short_command key \<and> 0 \<le> sint (key_pid key) \<and>
     (let cs = takeWhile (\<lambda>b. b \<noteq> 0) (key_command key) in key_command key = cs @ replicate (16 - length cs) 0)"

lemma last_hyphen: "c \<notin> set ys \<Longrightarrow> c \<notin> set ys' \<Longrightarrow> xs @ c # ys = xs' @ c # ys' \<Longrightarrow> xs = xs' \<and> ys = ys'"
proof -
  assume n: "c \<notin> set ys" "c \<notin> set ys'" and e: "xs @ c # ys = xs' @ c # ys'"
  have r: "rev ys @ c # rev xs = rev ys' @ c # rev xs'" using arg_cong [OF e, of rev] by simp
  have "takeWhile (\<lambda>x. x \<noteq> c) (rev zs @ c # us) = rev zs" if "c \<notin> set zs" for zs us
    using that by (subst takeWhile_append2) auto
  then have "ys = ys'" using r n by (metis rev_rev_ident)
  then show ?thesis using e by simp
qed

lemma c_text_inj: "c_text bs = c_text bs' \<Longrightarrow> takeWhile (\<lambda>b. b \<noteq> 0) bs = takeWhile (\<lambda>b. b \<noteq> 0) bs'"
proof -
  assume e: "c_text bs = c_text bs'"
  have "inj (\<lambda>b :: 8 word. char_of (unat b) :: char)"
  proof (rule injI)
    fix a b :: "8 word"
    assume "(char_of (unat a) :: char) = char_of (unat b)"
    then have "(of_char (char_of (unat a)) :: nat) = of_char (char_of (unat b))" by simp
    moreover have "unat a < 2 ^ LENGTH(8)" "unat b < 2 ^ LENGTH(8)" by (rule unsigned_less)+
    ultimately show "a = b" by (simp add: word_unat_eq_iff)
  qed
  then show ?thesis using e unfolding c_text_def by (metis inj_map_eq_map)
qed

lemma key_text_inj:
  assumes "proper_key k" "proper_key k'" and t: "key_text k = key_text k'" and o: "key_op k = key_op k'"
  shows "k = k'"
proof -
  have d: "dec_int (sint (key_pid j)) = dec (nat (sint (key_pid j)))" if "proper_key j" for j
    using that by (simp add: proper_key_def dec_int_nonneg)
  have "c_text (key_command k) = c_text (key_command k') \<and> dec (nat (sint (key_pid k))) = dec (nat (sint (key_pid k')))"
    by (rule last_hyphen [of "CHR ''-''"])
      (use t dec_no_minus in \<open>simp_all add: key_text_def d [OF assms(1)] d [OF assms(2)]\<close>)
  then have c: "c_text (key_command k) = c_text (key_command k')" and p: "sint (key_pid k) = sint (key_pid k')"
    using assms(1,2) by (auto simp: dec_inj proper_key_def)
  have "key_command k = key_command k'"
    using assms(1,2) c_text_inj [OF c] unfolding proper_key_def Let_def by metis
  moreover have "key_pid k = key_pid k'" using p by (rule signed_word_eqI)
  ultimately show ?thesis using o by (cases k; cases k') simp
qed

section \<open>The reference table\<close>

definition cell_value :: "entries \<Rightarrow> string \<Rightarrow> 32 word \<Rightarrow> counter_val" where
  "cell_value es p nr = (case find (\<lambda>e. key_text (fst e) = p \<and> key_op (fst e) = nr) es of Some e \<Rightarrow> snd e | None \<Rightarrow> no_val)"

definition total_of :: "(counter_key \<times> counter_val \<Rightarrow> bool) \<Rightarrow> entries \<Rightarrow> counter_val" where
  "total_of P es = \<lparr>val_calls = sum_list (map (\<lambda>e. val_calls (snd e)) (filter P es)),
     val_bytes = sum_list (map (\<lambda>e. val_bytes (snd e)) (filter P es))\<rparr>"

definition table_text :: "entries \<Rightarrow> string list \<Rightarrow> 32 word list \<Rightarrow> string" where
  "table_text es ps nrs =
     column 30 (''PID'' @ [CHR 0x5C] @ ''OP'') @ concat (map (\<lambda>nr. column 24 (header_text nr)) nrs) @ [CHR 0x0A] @
     replicate (30 + length nrs * 24) CHR ''-'' @ [CHR 0x0A] @
     concat (map (\<lambda>p. column 30 p @ concat (map (\<lambda>nr. column 24 (val_text (cell_value es p nr))) nrs) @ [CHR 0x0A]) ps) @
     replicate (30 + length nrs * 24) CHR ''-'' @ [CHR 0x0A] @
     column 30 ''Total'' @
     concat (map (\<lambda>nr. column 24 (val_text (total_of (\<lambda>e. key_op (fst e) = nr) es))) nrs) @ [CHR 0x0A]"

lemma add_val_simps [simp]:
  "add_val no_val v = v" "add_val v no_val = v" "add_val (add_val a b) c = add_val a (add_val b c)"
  by (simp_all add: add_val_def add.assoc)

abbreviation here :: "string \<Rightarrow> 32 word \<Rightarrow> counter_key \<times> counter_val \<Rightarrow> bool" where
  "here p nr e \<equiv> key_text (fst e) = p \<and> key_op (fst e) = nr"

lemma total_of_Cons: "total_of P (e # es) = (if P e then add_val (snd e) (total_of P es) else total_of P es)"
  by (simp add: total_of_def add_val_def)

lemma cell_total: "snd (cell es p nr (v, t)) = add_val t (total_of (here p nr) es)"
proof (induction es arbitrary: v t)
  case Nil
  then show ?case by (simp add: total_of_def)
next
  case (Cons e es)
  then show ?case by (cases e) (simp add: total_of_Cons)
qed

lemma cell_none: "\<forall>e\<in>set es. \<not> here p nr e \<Longrightarrow> cell es p nr acc = acc"
  by (induction es p nr acc rule: cell.induct) auto

lemma cell_one:
  assumes "distinct (map fst es)" and "\<forall>e\<in>set es. proper_key (fst e)"
  shows "fst (cell es p nr (no_val, t)) = cell_value es p nr"
  using assms
proof (induction es arbitrary: t)
  case Nil
  then show ?case by (simp add: cell_value_def)
next
  case (Cons e es)
  obtain key v where e: "e = (key, v)" by (cases e)
  show ?case
  proof (cases "here p nr e")
    case True
    have "\<not> here p nr e'" if "e' \<in> set es" for e'
    proof
      assume "here p nr e'"
      then have "fst e' = key" using key_text_inj [of "fst e'" key] Cons.prems(2) that True e by auto
      then show False using Cons.prems(1) that e by force
    qed
    then have "cell es p nr (v, add_val t v) = (v, add_val t v)" by (intro cell_none) blast
    then show ?thesis using True by (simp add: e cell_value_def)
  next
    case False
    then have "cell_value (e # es) p nr = cell_value es p nr" by (auto simp: cell_value_def)
    then show ?thesis using False Cons by (auto simp: e)
  qed
qed

lemma row_cells_spec:
  assumes "distinct (map fst es)" and "\<forall>e\<in>set es. proper_key (fst e)"
  shows "i + length nrs \<le> length totals \<Longrightarrow>
    fst (row_cells es p nrs i totals) = concat (map (\<lambda>nr. column 24 (val_text (cell_value es p nr))) nrs) \<and>
    length (snd (row_cells es p nrs i totals)) = length totals \<and>
    (\<forall>j<length totals. snd (row_cells es p nrs i totals) ! j =
      (if i \<le> j \<and> j < i + length nrs then add_val (totals ! j) (total_of (here p (nrs ! (j - i))) es) else totals ! j))"
proof (induction nrs arbitrary: i totals)
  case Nil
  then show ?case by auto
next
  case (Cons nr nrs)
  obtain val tot where c: "cell es p nr (no_val, totals ! i) = (val, tot)" by (cases "cell es p nr (no_val, totals ! i)")
  have v: "val = cell_value es p nr" "tot = add_val (totals ! i) (total_of (here p nr) es)"
    using cell_one [OF assms, of p nr "totals ! i"] cell_total [of es p nr no_val "totals ! i"] c by simp_all
  obtain out tots where r: "row_cells es p nrs (i + 1) (totals[i := tot]) = (out, tots)"
    by (cases "row_cells es p nrs (i + 1) (totals[i := tot])")
  have ih: "out = concat (map (\<lambda>nr. column 24 (val_text (cell_value es p nr))) nrs)" "length tots = length totals"
    "\<And>j. j < length totals \<Longrightarrow> tots ! j = (if i + 1 \<le> j \<and> j < i + 1 + length nrs
       then add_val (totals[i := tot] ! j) (total_of (here p (nrs ! (j - (i + 1)))) es) else totals[i := tot] ! j)"
    using Cons.IH [of "i + 1" "totals[i := tot]"] Cons.prems r by simp_all
  have row: "row_cells es p (nr # nrs) i totals = (column 24 (val_text val) @ out, tots)" using r by (simp add: c)
  have "tots ! j = (if i \<le> j \<and> j < i + length (nr # nrs)
      then add_val (totals ! j) (total_of (here p ((nr # nrs) ! (j - i))) es) else totals ! j)" if j: "j < length totals" for j
  proof (cases "j = i")
    case True
    then show ?thesis using ih(3) [OF j] j v(2) by simp
  next
    case False
    then have "i \<le> j \<longleftrightarrow> i + 1 \<le> j" "i + 1 \<le> j \<Longrightarrow> (nr # nrs) ! (j - i) = nrs ! (j - (i + 1))" by (auto simp: nth_Cons')
    then show ?thesis using ih(3) [OF j] False by auto
  qed
  then show ?case using ih(1,2) v(1) row by simp
qed

lemma table_rows_spec:
  assumes es: "distinct (map fst es)" "\<forall>e\<in>set es. proper_key (fst e)"
  shows "length nrs \<le> length totals \<Longrightarrow>
    fst (table_rows es ps nrs totals) =
      concat (map (\<lambda>p. column 30 p @ concat (map (\<lambda>nr. column 24 (val_text (cell_value es p nr))) nrs) @ [CHR 0x0A]) ps) \<and>
    (\<forall>j<length nrs. snd (table_rows es ps nrs totals) ! j =
      foldl (\<lambda>t p. add_val t (total_of (here p (nrs ! j)) es)) (totals ! j) ps)"
proof (induction ps arbitrary: totals)
  case Nil
  then show ?case by simp
next
  case (Cons p ps)
  obtain cells tots where r: "row_cells es p nrs 0 totals = (cells, tots)" by (cases "row_cells es p nrs 0 totals")
  have row: "cells = concat (map (\<lambda>nr. column 24 (val_text (cell_value es p nr))) nrs)" "length tots = length totals"
    "\<And>j. j < length nrs \<Longrightarrow> tots ! j = add_val (totals ! j) (total_of (here p (nrs ! j)) es)"
    using row_cells_spec [OF es, of 0 nrs totals p] Cons.prems r by simp_all
  obtain out tots' where t: "table_rows es ps nrs tots = (out, tots')" by (cases "table_rows es ps nrs tots")
  have ih: "out = concat (map (\<lambda>p. column 30 p @ concat (map (\<lambda>nr. column 24 (val_text (cell_value es p nr))) nrs) @ [CHR 0x0A]) ps)"
    "\<And>j. j < length nrs \<Longrightarrow> tots' ! j = foldl (\<lambda>t p. add_val t (total_of (here p (nrs ! j)) es)) (tots ! j) ps"
    using Cons.IH [of tots] Cons.prems row(2) t by simp_all
  show ?case using row ih by (simp add: r t)
qed

lemma fold_totals:
  "foldl (\<lambda>t p. add_val t (f p)) t0 ps =
     \<lparr>val_calls = val_calls t0 + sum_list (map (\<lambda>p. val_calls (f p)) ps), val_bytes = val_bytes t0 + sum_list (map (\<lambda>p. val_bytes (f p)) ps)\<rparr>"
  by (induction ps arbitrary: t0) (simp_all add: add_val_def add.assoc)

text \<open>Summing a list group by group.\<close>

lemma sum_groups:
  fixes f :: "'a \<Rightarrow> 'b :: comm_monoid_add"
  assumes "distinct ps" and "\<forall>e\<in>set es. t e \<in> set ps"
  shows "sum_list (map (\<lambda>p. sum_list (map f (filter (\<lambda>e. t e = p \<and> Q e) es))) ps) = sum_list (map f (filter Q es))"
  using assms(2)
proof (induction es)
  case Nil
  then show ?case by (simp add: sum_list_distinct_conv_sum_set [OF assms(1)])
next
  case (Cons e es)
  have split: "sum_list (map f (filter (\<lambda>e. t e = p \<and> Q e) (e # es))) =
      (if p = t e then (if Q e then f e else 0) else 0) + sum_list (map f (filter (\<lambda>e. t e = p \<and> Q e) es))" for p
    by auto
  have "(\<Sum>p\<in>set ps. sum_list (map f (filter (\<lambda>e. t e = p \<and> Q e) (e # es)))) =
      (if Q e then f e else 0) + (\<Sum>p\<in>set ps. sum_list (map f (filter (\<lambda>e. t e = p \<and> Q e) es)))"
    unfolding split sum.distrib using Cons.prems by (simp add: sum.delta)
  then show ?case using Cons.IH Cons.prems by (simp add: sum_list_distinct_conv_sum_set [OF assms(1)])
qed

lemma totals_grouped:
  assumes "distinct ps" and "\<forall>e\<in>set es. key_text (fst e) \<in> set ps"
  shows "foldl (\<lambda>t p. add_val t (total_of (here p nr) es)) no_val ps = total_of (\<lambda>e. key_op (fst e) = nr) es"
  unfolding fold_totals total_of_def
  using sum_groups [OF assms, of "\<lambda>e. val_calls (snd e)" "\<lambda>e. key_op (fst e) = nr"]
    sum_groups [OF assms, of "\<lambda>e. val_bytes (snd e)" "\<lambda>e. key_op (fst e) = nr"] by simp

lemma print_results_table:
  assumes es: "distinct (map fst es)" "\<forall>e\<in>set es. proper_key (fst e)"
    and ps: "distinct ps" "\<forall>e\<in>set es. key_text (fst e) \<in> set ps" and nrs: "length nrs \<le> MAX_OPS"
  shows "print_results es ps nrs = table_text es ps nrs"
proof -
  obtain out totals where t: "table_rows es ps nrs (replicate MAX_OPS no_val) = (out, totals)"
    by (cases "table_rows es ps nrs (replicate MAX_OPS no_val)")
  have rows: "out = concat (map (\<lambda>p. column 30 p @ concat (map (\<lambda>nr. column 24 (val_text (cell_value es p nr))) nrs) @ [CHR 0x0A]) ps)"
    "\<And>j. j < length nrs \<Longrightarrow> totals ! j = total_of (\<lambda>e. key_op (fst e) = nrs ! j) es"
    using table_rows_spec [OF es, of nrs "replicate MAX_OPS no_val" ps] nrs t totals_grouped [OF ps] by simp_all
  have "map (\<lambda>i. column 24 (val_text (totals ! i))) [0..<length nrs] =
      map (\<lambda>i. column 24 (val_text (total_of (\<lambda>e. key_op (fst e) = nrs ! i) es))) [0..<length nrs]"
    by (rule map_cong) (simp_all add: rows(2))
  also have "\<dots> = map (\<lambda>nr. column 24 (val_text (total_of (\<lambda>e. key_op (fst e) = nr) es))) nrs"
    by (rule nth_equalityI) simp_all
  finally show ?thesis by (simp add: print_results_def table_text_def Let_def t rows(1))
qed

section \<open>From the calls to the table\<close>

text \<open>The kernel passes each tracepoint the number of its own system call (x86-64).\<close>

fun documented :: "counter_call \<Rightarrow> bool" where
  "documented (Ctr_openat nr name) \<longleftrightarrow> nr = 257"
| "documented (Ctr_write nr fd buf n) \<longleftrightarrow> nr = 1"
| "documented (Ctr_pwrite64 nr fd buf n) \<longleftrightarrow> nr = 18"
| "documented (Ctr_read nr fd buf n) \<longleftrightarrow> nr = 0"
| "documented (Ctr_pread64 nr fd buf n) \<longleftrightarrow> nr = 17"
| "documented (Ctr_close nr fd) \<longleftrightarrow> nr = 3"
| "documented (Ctr_fork p q) \<longleftrightarrow> True"

definition documented_run :: "counter_trace \<Rightarrow> bool" where
  "documented_run cs \<longleftrightarrow> (\<forall>(k, c)\<in>set cs. documented c \<and>
     proper_key \<lparr>key_command = comm k, key_pid = current_pid k, key_op = 0\<rparr>)"

definition call_numbers :: "32 word list" where
  "call_numbers = [0, 1, 3, 17, 18, 257]"

lemma proper_key_op [simp]: "proper_key (key\<lparr>key_op := nr\<rparr>) = proper_key key"
  by (simp add: proper_key_def short_command_def)

lemma counted_proper:
  assumes "counted k s c = Some (key, n)" and "documented c"
    and "proper_key \<lparr>key_command = comm k, key_pid = current_pid k, key_op = 0\<rparr>"
  shows "key_op key \<in> set call_numbers \<and> proper_key key"
proof
  from assms(1) obtain nr where nr: "countable k c = Some (nr, n)"
    and key: "key = \<lparr>key_command = comm k, key_pid = current_pid k, key_op = ucast nr\<rparr>"
    by (auto simp: counted_def split: if_splits)
  have "nr \<in> {0, 1, 3, 17, 18, 257}" using nr assms(2) by (cases c) (auto split: if_splits)
  then show "key_op key \<in> set call_numbers" by (auto simp: key call_numbers_def)
  have "key = \<lparr>key_command = comm k, key_pid = current_pid k, key_op = 0\<rparr>\<lparr>key_op := ucast nr\<rparr>" by (simp add: key)
  then show "proper_key key" using assms(3) proper_key_op by metis
qed

lemma counted_calls_proper:
  assumes "documented_run cs" and "e \<in> set (counted_calls cs s)"
  shows "key_op (fst e) \<in> set call_numbers \<and> proper_key (fst e)"
  using assms
proof (induction cs arbitrary: s)
  case (Cons kc cs)
  obtain k c where kc: "kc = (k, c)" by (cases kc)
  have d: "documented_run cs" "documented c" "proper_key \<lparr>key_command = comm k, key_pid = current_pid k, key_op = 0\<rparr>"
    using Cons.prems(1) by (simp_all add: documented_run_def kc)
  show ?case
  proof (cases "e \<in> set (counted_calls cs (snd (ctr_fire k c s)))")
    case True
    then show ?thesis by (rule Cons.IH [OF d(1)])
  next
    case False
    then have "counted k s c = Some e" using Cons.prems(2) by (cases "counted k s c") (auto simp: kc)
    then show ?thesis using counted_proper [of k s c "fst e" "snd e"] d by simp
  qed
qed simp

text \<open>The entries that the walk finds after a run from an empty map.\<close>

definition entries_of :: "(counter_key \<times> 64 word) list \<Rightarrow> counter_key list \<Rightarrow> entries" where
  "entries_of l ks = map (\<lambda>key. (key, tally l key)) ks"

lemma entries_of_keys: "map fst (entries_of l ks) = ks"
  by (simp add: entries_of_def comp_def)

lemma walk_entries:
  assumes "counter s = []" and l: "l = counted_calls cs s" and m: "m = counter (ctr_run cs s)"
    and w: "walks next_key ks" "set ks = fst ` set m"
  shows "get_values_from_counter_map next_key m =
      Some (if l = [] then [''Map is empty'' @ [CHR 0x0A]] else [], entries_of l ks)"
    and "set ks = set (take counter_max (firsts (map fst l)))"
proof -
  have mm: "m = map (\<lambda>key. (key, tally l key)) (take counter_max (firsts (map fst l)))"
    unfolding m ctr_run_counts assms(1) l [symmetric] by (rule count_all_first)
  then show ks: "set ks = set (take counter_max (firsts (map fst l)))" using w(2) by (simp add: image_image)
  have "map (\<lambda>k. (k, the (map_of m k))) ks = entries_of l ks"
    unfolding entries_of_def mm by (rule map_cong) (simp_all add: map_of_keys ks)
  moreover have "ks = [] \<longleftrightarrow> l = []"
  proof -
    have "ks = [] \<longleftrightarrow> take counter_max (firsts (map fst l)) = []" using ks by (metis set_empty)
    also have "\<dots> \<longleftrightarrow> firsts (map fst l) = []" by (simp add: counter_max_def MAX_PIDS_def)
    also have "\<dots> \<longleftrightarrow> l = []" by (metis set_empty set_firsts map_is_Nil_conv)
    finally show ?thesis .
  qed
  ultimately show "get_values_from_counter_map next_key m =
      Some (if l = [] then [''Map is empty'' @ [CHR 0x0A]] else [], entries_of l ks)"
    using get_values_walk [OF w] by simp
qed

lemma ops_bound:
  assumes "\<forall>e\<in>set es. key_op (fst e) \<in> set call_numbers"
  shows "length (get_unique_op_values es []) \<le> MAX_OPS"
proof -
  have "set (get_unique_op_values es []) \<subseteq> set call_numbers" using assms by (auto simp: unique_ops_firsts)
  then have "card (set (get_unique_op_values es [])) \<le> card (set call_numbers)" by (rule card_mono [rotated]) simp
  also have "\<dots> \<le> 6" by (rule order_trans [OF card_length]) (simp add: call_numbers_def)
  finally show ?thesis using distinct_card [of "get_unique_op_values es []"] by (simp add: unique_ops_firsts MAX_OPS_def)
qed

lemma firsts_length: "length (firsts xs) \<le> length xs"
  by (simp add: firsts_def) (metis length_remdups_leq length_rev)

lemma table_of_entries:
  assumes "distinct ks" and "\<forall>e\<in>set (entries_of l ks). key_op (fst e) \<in> set call_numbers \<and> proper_key (fst e)"
  shows "print_results (entries_of l ks) (get_unique_pid_values (entries_of l ks) []) (get_unique_op_values (entries_of l ks) []) =
    table_text (entries_of l ks) (firsts (map key_text ks)) (firsts (map key_op ks))"
proof -
  let ?es = "entries_of l ks"
  have k: "proper_key key" if "key \<in> set ks" for key using assms(2) that by (simp add: entries_of_def)
  have p: "get_unique_pid_values ?es [] = firsts (map key_text ks)"
  proof -
    have "map (\<lambda>e. take 29 (key_text (fst e))) ?es = map key_text ks"
      using k take_key_text by (simp add: entries_of_def proper_key_def)
    then show ?thesis by (simp add: unique_pids_firsts)
  qed
  have o: "get_unique_op_values ?es [] = firsts (map key_op ks)"
    by (simp add: unique_ops_firsts entries_of_def comp_def)
  have "print_results ?es (firsts (map key_text ks)) (firsts (map key_op ks)) =
      table_text ?es (firsts (map key_text ks)) (firsts (map key_op ks))"
  proof (rule print_results_table)
    show "distinct (map fst ?es)" using assms(1) by (simp add: entries_of_keys)
    show "length (firsts (map key_op ks)) \<le> MAX_OPS" using ops_bound [of ?es] assms(2) o by simp
  qed (use assms(2) in \<open>auto simp: entries_of_def\<close>)
  then show ?thesis by (simp only: p o)
qed

lemma entries_total:
  assumes "distinct ks" and "set ks = set (map fst l)"
  shows "total_of (\<lambda>e. key_op (fst e) = nr) (entries_of l ks) =
    \<lparr>val_calls = of_nat (length (filter (\<lambda>e. key_op (fst e) = nr) l)), val_bytes = sum_list (map snd (filter (\<lambda>e. key_op (fst e) = nr) l))\<rparr>"
proof -
  let ?qs = "filter (\<lambda>key. key_op key = nr) ks"
  have f: "filter (\<lambda>e. key_op (fst e) = nr) (entries_of l ks) = entries_of l ?qs"
    by (simp add: entries_of_def filter_map comp_def)
  have g: "sum_list (map (\<lambda>q. sum_list (map h (filter (\<lambda>e. fst e = q) l))) ?qs) = sum_list (map h (filter (\<lambda>e. key_op (fst e) = nr) l))"
    for h :: "counter_key \<times> 64 word \<Rightarrow> 64 word"
  proof -
    let ?l = "filter (\<lambda>e. key_op (fst e) = nr) l"
    have S: "sum_list (map (\<lambda>q. sum_list (map h (filter (\<lambda>e. fst e = q \<and> True) ?l))) ?qs) = sum_list (map h (filter (\<lambda>e. True) ?l))"
    proof (rule sum_groups)
      show "distinct ?qs" using assms(1) by simp
      show "\<forall>e\<in>set ?l. fst e \<in> set ?qs" using assms(2) by auto
    qed
    have fil: "filter (\<lambda>e. fst e = q \<and> True) ?l = filter (\<lambda>e. fst e = q) l" if "q \<in> set ?qs" for q
      using that by (auto intro: filter_cong)
    have M: "map (\<lambda>q. sum_list (map h (filter (\<lambda>e. fst e = q \<and> True) ?l))) ?qs = map (\<lambda>q. sum_list (map h (filter (\<lambda>e. fst e = q) l))) ?qs"
      by (rule map_cong [OF refl]) (simp only: fil)
    show ?thesis using S unfolding M by simp
  qed
  have "val_calls (tally l q) = sum_list (map (\<lambda>_. 1) (filter (\<lambda>e. fst e = q) l))" for q
    by (simp add: tally_def sum_list_triv)
  moreover have "val_bytes (tally l q) = sum_list (map snd (filter (\<lambda>e. fst e = q) l))" for q
    by (simp add: tally_def)
  ultimately show ?thesis
    unfolding total_of_def f using g [of "\<lambda>_. 1"] g [of snd]
    by (simp add: entries_of_def comp_def sum_list_triv)
qed

section \<open>Properties\<close>

text \<open>C38. Reading the counters ends and finds each exactly once: when \<^verbatim>\<open>bpf_map__get_next_key\<close> walks over the keys
  of the map, the loop returns every key with its value, in the order of the walk, and at most 100 entries,
  so the arrays of 600 are never overrun.\<close>

theorem get_values_complete:
  assumes "walks next_key ks" and "distinct ks" and "set ks = fst ` set m" and "hash_ok counter_max m"
  shows "\<exists>msg. get_values_from_counter_map next_key m = Some (msg, map (\<lambda>k. (k, the (map_of m k))) ks) \<and>
    length ks \<le> counter_max \<and> length ks \<le> MAX_PIDS * MAX_OPS"
proof -
  have "length ks = card (fst ` set m)" using assms(2,3) by (metis distinct_card)
  also have "\<dots> \<le> length m" by (metis card_length length_map set_map)
  finally have "length ks \<le> counter_max" using assms(4) by (simp add: hash_ok_def)
  then show ?thesis using get_values_walk [OF assms(1,3)] by (auto simp: counter_max_def MAX_PIDS_def MAX_OPS_def)
qed

text \<open>A walk in the order of a given list.\<close>

definition list_walk :: "counter_key list \<Rightarrow> counter_key option \<Rightarrow> counter_key option" where
  "list_walk ks prev = (case prev of
      None \<Rightarrow> (case ks of [] \<Rightarrow> None | k # _ \<Rightarrow> Some k)
    | Some k \<Rightarrow> map_of (zip ks (tl ks)) k)"

definition demo_keys :: "counter_key list" where
  "demo_keys = [demo_key 3, demo_key 1]"

lemma demo_walk: "walks (list_walk demo_keys) demo_keys"
  by (auto simp: walks_def list_walk_def demo_keys_def less_Suc_eq nth_Cons')

theorem get_values_complete_witness:
  "\<exists>msg. get_values_from_counter_map (list_walk demo_keys) (map (\<lambda>k. (k, no_val)) demo_keys) =
     Some (msg, map (\<lambda>k. (k, the (map_of (map (\<lambda>k. (k, no_val)) demo_keys) k))) demo_keys) \<and>
     length demo_keys \<le> counter_max \<and> length demo_keys \<le> MAX_PIDS * MAX_OPS"
  by (rule get_values_complete [OF demo_walk])
    (auto simp: demo_keys_def hash_ok_def counter_max_def MAX_PIDS_def)

text \<open>C39. The table is right: from the calls probed to the printed text. If the kernel numbers the calls as it
  does and passes proper commands, the program prints, after the walk over the map, one row for each process
  and one column for each call that was counted, each cell the calls and bytes of that process and call.\<close>

theorem syscounter_prints_counts:
  assumes "counter s = []" and "c_open_ok env" "c_attach_err env = 0"
    and "ctr_add_pids (c_args env) s = (out, s1)" and "l = counted_calls (c_seen env) s1" and "documented_run (c_seen env)"
    and "walks (c_next_key env (counter (ctr_run (c_seen env) s1))) ks" "distinct ks"
      "set ks = fst ` set (counter (ctr_run (c_seen env) s1))"
  shows "syscounter_main env s = Some \<lparr>c_printed = (if c_args env = [] then [''usage: ./syscounter <pid>''] else []) @ out @
      [''Successfully started! Press Ctrl-C or kill to stop and print results.'' @ [CHR 0x0A], [CHR 0x0A]] @
      (if l = [] then [''Map is empty'' @ [CHR 0x0A]]
       else [table_text (entries_of l ks) (firsts (map key_text ks)) (firsts (map key_op ks))]),
      c_errors = [], c_destroyed = 1, c_status = Some 0\<rparr>"
proof -
  have s1: "counter s1 = []"
  proof -
    have "counter (snd (ctr_add_pids as t)) = counter t" for as t
      by (induction as t rule: ctr_add_pids.induct) (simp_all add: Let_def split_beta)
    from this [of "c_args env" s] show ?thesis using assms(1,4) by simp
  qed
  note w = walk_entries [OF s1 assms(5) refl assms(7,9)]
  have "e \<in> set (entries_of l ks) \<Longrightarrow> fst e \<in> fst ` set l" for e
    using w(2) set_take_subset [of counter_max "firsts (map fst l)"] by (auto simp: entries_of_def)
  then have "\<forall>e\<in>set (entries_of l ks). key_op (fst e) \<in> set call_numbers \<and> proper_key (fst e)"
    using counted_calls_proper [OF assms(6)] assms(5) by (metis imageE)
  from table_of_entries [OF assms(8) this]
  have t: "print_results (entries_of l ks) (get_unique_pid_values (entries_of l ks) []) (get_unique_op_values (entries_of l ks) []) =
    table_text (entries_of l ks) (firsts (map key_text ks)) (firsts (map key_op ks))" .
  have e: "entries_of l ks = [] \<longleftrightarrow> l = []"
  proof -
    have "ks = [] \<longleftrightarrow> take counter_max (firsts (map fst l)) = []" using w(2) by (metis set_empty)
    also have "\<dots> \<longleftrightarrow> l = []" by (simp add: counter_max_def MAX_PIDS_def) (metis set_empty set_firsts map_is_Nil_conv)
    finally show ?thesis by (simp add: entries_of_def)
  qed
  show ?thesis
    unfolding syscounter_main_def Let_def assms(4) prod.case w(1) option.case t e using assms(2,3) by simp
qed

text \<open>The Total row is right as long as the map had room: with at most 100 distinct keys, the total of a
  call is the number of all its counted calls, and the sum of the bytes they asked for, modulo $2^{64}$.\<close>

theorem syscounter_totals:
  assumes "distinct ks" and "set ks = set (take counter_max (firsts (map fst l)))"
    and "length (firsts (map fst l)) \<le> counter_max"
  shows "total_of (\<lambda>e. key_op (fst e) = nr) (entries_of l ks) =
    \<lparr>val_calls = of_nat (length (filter (\<lambda>e. key_op (fst e) = nr) l)), val_bytes = sum_list (map snd (filter (\<lambda>e. key_op (fst e) = nr) l))\<rparr>"
  by (rule entries_total [OF assms(1)]) (use assms(2,3) in simp)

theorem syscounter_totals_witness:
  "total_of (\<lambda>e. key_op (fst e) = 1) (entries_of (counted_calls demo_counter_trace demo_counter) demo_keys) =
    \<lparr>val_calls = 2, val_bytes = 120\<rparr>"
proof -
  let ?l = "counted_calls demo_counter_trace demo_counter"
  have "distinct demo_keys" "set demo_keys = set (take counter_max (firsts (map fst ?l)))"
    "length (firsts (map fst ?l)) \<le> counter_max"
    unfolding demo_counted by (auto simp: demo_keys_def firsts_def counter_max_def MAX_PIDS_def)
  then show ?thesis using syscounter_totals [of demo_keys ?l 1] unfolding demo_counted by simp
qed

definition demo_counter_env :: counter_env where
  "demo_counter_env = \<lparr>c_args = [''7''], c_open_ok = True, c_attach_err = 0, c_seen = demo_counter_trace,
     c_next_key = (\<lambda>_. list_walk demo_keys)\<rparr>"

lemma demo_counter_start: "ctr_add_pids (c_args demo_counter_env) (demo_counter\<lparr>ctr_config := []\<rparr>) = ([''Tracing Pid 7'' @ [CHR 0x0A]], demo_counter)"
proof -
  have d: "dec 7 = ''7''" by (simp add: dec.simps digit_def char_of_def bit_0)
  then have "atoi ''7'' = 7" using atoi_dec [of 7] by simp
  moreover have "dec_int 7 = ''7''" using d by (simp add: dec_int_def)
  ultimately show ?thesis
    by (simp add: demo_counter_env_def demo_counter_def hash_update_def MAX_PIDS_def Let_def)
qed

lemma demo_documented: "documented_run demo_counter_trace"
proof -
  have "current_pid (demo_ctr_kernel p) = p" "comm (demo_ctr_kernel p) = demo_comm" for p
    by (simp add: current_pid_def demo_ctr_kernel_def, rule bit_word_eqI) (simp_all add: bit_simps demo_ctr_kernel_def)
  then show ?thesis
    by (auto simp: documented_run_def demo_counter_trace_def proper_key_def short_command_def demo_comm_def Let_def)
qed

theorem syscounter_prints_counts_witness:
  "\<exists>t. syscounter_main demo_counter_env (demo_counter\<lparr>ctr_config := []\<rparr>) = Some \<lparr>c_printed = [''Tracing Pid 7'' @ [CHR 0x0A],
      ''Successfully started! Press Ctrl-C or kill to stop and print results.'' @ [CHR 0x0A], [CHR 0x0A], t],
      c_errors = [], c_destroyed = 1, c_status = Some 0\<rparr>"
proof -
  let ?s = "demo_counter\<lparr>ctr_config := []\<rparr>" and ?env = demo_counter_env
  have seen: "c_seen ?env = demo_counter_trace" "c_next_key ?env = (\<lambda>_. list_walk demo_keys)" "c_args ?env \<noteq> []"
    by (simp_all add: demo_counter_env_def)
  have r: "fst ` set (counter (ctr_run demo_counter_trace demo_counter)) = set demo_keys"
  proof -
    have "counter (ctr_run demo_counter_trace demo_counter) = count_all [(demo_key 1, 100), (demo_key 3, 0), (demo_key 1, 20)] []"
      using ctr_run_counts [of demo_counter_trace demo_counter] demo_counted by (simp add: demo_counter_def)
    then show ?thesis
      by (simp add: count_all_first) (auto simp: firsts_def counter_max_def MAX_PIDS_def demo_keys_def)
  qed
  have ok: "counter ?s = []" "c_open_ok ?env" "c_attach_err ?env = 0" by (simp_all add: demo_counter_def demo_counter_env_def)
  have doc: "documented_run (c_seen ?env)" unfolding seen by (rule demo_documented)
  have w: "walks (c_next_key ?env (counter (ctr_run (c_seen ?env) demo_counter))) demo_keys" "distinct demo_keys"
    "set demo_keys = fst ` set (counter (ctr_run (c_seen ?env) demo_counter))"
    unfolding seen r using demo_walk by (simp_all add: demo_keys_def)
  show ?thesis
    using syscounter_prints_counts [OF ok demo_counter_start refl doc w] seen demo_counted by simp
qed


text \<open>No array of the program overflows: after any run there are at most 6 distinct calls and 100 distinct
  processes, and the texts of keys, column heads and cells fit the 30 and 64 bytes they are printed into.\<close>

theorem syscounter_bounds:
  assumes "counter s = []" and "documented_run cs" and "es = counter (ctr_run cs s)"
  shows "length (get_unique_op_values es []) \<le> MAX_OPS \<and> length (get_unique_pid_values es []) \<le> MAX_PIDS \<and>
    (\<forall>e\<in>set es. length (key_text (fst e)) < 30 \<and> length (header_text (key_op (fst e))) < 64 \<and> length (val_text (snd e)) < 64)"
proof -
  let ?ks = "take counter_max (firsts (map fst (counted_calls cs s)))"
  have es: "es = entries_of (counted_calls cs s) ?ks"
    unfolding assms(3) ctr_run_counts assms(1) entries_of_def by (rule count_all_first)
  have k: "key_op (fst e) \<in> set call_numbers \<and> proper_key (fst e)" if "e \<in> set es" for e
  proof -
    have "fst e \<in> set ?ks" using that by (auto simp: es entries_of_def)
    then have "fst e \<in> fst ` set (counted_calls cs s)" by (metis in_set_takeD set_firsts set_map)
    then show ?thesis using counted_calls_proper [OF assms(2)] by (metis imageE)
  qed
  have "length es \<le> MAX_PIDS" by (simp add: es entries_of_def counter_max_def)
  then have "length (get_unique_pid_values es []) \<le> MAX_PIDS"
    using firsts_length [of "map (\<lambda>e. take 29 (key_text (fst e))) es"] by (simp add: unique_pids_firsts)
  moreover have "length (key_text (fst e)) < 30" if "e \<in> set es" for e
    using key_text_length [of "fst e"] k [OF that] by (simp add: proper_key_def)
  moreover have "length (header_text nr) < 64" for nr
    using resolve_length [of "sint nr"] by (simp add: header_text_def resolve_equal)
  moreover have "length (val_text v) < 64" for v
    using dec_unat_length [of "val_calls v"] dec_unat_length [of "val_bytes v"] by (simp add: val_text_def)
  ultimately show ?thesis using ops_bound [of es] k by blast
qed

theorem syscounter_bounds_witness:
  "length (get_unique_op_values (counter (ctr_run demo_counter_trace demo_counter)) []) \<le> MAX_OPS"
  using syscounter_bounds [of demo_counter demo_counter_trace, OF _ demo_documented refl] by (simp add: demo_counter_def)

end
