(* ===== verification/Spec2Isabelle.thy ===== *)
theory Spec2Isabelle
  imports Store_Service Handler_Sound Dedup_Faults Ticket_RWLock Fuse_Replies Direct_IO Systracer_User Syscounter_User
begin

text \<open>
  Projeto_TSO: a deduplicating FUSE file system, the plain file system it was made from, and two eBPF monitors that
  measure them. This development models the C code of all four programs and proves what they promise. This file holds the
  main theorem about the store and its instance; each other theory opens with a description of its own.

  \<^bold>\<open>The programs and the theories.\<close>

  \<^item> \<^verbatim>\<open>codededup/\<close>, the deduplicating file system. A file is a list of pointers to blocks of 4096 bytes, a block is stored
    once for all files and known by its SHA-512 digest, a reference counter says when its slot of the data file
    \<^verbatim>\<open>/backend/.sysdata\<close> is free again, and the tables are saved to \<^verbatim>\<open>/backend/.metadata\<close> on unmount and loaded on mount.
    \<open>MetaInfo\<close> is \<^verbatim>\<open>metaInfo.c\<close> (records, hash and equality of the block index); \<open>Store_State\<close> is the \<^verbatim>\<open>Context\<close> of
    \<^verbatim>\<open>passthrough.c\<close>, the external functions and the invariants; \<open>Dedup_Write\<close>, \<open>Dedup_Write_Phases\<close> and
    \<open>Dedup_Write_Spec\<close> are \<^verbatim>\<open>xmp_write\<close>, \<open>Dedup_Read\<close> is \<^verbatim>\<open>xmp_read\<close>, \<open>Dedup_Unlink\<close> is \<^verbatim>\<open>xmp_unlink\<close>, \<open>Persistence\<close> is
    \<^verbatim>\<open>persistance.c\<close> with \<^verbatim>\<open>xmp_init\<close> and \<^verbatim>\<open>xmp_destroy\<close>, \<open>Passthrough_Ops\<close> holds the other handlers and \<^verbatim>\<open>main\<close>;
    \<open>Store_Service\<close> puts the handlers of the store together, \<open>Dedup_Faults\<close> says what a failing device leaves behind.
    \<open>Ticket_RWLock\<close> is \<^verbatim>\<open>ticket_rwlock.c\<close>, the lock they take. \<open>Threads\<close> has programs that run side by side and take such
    locks, \<open>Ticket_Threads\<close> the same over the code of the lock, \<open>Handler_Threads\<close> the handlers of the store as such programs, lock by lock; \<open>Handler_Alone\<close> compares them with the
    handlers as one step each, and \<open>Handler_Races\<close> shows what can go wrong between them. \<open>Thread_Proofs\<close> has proofs of what such
    programs do to the state they share; \<open>Handler_Invariant\<close>, \<open>Handler_Steps\<close>, \<open>Handler_Safety\<close> and \<open>Handler_Sound\<close> use them
    for what cannot go wrong.
  \<^item> \<^verbatim>\<open>codebase/skeleton/\<close>, the file system without deduplication: \<open>Skeleton\<close>, with \<open>Direct_IO\<close> for its reads and writes.
    \<open>Posix\<close> is the system interface of both file systems, \<open>Fuse_Handlers\<close> their tables of operations and what holds
    of the open descriptors, \<open>Fuse_Replies\<close> the comparison of their answers and the reporting of errors.
  \<^item> \<^verbatim>\<open>systracer/\<close>, the tracer: \<open>XXHash\<close> is \<^verbatim>\<open>hash.h\<close>, \<open>Systracer\<close> the eBPF program \<^verbatim>\<open>systracer.bpf.c\<close>, \<open>Systracer_User\<close> the
    user side \<^verbatim>\<open>systracer.c\<close>, \<open>Syscalls_Table\<close> both tables of system calls.
  \<^item> \<^verbatim>\<open>syscounter/\<close>, the counter: \<open>Syscounter\<close> is \<^verbatim>\<open>syscounter.bpf.c\<close>, \<open>Syscounter_User\<close> is \<^verbatim>\<open>syscounter.c\<close>. \<open>BPF_Kernel\<close> is what
    both eBPF programs use of the kernel, \<open>C_Text\<close> what both user sides use of the C library to print.
  \<^item> \<open>Prelude\<close> holds the C integer conversions, blocks and byte encodings. \<open>Demo_OS\<close>, \<open>Demo_Store\<close> and \<open>Demo_Posix\<close> are
    concrete systems on which the theorems are evaluated.

  Definitions have the names of the C functions; where two programs share a name, the skeleton's are prefixed with
  \<open>skel_\<close> and the counter's with \<open>ctr_\<close>. Each part of a long function has a definition of its own, and the function composes them.

  \<^bold>\<open>How state and effects are modelled.\<close> A handler of the store is a function from the \<open>Context\<close> to an optional result and
  new context, where None is undefined behaviour of C (use of freed memory, an index out of an array). The kernel is a
  parameter: \<open>'k os\<close> and \<open>'k posix\<close> bundle the system calls as functions of its state, and every theorem quantifies over
  them under a contract of documented behaviour (\<open>os_ok\<close>, \<open>io_ok\<close>, \<open>fd_contract\<close>, \<open>value_contract\<close>, \<open>direct_contract\<close>).
  The handlers that only pass requests on are actions of the state monad over kernel and \<^verbatim>\<open>errno\<close>. The ticket lock is a
  step relation over a list of threads. A handler as a thread is a tree of lock operations and of the stretches of code between
  them; a system has one for every thread, the state they share and the locks,
  which are queues (\<open>Threads\<close>) or the records of the C code (\<open>Ticket_Threads\<close>). The probes are functions of a \<open>kernel\<close> record; a run is the list of the calls
  probed. Integers are words of their width, or integers with the conversions of \<open>Prelude\<close> written out.

  \<^bold>\<open>What is proved.\<close>

  \<^item> The store. \<open>store_refines_files\<close> (below): a sequence of writes, reads, unlinks and remounts is answered as by a file system
    whose files are byte lists. It rests on the contracts of the handlers (\<open>xmp_write_appends\<close>, \<open>xmp_read_returns_data\<close>,
    \<open>xmp_unlink_removes\<close>, \<open>remount_preserves_files\<close>) through the locale \<open>service\<close>. Memory safety holds without any
    assumption on errors: \<open>xmp_write_mem_safe\<close>, \<open>xmp_read_safe\<close>, \<open>xmp_unlink_safe\<close>, \<open>remount_after_cut_safe\<close>. Space:
    \<open>xmp_write_dedup\<close>, \<open>xmp_unlink_reclaims\<close>, \<open>xmp_write_space\<close>. Success and refusal: \<open>xmp_write_succeeds\<close>,
    \<open>xmp_read_succeeds\<close>, \<open>xmp_write_rejects\<close>. \<open>block_index_lookup_complete\<close> is the contract of the hash table's keys.
    \<open>failed_write_poisons\<close>: after a write that failed, the same contents are reported as stored and are not.
  \<^item> The handlers as threads. \<open>handlers_lock_ordered\<close>: they keep to one order of the locks, whatever the state. From it, through
    the locale \<open>disciplined\<close>, \<open>handlers_finish\<close>: no deadlock, and every run of any number of worker threads ends.
    \<open>handlers_over_ticket_locks\<close>: so it is with the locks of \<^verbatim>\<open>ticket_rwlock.c\<close> in the place of abstract queues.
    \<open>handlers_run_alone\<close>: by itself a handler does what its definition as one step says, so the theorems on the store hold of it.
    \<open>dedup_read_race\<close> and \<open>write_unlink_race\<close>: between threads they do not, because a block is in the index
    before it is stored, and because a write lets go of the file index before it locks the file. \<open>handlers_memory_safe\<close>: that
    gap apart, no interleaving uses freed memory or leaves the tables inconsistent; any number of workers serve any requests of which
    none writes a path that another unlinks. \<open>handlers_answer_all\<close>: so it is over the code of the locks, and all are answered.
    Both rest on an invariant of the store and of what each thread has recorded of it (\<open>consistent\<close>), through the locale
    \<open>preserving\<close>.
  \<^item> The lock. \<open>rwlock_refines_fifo\<close>, \<open>rwlock_fifo_order\<close>, \<open>rwlock_mutual_exclusion\<close>, through the locale \<open>simulation\<close>; and
    \<open>rwlock_progress\<close>: no wakeup is lost.
  \<^item> The handlers that pass on. \<open>dedup_serves_as_skeleton\<close>, \<open>handlers_keep_descriptors\<close>, \<open>handlers_report_errno\<close>,
    \<open>skeleton_reads_back_writes\<close>.
  \<^item> The monitors. \<open>xxhash32_is_xxh32\<close>, \<open>systracer_probe_correct\<close>, \<open>systracer_accounts_for_all\<close>, \<open>systracer_traces_family\<close>,
    \<open>systracer_layers_agree\<close>, \<open>systracer_prints_reports\<close>, \<open>event_handler_defined\<close>, \<open>systracer_start_errors\<close>,
    \<open>syscounter_probe_correct\<close>, \<open>syscounter_counts\<close>, \<open>update_counter_race\<close>, \<open>get_values_complete\<close>,
    \<open>syscounter_prints_counts\<close>, \<open>syscounter_totals\<close>, \<open>syscounter_bounds\<close>, \<open>resolve_syscall_correct\<close>. The maps of both eBPF
    programs are instances of the locale \<open>bounded_map\<close>.

  \<^bold>\<open>Bounds and fuel.\<close> No definition runs on fuel. Loops are structural recursion or have a measure; the walk over the map of
  counters, which libbpf could prolong for ever, is a partial function, and \<open>get_values_complete\<close> shows that it ends. The
  guards \<open>write_room\<close>, \<open>read_fits\<close>, \<open>counters_fit\<close> and \<open>persist_fits\<close> say that sizes, counters and offsets fit the types that the C
  code keeps them in: requests below 2 GiB, fewer than 2^31 references to a block, offsets below 2^63. For threads \<open>request_fits\<close> and
  \<open>in_bounds\<close> ask the same of all requests together.

  \<^bold>\<open>Not modelled.\<close> Between two lock operations a handler runs undisturbed, a system call or a turn of an I/O loop at a
  time: what it touches there is guarded by the locks it holds, except objects that another thread has freed, which the model
  reports. The two mutexes are modelled by the same fair lock as the others. The locks that libfuse takes on paths before it
  calls a handler are not part of the source and not relied on: they may keep a write and an unlink of one path apart. For every
  interleaving memory safety and the soundness of the tables are proved; what the bytes of the files are is proved for
  handlers one after the other only, since between threads it does not hold. \<^verbatim>\<open>ticket_rwlock_destroy\<close>, the destructors
  of the tables and the messages the file systems print have no effect in the model. The branch of \<^verbatim>\<open>mknod_wrapper\<close> for
  FreeBSD is not compiled on Linux. Generated files (\<^verbatim>\<open>vmlinux.h\<close>: types of the running kernel; \<^verbatim>\<open>*.skel.h\<close>: the compiled
  eBPF programs as bytes) contain no logic of the project. The Python scripts that tabulate results, the benchmark
  scripts and the build files are not part of the programs. FUSE, libbpf, GLib, OpenSSL and the kernel are parameters.
\<close>


text \<open>C1. The deduplicating store is a file system: any sequence of writes, reads, unlinks and remounts that starts on a
  consistent store is served to the end, every answer is one that \<open>fs_step\<close> promises for files that are plain
  lists of bytes, and the files seen afterwards are the promised ones. No deduplicated, freed, reused or reloaded block
  ever shows through. The device is steady, the blocks involved do not collide under SHA-512, and the sizes stay in
  the ranges of the C types.\<close>

theorem store_refines_files:
  assumes "store_ok E view c" and "steady E view" and "all_fit (store_op E) op_fits ops c"
    and "inj_on (sha512 E) (fs_blocks (abs_fs view c) \<union> (\<Union>op \<in> set ops. op_blocks op))"
  shows "\<exists>rs c'. run_ops (store_op E) ops c = Some (rs, c') \<and> spec_run fs_step (abs_fs view c) ops rs (abs_fs view c') \<and>
    store_ok E view c'"
  using assms by (rule store_refines)

lemma demo_steady: "steady steady_os dk_view"
proof -
  have "\<exists>b. fst (demo_pread fd n off k) = SysOk b" for fd n off k
    by (cases "dk_view k off") (simp_all add: demo_pread_def)
  then show ?thesis
    by (auto simp: steady_def demo_io_ok(2)) (auto simp: steady_os_def demo_os_simps demo_pwrite_def demo_os_def)
qed

lemma demo_filled_steady: "store_ok steady_os dk_view demo_filled"
  using demo_filled_ok(1) by (simp add: store_ok_def content_ok_def steady_os_def)

lemma demo_unlink_filled:
  "\<exists>c'. xmp_unlink steady_os ''/f'' (demo_filled\<lparr>kern := k\<rparr>) = Some (0, c') \<and> freeList c' = [0, 4096] \<and> heap c' = Map.empty \<and>
     fileIndex c' = Map.empty \<and> next_free_offset c' = 8192"
  by (simp add: xmp_unlink_def Let_def demo_os_simps demo_filled_state release_block_def s32_def steady_os_def)

text \<open>A read, an unlink and a remount of the store that holds \<^verbatim>\<open>/f\<close>.\<close>

lemma demo_history_fits:
  "\<exists>cap. all_fit (store_op steady_os) op_fits [Read ''/f'' 4096 2048, Unlink ''/f'', Remount 3 cap [] []] demo_filled"
proof -
  have safe: "mem_safe demo_filled" using demo_filled_steady by (simp add: store_ok_def)
  obtain r out c1 where r: "xmp_read steady_os ''/f'' 4096 2048 demo_filled = Some (r, out, c1)" "kern_only dk_view demo_filled c1"
    by (rule xmp_read_total [OF steady_os_ok safe demo_filled_fits, of 2048 4096 "''/f''"]) simp_all
  obtain k where k: "c1 = demo_filled\<lparr>kern := k\<rparr>" using r(2) by (auto simp: kern_only_def)
  obtain c2 where u: "xmp_unlink steady_os ''/f'' c1 = Some (0, c2)" "freeList c2 = [0, 4096]" "heap c2 = Map.empty"
    "fileIndex c2 = Map.empty" "next_free_offset c2 = 8192" unfolding k using demo_unlink_filled by blast
  have fit: "counters_fit c1" by (simp add: k counters_fit_def demo_filled_state ctr_def)
  have "store_ok steady_os dk_view c1" using kern_only_store(1) [OF r(2)] demo_filled_steady by simp
  then have "store_ok steady_os dk_view c2" using unlink_removes [OF steady_os_ok _ fit u(1)] by blast
  then have "index_ok c2" by (simp add: store_ok_def mem_safe_def)
  then have "ran (blockIndex c2) = {}" using index_okD1 u(3) by (fastforce simp: ran_def)
  then have "persist_fits c2" "traverses [] [] c2" using u by (simp_all add: persist_fits_def traverses_def)
  then show ?thesis using r(1) u(1) fit demo_filled_fits
    by (intro exI [of _ "length (encode_metadata [] [] c2)"]) (simp split: option.split)
qed

theorem store_refines_files_witness:
  "\<exists>cap rs c'. run_ops (store_op steady_os) [Read ''/f'' 4096 2048, Unlink ''/f'', Remount 3 cap [] []] demo_filled = Some (rs, c') \<and>
     spec_run fs_step (abs_fs dk_view demo_filled) [Read ''/f'' 4096 2048, Unlink ''/f'', Remount 3 cap [] []] rs (abs_fs dk_view c')"
proof -
  obtain cap where f: "all_fit (store_op steady_os) op_fits [Read ''/f'' 4096 2048, Unlink ''/f'', Remount 3 cap [] []] demo_filled"
    using demo_history_fits by blast
  have "ran (abs_fs dk_view demo_filled) = {blockA @ blockB @ blockA}"
    using demo_filled_ok(2) by (auto simp: ran_def abs_fs_def demo_filled_state split: if_splits)
  then have "fs_blocks (abs_fs dk_view demo_filled) \<union> (\<Union>op \<in> set [Read ''/f'' 4096 2048, Unlink ''/f'', Remount 3 cap [] []]. op_blocks op)
      = set (blocks_of (blockA @ blockB @ blockA))"
    by (simp add: fs_blocks_def)
  with demo_nocoll have "inj_on (sha512 steady_os) (fs_blocks (abs_fs dk_view demo_filled) \<union>
      (\<Union>op \<in> set [Read ''/f'' 4096 2048, Unlink ''/f'', Remount 3 cap [] []]. op_blocks op))"
    by (simp add: steady_os_def)
  from store_refines_files [OF demo_filled_steady demo_steady f this] show ?thesis by blast
qed

end
